theory Spec2Isabelle
  imports Main "HOL-Library.Word" "HOL-Library.Tree"
begin

unbundle bit_operations_syntax

section \<open>Words, faults and sequencing\<close>

text \<open>
  Every pointer and every \<^verbatim>\<open>uintptr_t\<close> of the sources is a 64-bit word.  The sources
  are two programs that share their hazard-pointer interface: the list with the array
  retire list and the ordered find (suffix \<open>_arr\<close> where a name is shared), and the list
  with the red-black retire index and the conservative find (suffix \<open>_rb\<close>).

  A run of the C code that dereferences memory that is not allocated, indexes an array
  out of its bounds or fails an \<^verbatim>\<open>assert\<close> ends in a fault.  Loops that walk the heap
  take a fuel argument and end in \<open>OutOfFuel\<close> when it is used up.
\<close>

type_synonym ptr = "64 word"

datatype fault = OutOfFuel | BadAccess | AssertFailed

definition bindE :: "fault + 'a \<Rightarrow> ('a \<Rightarrow> fault + 'b) \<Rightarrow> fault + 'b" where
  "bindE m f = (case m of Inl e \<Rightarrow> Inl e | Inr x \<Rightarrow> f x)"

fun foldE :: "('a \<Rightarrow> 's \<Rightarrow> fault + 's) \<Rightarrow> 'a list \<Rightarrow> 's \<Rightarrow> fault + 's" where
  "foldE f [] s = Inr s"
| "foldE f (x # xs) s = bindE (f x s) (foldE f xs)"

definition HP_MAX_THREADS :: nat where "HP_MAX_THREADS = 128"
definition HP_MAX_HPS :: int where "HP_MAX_HPS = 5"
definition CLPAD :: nat where "CLPAD = 16"
definition HP_THRESHOLD_R :: int where "HP_THRESHOLD_R = 0"
definition HP_MAX_RETIRED :: int where "HP_MAX_RETIRED = int HP_MAX_THREADS * HP_MAX_HPS"

definition HP_NEXT :: nat where "HP_NEXT = 0"
definition HP_CURR :: nat where "HP_CURR = 1"
definition HP_PREV :: nat where "HP_PREV = 2"
definition HP_START :: nat where "HP_START = 3"

definition is_marked :: "ptr \<Rightarrow> bool" where
  "is_marked p = (p AND 1 \<noteq> 0)"

definition get_marked :: "ptr \<Rightarrow> ptr" where
  "get_marked p = p OR 1"

definition get_unmarked :: "ptr \<Rightarrow> ptr" where
  "get_unmarked p = p AND NOT 1"

definition LIST_MAGIC :: "32 word" where "LIST_MAGIC = 0xDEADBEAF"

section \<open>The state shared by both programs\<close>

text \<open>
  \<open>nodes\<close> is the heap of list nodes, \<open>l_head\<close> and \<open>l_tail\<close> are the two words of
  \<^verbatim>\<open>list_t\<close>, \<open>max_hps\<close> and \<open>hp\<close> are the fields of \<^verbatim>\<open>list_hp_t\<close>
  (\<open>hp st i j\<close> is \<^verbatim>\<open>hp->hp[i][j]\<close>; each row has \<open>2 * CLPAD\<close> words).
  \<open>avail\<close> lists the addresses the allocator hands out, \<open>used\<close> counts how many it
  has handed out; an answer of 0 is a failed allocation.  The calling thread's
  \<^verbatim>\<open>tid()\<close> is the argument \<open>t\<close> of every operation.  The instrumentation counters
  are not part of the model.  The \<^verbatim>\<open>deletefunc\<close> field, set once by
  \<^verbatim>\<open>list_hp_new\<close>, is passed to the operations that call it.
\<close>

record list_node =
  magic :: "32 word"
  nxt :: ptr
  key :: ptr

record lstate =
  nodes :: "ptr \<rightharpoonup> list_node"
  l_head :: ptr
  l_tail :: ptr
  max_hps :: int
  hp :: "nat \<Rightarrow> nat \<Rightarrow> ptr"
  avail :: "nat \<Rightarrow> ptr"
  used :: nat

definition hp_store :: "nat \<Rightarrow> nat \<Rightarrow> ptr \<Rightarrow> 'a lstate_scheme \<Rightarrow> fault + 'a lstate_scheme" where
  "hp_store i j v st =
     (if i < HP_MAX_THREADS \<and> j < 2 * CLPAD
      then Inr (st\<lparr>hp := (hp st)(i := (hp st i)(j := v))\<rparr>)
      else Inl BadAccess)"

definition hp_load :: "nat \<Rightarrow> nat \<Rightarrow> 'a lstate_scheme \<Rightarrow> fault + ptr" where
  "hp_load i j st =
     (if i < HP_MAX_THREADS \<and> j < 2 * CLPAD then Inr (hp st i j) else Inl BadAccess)"

definition list_hp_clear :: "nat \<Rightarrow> 'a lstate_scheme \<Rightarrow> fault + 'a lstate_scheme" where
  "list_hp_clear t st = foldE (\<lambda>i s. hp_store t i 0 s) [0..<nat (max_hps st)] st"

definition list_hp_protect_ptr ::
  "nat \<Rightarrow> nat \<Rightarrow> ptr \<Rightarrow> 'a lstate_scheme \<Rightarrow> fault + 'a lstate_scheme" where
  "list_hp_protect_ptr t ihp p st = hp_store t ihp p st"

definition list_hp_protect_release ::
  "nat \<Rightarrow> nat \<Rightarrow> ptr \<Rightarrow> 'a lstate_scheme \<Rightarrow> fault + 'a lstate_scheme" where
  "list_hp_protect_release t ihp p st = hp_store t ihp p st"

text \<open>
  \<^verbatim>\<open>list_node_new\<close> takes the next address the allocator hands out; \<^verbatim>\<open>list_node_destroy\<close>
  returns at once on a null pointer, checks the magic word and frees the node.
\<close>

definition list_node_new :: "ptr \<Rightarrow> 'a lstate_scheme \<Rightarrow> fault + (ptr \<times> 'a lstate_scheme)" where
  "list_node_new k st =
     (let a = avail st (used st) in
      if a = 0 then Inl AssertFailed
      else Inr (a, st\<lparr>nodes := (nodes st)(a \<mapsto> \<lparr>magic = LIST_MAGIC, nxt = 0, key = k\<rparr>),
                      used := Suc (used st)\<rparr>))"

definition list_node_destroy :: "ptr \<Rightarrow> (ptr \<rightharpoonup> list_node) \<Rightarrow> fault + (ptr \<rightharpoonup> list_node)" where
  "list_node_destroy p ns =
     (if p = 0 then Inr ns
      else case ns p of
             None \<Rightarrow> Inl BadAccess
           | Some n \<Rightarrow> if magic n = LIST_MAGIC then Inr (ns(p := None)) else Inl AssertFailed)"

section \<open>The hazard-pointer domain with the array retire list\<close>

text \<open>
  \<open>rl_size st i\<close> is \<^verbatim>\<open>hp->rl[i * CLPAD]->size\<close> (a C \<^verbatim>\<open>int\<close>) and
  \<open>rl_list st i k\<close> is \<^verbatim>\<open>hp->rl[i * CLPAD]->list[k]\<close>, an array of
  \<open>HP_MAX_RETIRED\<close> words.  The deleter of this program receives the retired pointer
  and acts on the node heap.
\<close>

record astate = lstate +
  rl_size :: "nat \<Rightarrow> int"
  rl_list :: "nat \<Rightarrow> nat \<Rightarrow> ptr"

type_synonym deleter_arr = "ptr \<Rightarrow> (ptr \<rightharpoonup> list_node) \<Rightarrow> fault + (ptr \<rightharpoonup> list_node)"

definition hp_new_thread_arr :: "nat \<Rightarrow> astate \<Rightarrow> fault + astate" where
  "hp_new_thread_arr i st =
     bindE (foldE (\<lambda>j s. hp_store i j 0 s) [0..<nat (max_hps st)]
              (st\<lparr>hp := (hp st)(i := (\<lambda>j. 0)), rl_size := (rl_size st)(i := 0)\<rparr>))
       (\<lambda>s. Inr (s\<lparr>rl_list := (rl_list s)(i := (\<lambda>k. 0))\<rparr>))"

definition list_hp_new_arr :: "ptr \<Rightarrow> astate \<Rightarrow> fault + astate" where
  "list_hp_new_arr K st =
     (let k = (if K = 0 then word_of_int HP_MAX_HPS else K) in
      foldE hp_new_thread_arr [0..<HP_MAX_THREADS]
        (st\<lparr>max_hps := sint (ucast k :: 32 word)\<rparr>))"

fun can_delete_hps :: "ptr \<Rightarrow> nat \<Rightarrow> nat list \<Rightarrow> 'a lstate_scheme \<Rightarrow> fault + bool" where
  "can_delete_hps obj itid [] st = Inr True"
| "can_delete_hps obj itid (ihp # rest) st =
     bindE (hp_load itid ihp st)
       (\<lambda>v. if v = obj then Inr False else can_delete_hps obj itid rest st)"

fun can_delete_tids :: "ptr \<Rightarrow> nat list \<Rightarrow> 'a lstate_scheme \<Rightarrow> fault + bool" where
  "can_delete_tids obj [] st = Inr True"
| "can_delete_tids obj (itid # rest) st =
     bindE (can_delete_hps obj itid (rev [0..<nat (max_hps st)]) st)
       (\<lambda>c. if c then can_delete_tids obj rest st else Inr False)"

text \<open>
  The \<^verbatim>\<open>memmove\<close> of the scan copies \<open>size - iret\<close> words from index \<open>iret + 1\<close> to
  index \<open>iret\<close>.
\<close>

definition rl_remove :: "nat \<Rightarrow> nat \<Rightarrow> astate \<Rightarrow> fault + astate" where
  "rl_remove t iret st =
     (let n = nat (rl_size st t) - iret in
      if int (iret + 1 + n) \<le> HP_MAX_RETIRED
      then Inr (st\<lparr>rl_list := (rl_list st)
                      (t := (\<lambda>k. if iret \<le> k \<and> k < iret + n then rl_list st t (k + 1)
                                 else rl_list st t k)),
                   rl_size := (rl_size st)(t := rl_size st t - 1)\<rparr>)
      else Inl BadAccess)"

text \<open>
  The loop test \<^verbatim>\<open>iret < rl->size\<close> compares a \<^verbatim>\<open>size_t\<close> with an \<^verbatim>\<open>int\<close>, so
  the \<^verbatim>\<open>int\<close> is converted to 64 bits unsigned.
\<close>

function scan_arr :: "deleter_arr \<Rightarrow> nat \<Rightarrow> nat \<Rightarrow> astate \<Rightarrow> fault + astate" where
  "scan_arr dfn t iret st =
     (if iret < unat (word_of_int (rl_size st t) :: 64 word) then
        if int iret < HP_MAX_RETIRED then
          (let obj = rl_list st t iret in
           case can_delete_tids obj [0..<HP_MAX_THREADS] st of
             Inl e \<Rightarrow> Inl e
           | Inr c \<Rightarrow>
               if c then
                 (case rl_remove t iret st of
                    Inl e \<Rightarrow> Inl e
                  | Inr st1 \<Rightarrow>
                      (case dfn obj (nodes st1) of
                         Inl e \<Rightarrow> Inl e
                       | Inr ns \<Rightarrow> scan_arr dfn t (iret + 1) (st1\<lparr>nodes := ns\<rparr>)))
               else scan_arr dfn t (iret + 1) st)
        else Inl BadAccess
      else Inr st)"
  by pat_completeness auto
termination
  by (relation "measure (\<lambda>(dfn, t, iret, st). nat HP_MAX_RETIRED - iret)")
     (auto simp: HP_MAX_RETIRED_def HP_MAX_THREADS_def HP_MAX_HPS_def)

definition rl_append_arr :: "nat \<Rightarrow> ptr \<Rightarrow> astate \<Rightarrow> fault + astate" where
  "rl_append_arr t p st =
     (let sz = rl_size st t in
      if 0 \<le> sz \<and> sz < HP_MAX_RETIRED
      then Inr (st\<lparr>rl_list := (rl_list st)(t := (rl_list st t)(nat sz := p)),
                   rl_size := (rl_size st)(t := sz + 1)\<rparr>)
      else Inl BadAccess)"

definition list_hp_retire_arr :: "deleter_arr \<Rightarrow> nat \<Rightarrow> ptr \<Rightarrow> astate \<Rightarrow> fault + astate" where
  "list_hp_retire_arr dfn t p st =
     bindE (rl_append_arr t p st)
       (\<lambda>st1. if \<not> rl_size st1 t < HP_MAX_RETIRED then Inl AssertFailed
              else if rl_size st1 t < HP_THRESHOLD_R then Inr st1
              else scan_arr dfn t 0 st1)"

section \<open>The red-black tree\<close>

text \<open>
  \<open>rbs\<close> is the heap of \<^verbatim>\<open>struct rbtree\<close> objects, \<open>roots\<close> the heap of
  \<^verbatim>\<open>struct task_tree_root\<close> objects.  The \<^verbatim>\<open>nil\<close> member of a root at address
  \<open>r\<close> is the \<^verbatim>\<open>struct rbtree\<close> at \<open>nil_of r\<close>.  A \<^verbatim>\<open>retirelist_t\<close> at address
  \<open>a\<close> has its \<^verbatim>\<open>ptr\<close> member in \<open>recs st a\<close> and its \<^verbatim>\<open>rbnode\<close> member at
  \<open>rbnode_of a\<close>; \<open>container_of\<close> goes back.  \<open>rl st i\<close> is
  \<^verbatim>\<open>hp->rl[i * CLPAD]\<close>.  Memory that \<^verbatim>\<open>malloc\<close> returns holds \<open>junk st\<close>.
\<close>

record rbtree =
  parent_color :: ptr
  leftC :: ptr
  rightC :: ptr

record task_tree_root =
  head :: ptr
  cnt :: ptr

record bstate = lstate +
  rl :: "nat \<Rightarrow> ptr"
  roots :: "ptr \<rightharpoonup> task_tree_root"
  rbs :: "ptr \<rightharpoonup> rbtree"
  recs :: "ptr \<rightharpoonup> ptr"
  junk :: ptr

definition RED :: ptr where "RED = 0"
definition BLACK :: ptr where "BLACK = 1"

definition RB_EQUAL :: int where "RB_EQUAL = 0"
definition RB_EQUAL_BREAK :: int where "RB_EQUAL_BREAK = - 1"
definition RB_LEFT :: int where "RB_LEFT = 1"
definition RB_RIGHT :: int where "RB_RIGHT = 2"

definition nil_of :: "ptr \<Rightarrow> ptr" where "nil_of r = r + 8"
definition rbnode_of :: "ptr \<Rightarrow> ptr" where "rbnode_of a = a + 8"
definition container_of :: "ptr \<Rightarrow> ptr" where "container_of p = p - 8"

definition rb_read :: "ptr \<Rightarrow> bstate \<Rightarrow> fault + rbtree" where
  "rb_read p st = (case rbs st p of None \<Rightarrow> Inl BadAccess | Some n \<Rightarrow> Inr n)"

definition rb_modify :: "(rbtree \<Rightarrow> rbtree) \<Rightarrow> ptr \<Rightarrow> bstate \<Rightarrow> fault + bstate" where
  "rb_modify f p st =
     (case rbs st p of
        None \<Rightarrow> Inl BadAccess
      | Some n \<Rightarrow> Inr (st\<lparr>rbs := (rbs st)(p \<mapsto> f n)\<rparr>))"

definition root_read :: "ptr \<Rightarrow> bstate \<Rightarrow> fault + task_tree_root" where
  "root_read r st = (case roots st r of None \<Rightarrow> Inl BadAccess | Some x \<Rightarrow> Inr x)"

definition root_modify :: "(task_tree_root \<Rightarrow> task_tree_root) \<Rightarrow> ptr \<Rightarrow> bstate \<Rightarrow> fault + bstate" where
  "root_modify f r st =
     (case roots st r of
        None \<Rightarrow> Inl BadAccess
      | Some x \<Rightarrow> Inr (st\<lparr>roots := (roots st)(r \<mapsto> f x)\<rparr>))"

definition rb_left :: "ptr \<Rightarrow> bstate \<Rightarrow> fault + ptr" where
  "rb_left p st = bindE (rb_read p st) (\<lambda>n. Inr (leftC n))"

definition rb_right :: "ptr \<Rightarrow> bstate \<Rightarrow> fault + ptr" where
  "rb_right p st = bindE (rb_read p st) (\<lambda>n. Inr (rightC n))"

definition rb_parent :: "ptr \<Rightarrow> bstate \<Rightarrow> fault + ptr" where
  "rb_parent r st = bindE (rb_read r st) (\<lambda>n. Inr (parent_color n AND NOT 3))"

definition rb_color :: "ptr \<Rightarrow> bstate \<Rightarrow> fault + ptr" where
  "rb_color r st = bindE (rb_read r st) (\<lambda>n. Inr (parent_color n AND 1))"

definition rb_gparent :: "ptr \<Rightarrow> bstate \<Rightarrow> fault + ptr" where
  "rb_gparent r st = bindE (rb_parent r st) (\<lambda>p. rb_parent p st)"

definition rb_set_left :: "ptr \<Rightarrow> ptr \<Rightarrow> bstate \<Rightarrow> fault + bstate" where
  "rb_set_left r v st = rb_modify (\<lambda>n. n\<lparr>leftC := v\<rparr>) r st"

definition rb_set_right :: "ptr \<Rightarrow> ptr \<Rightarrow> bstate \<Rightarrow> fault + bstate" where
  "rb_set_right r v st = rb_modify (\<lambda>n. n\<lparr>rightC := v\<rparr>) r st"

definition rb_set_parent :: "ptr \<Rightarrow> ptr \<Rightarrow> bstate \<Rightarrow> fault + bstate" where
  "rb_set_parent r p st = rb_modify (\<lambda>n. n\<lparr>parent_color := (parent_color n AND 1) OR p\<rparr>) r st"

definition rb_set_red :: "ptr \<Rightarrow> bstate \<Rightarrow> fault + bstate" where
  "rb_set_red r st = rb_modify (\<lambda>n. n\<lparr>parent_color := parent_color n AND NOT 1\<rparr>) r st"

definition rb_set_black :: "ptr \<Rightarrow> bstate \<Rightarrow> fault + bstate" where
  "rb_set_black r st = rb_modify (\<lambda>n. n\<lparr>parent_color := parent_color n OR 1\<rparr>) r st"

definition root_set_head :: "ptr \<Rightarrow> ptr \<Rightarrow> bstate \<Rightarrow> fault + bstate" where
  "root_set_head r v st = root_modify (\<lambda>x. x\<lparr>head := v\<rparr>) r st"

definition RB_ROOT_INIT :: "ptr \<Rightarrow> bstate \<Rightarrow> fault + bstate" where
  "RB_ROOT_INIT r st =
     bindE (root_set_head r (nil_of r) st) (\<lambda>st.
     bindE (rb_modify (\<lambda>n. n\<lparr>parent_color := BLACK\<rparr>) (nil_of r) st) (\<lambda>st.
     bindE (rb_set_left (nil_of r) 0 st) (\<lambda>st.
     bindE (rb_set_right (nil_of r) 0 st) (\<lambda>st.
     root_modify (\<lambda>x. x\<lparr>cnt := 0\<rparr>) r st))))"

text \<open>
  Both rotations relink three nodes; the parent's child pointer, or \<^verbatim>\<open>root->head\<close>
  when the parent is \<^verbatim>\<open>nil\<close>, is redirected to the node that moves up.
\<close>

definition replace_child :: "ptr \<Rightarrow> ptr \<Rightarrow> ptr \<Rightarrow> bool \<Rightarrow> bstate \<Rightarrow> fault + bstate" where
  "replace_child root x y left_first st =
     bindE (rb_parent x st) (\<lambda>p.
     if p = nil_of root then root_set_head root y st
     else bindE (if left_first then rb_left p st else rb_right p st) (\<lambda>c.
          if x = c then (if left_first then rb_set_left p y st else rb_set_right p y st)
          else (if left_first then rb_set_right p y st else rb_set_left p y st)))"

definition task_tree_left_rotate :: "ptr \<Rightarrow> ptr \<Rightarrow> bstate \<Rightarrow> fault + bstate" where
  "task_tree_left_rotate root x st =
     bindE (rb_right x st) (\<lambda>y.
     bindE (rb_left y st) (\<lambda>yl.
     bindE (rb_set_right x yl st) (\<lambda>st.
     bindE (rb_left y st) (\<lambda>yl.
     bindE (if yl \<noteq> nil_of root then rb_set_parent yl x st else Inr st) (\<lambda>st.
     bindE (rb_parent x st) (\<lambda>xp.
     bindE (rb_set_parent y xp st) (\<lambda>st.
     bindE (replace_child root x y True st) (\<lambda>st.
     bindE (rb_set_left y x st) (\<lambda>st.
     rb_set_parent x y st)))))))))"

definition task_tree_right_rotate :: "ptr \<Rightarrow> ptr \<Rightarrow> bstate \<Rightarrow> fault + bstate" where
  "task_tree_right_rotate root y st =
     bindE (rb_left y st) (\<lambda>x.
     bindE (rb_right x st) (\<lambda>xr.
     bindE (rb_set_left y xr st) (\<lambda>st.
     bindE (rb_right x st) (\<lambda>xr.
     bindE (if xr \<noteq> nil_of root then rb_set_parent xr y st else Inr st) (\<lambda>st.
     bindE (rb_parent y st) (\<lambda>yp.
     bindE (rb_set_parent x yp st) (\<lambda>st.
     bindE (replace_child root y x False st) (\<lambda>st.
     bindE (rb_set_right x y st) (\<lambda>st.
     rb_set_parent y x st)))))))))"

text \<open>
  One case of the fix-up loop, for the side given by \<open>lft\<close>: the uncle \<open>y\<close> is red
  (recolour and continue from the grandparent) or black (rotate).  It returns the node
  the loop continues with.
\<close>

definition fixup_recolour :: "ptr \<Rightarrow> ptr \<Rightarrow> bstate \<Rightarrow> fault + (ptr \<times> bstate)" where
  "fixup_recolour y node st =
     bindE (rb_parent node st) (\<lambda>p.
     bindE (rb_set_black p st) (\<lambda>st.
     bindE (rb_set_black y st) (\<lambda>st.
     bindE (rb_gparent node st) (\<lambda>g.
     bindE (rb_set_red g st) (\<lambda>st.
     bindE (rb_gparent node st) (\<lambda>g. Inr (g, st)))))))"

definition fixup_rotate :: "bool \<Rightarrow> ptr \<Rightarrow> ptr \<Rightarrow> bstate \<Rightarrow> fault + (ptr \<times> bstate)" where
  "fixup_rotate lft root node st =
     bindE (rb_parent node st) (\<lambda>p.
     bindE (if lft then rb_right p st else rb_left p st) (\<lambda>c.
     bindE (if node = c
            then bindE ((if lft then task_tree_left_rotate else task_tree_right_rotate) root p st)
                   (\<lambda>st. Inr (p, st))
            else Inr (node, st)) (\<lambda>(node, st).
     bindE (rb_parent node st) (\<lambda>p.
     bindE (rb_set_black p st) (\<lambda>st.
     bindE (rb_gparent node st) (\<lambda>g.
     bindE (rb_set_red g st) (\<lambda>st.
     bindE (rb_gparent node st) (\<lambda>g.
     bindE ((if lft then task_tree_right_rotate else task_tree_left_rotate) root g st)
       (\<lambda>st. Inr (node, st))))))))))"

definition insert_fixup_case :: "bool \<Rightarrow> ptr \<Rightarrow> ptr \<Rightarrow> bstate \<Rightarrow> fault + (ptr \<times> bstate)" where
  "insert_fixup_case lft root node st =
     bindE (rb_gparent node st) (\<lambda>g.
     bindE (if lft then rb_right g st else rb_left g st) (\<lambda>y.
     bindE (rb_color y st) (\<lambda>yc.
     if yc = RED then fixup_recolour y node st else fixup_rotate lft root node st)))"

fun task_insert_fixup :: "nat \<Rightarrow> ptr \<Rightarrow> ptr \<Rightarrow> bstate \<Rightarrow> fault + bstate" where
  "task_insert_fixup 0 root node st = Inl OutOfFuel"
| "task_insert_fixup (Suc n) root node st =
     bindE (rb_parent node st) (\<lambda>p.
     bindE (rb_color p st) (\<lambda>pc.
     if pc = RED then
       bindE (rb_gparent node st) (\<lambda>g.
       bindE (rb_left g st) (\<lambda>gl.
       bindE (insert_fixup_case (p = gl) root node st) (\<lambda>(node, st).
       task_insert_fixup n root node st)))
     else
       bindE (root_read root st) (\<lambda>r. rb_set_black (head r) st)))"

type_synonym cmp_insert_t = "ptr \<Rightarrow> ptr \<Rightarrow> bstate \<Rightarrow> fault + bool"
type_synonym cmp_search_t = "ptr \<Rightarrow> bstate \<Rightarrow> fault + int"
type_synonym deleter_rb = "ptr \<Rightarrow> bstate \<Rightarrow> fault + bstate"

fun rbtree_insert_walk ::
  "nat \<Rightarrow> cmp_insert_t \<Rightarrow> ptr \<Rightarrow> ptr \<Rightarrow> ptr \<Rightarrow> ptr \<Rightarrow> bstate \<Rightarrow> fault + ptr" where
  "rbtree_insert_walk 0 cmp nil node y x st = Inl OutOfFuel"
| "rbtree_insert_walk (Suc n) cmp nil node y x st =
     (if x \<noteq> nil then
        bindE (cmp node x st) (\<lambda>c.
        bindE (if c then rb_left x st else rb_right x st) (\<lambda>x'.
        rbtree_insert_walk n cmp nil node x x' st))
      else Inr y)"

definition rbtree_insert :: "nat \<Rightarrow> cmp_insert_t \<Rightarrow> ptr \<Rightarrow> ptr \<Rightarrow> bstate \<Rightarrow> fault + bstate" where
  "rbtree_insert fuel cmp root node st =
     bindE (root_read root st) (\<lambda>r.
     bindE (rbtree_insert_walk fuel cmp (nil_of root) node (nil_of root) (head r) st) (\<lambda>y.
     bindE (rb_set_parent node y st) (\<lambda>st.
     bindE (if y = nil_of root then root_set_head root node st
            else bindE (cmp node y st) (\<lambda>c.
                 if c then rb_set_left y node st else rb_set_right y node st)) (\<lambda>st.
     bindE (rb_set_right node (nil_of root) st) (\<lambda>st.
     bindE (rb_set_left node (nil_of root) st) (\<lambda>st.
     bindE (rb_set_red node st) (\<lambda>st.
     bindE (task_insert_fixup fuel root node st) (\<lambda>st.
     root_modify (\<lambda>x. x\<lparr>cnt := cnt x + 1\<rparr>) root st))))))))"

fun rbtree_clean_rec :: "nat \<Rightarrow> ptr \<Rightarrow> deleter_rb \<Rightarrow> ptr \<Rightarrow> bstate \<Rightarrow> fault + bstate" where
  "rbtree_clean_rec 0 nil freefunc node st = Inl OutOfFuel"
| "rbtree_clean_rec (Suc n) nil freefunc node st =
     (if node \<noteq> nil then
        bindE (rb_left node st) (\<lambda>l.
        bindE (rb_right node st) (\<lambda>r.
        bindE (freefunc node st) (\<lambda>st.
        bindE (rbtree_clean_rec n nil freefunc l st) (\<lambda>st.
        rbtree_clean_rec n nil freefunc r st))))
      else Inr st)"

definition rbtree_clean :: "nat \<Rightarrow> ptr \<Rightarrow> deleter_rb \<Rightarrow> bstate \<Rightarrow> fault + bstate" where
  "rbtree_clean fuel root freefunc st =
     bindE (root_read root st) (\<lambda>r. rbtree_clean_rec fuel (nil_of root) freefunc (head r) st)"

text \<open>
  The search returns the null pointer when the walk ends in \<^verbatim>\<open>nil\<close>.  A comparison
  result outside the four codes leaves \<^verbatim>\<open>temp\<close> unchanged, as the \<^verbatim>\<open>switch\<close> has no
  default case.
\<close>

fun rbtree_search_loop :: "nat \<Rightarrow> cmp_search_t \<Rightarrow> ptr \<Rightarrow> ptr \<Rightarrow> bstate \<Rightarrow> fault + ptr" where
  "rbtree_search_loop 0 cmp nil temp st = Inl OutOfFuel"
| "rbtree_search_loop (Suc n) cmp nil temp st =
     (if temp \<noteq> nil then
        bindE (cmp temp st) (\<lambda>ret.
        if ret = RB_EQUAL then Inr temp
        else if ret = RB_LEFT then
          bindE (rb_left temp st) (\<lambda>l. rbtree_search_loop n cmp nil l st)
        else if ret = RB_RIGHT then
          bindE (rb_right temp st) (\<lambda>r. rbtree_search_loop n cmp nil r st)
        else if ret = RB_EQUAL_BREAK then Inr nil
        else rbtree_search_loop n cmp nil temp st)
      else Inr 0)"

definition rbtree_search :: "nat \<Rightarrow> cmp_search_t \<Rightarrow> ptr \<Rightarrow> bstate \<Rightarrow> fault + ptr" where
  "rbtree_search fuel cmp root st =
     bindE (root_read root st) (\<lambda>r. rbtree_search_loop fuel cmp (nil_of root) (head r) st)"

section \<open>The hazard-pointer domain with the red-black retire index\<close>

text \<open>
  Allocation takes the next address the allocator hands out; nothing is allocated when
  that address is 0.  \<^verbatim>\<open>malloc\<close> leaves \<open>junk st\<close> in the new object, \<^verbatim>\<open>calloc\<close>
  zeroes it.
\<close>

definition malloc_rec :: "bstate \<Rightarrow> ptr \<times> bstate" where
  "malloc_rec st =
     (let a = avail st (used st); st1 = st\<lparr>used := Suc (used st)\<rparr> in
      if a = 0 then (a, st1)
      else (a, st1\<lparr>recs := (recs st1)(a \<mapsto> junk st1),
                    rbs := (rbs st1)(rbnode_of a \<mapsto>
                      \<lparr>parent_color = junk st1, leftC = junk st1, rightC = junk st1\<rparr>)\<rparr>))"

definition alloc_root :: "ptr \<Rightarrow> bstate \<Rightarrow> ptr \<times> bstate" where
  "alloc_root v st =
     (let r = avail st (used st); st1 = st\<lparr>used := Suc (used st)\<rparr> in
      if r = 0 then (r, st1)
      else (r, st1\<lparr>roots := (roots st1)(r \<mapsto> \<lparr>head = v, cnt = v\<rparr>),
                    rbs := (rbs st1)(nil_of r \<mapsto> \<lparr>parent_color = v, leftC = v, rightC = v\<rparr>)\<rparr>))"

definition malloc_root :: "bstate \<Rightarrow> ptr \<times> bstate" where
  "malloc_root st = alloc_root (junk st) st"

definition calloc_root :: "bstate \<Rightarrow> ptr \<times> bstate" where
  "calloc_root st = alloc_root 0 st"

definition free_rec :: "ptr \<Rightarrow> bstate \<Rightarrow> fault + bstate" where
  "free_rec a st =
     (if a = 0 then Inr st
      else case recs st a of
             None \<Rightarrow> Inl BadAccess
           | Some _ \<Rightarrow> Inr (st\<lparr>recs := (recs st)(a := None),
                              rbs := (rbs st)(rbnode_of a := None)\<rparr>))"

definition free_root :: "ptr \<Rightarrow> bstate \<Rightarrow> fault + bstate" where
  "free_root r st =
     (if r = 0 then Inr st
      else case roots st r of
             None \<Rightarrow> Inl BadAccess
           | Some _ \<Rightarrow> Inr (st\<lparr>roots := (roots st)(r := None),
                              rbs := (rbs st)(nil_of r := None)\<rparr>))"

definition rec_ptr :: "ptr \<Rightarrow> bstate \<Rightarrow> fault + ptr" where
  "rec_ptr a st = (case recs st a of None \<Rightarrow> Inl BadAccess | Some p \<Rightarrow> Inr p)"

definition rec_set_ptr :: "ptr \<Rightarrow> ptr \<Rightarrow> bstate \<Rightarrow> fault + bstate" where
  "rec_set_ptr a p st =
     (case recs st a of
        None \<Rightarrow> Inl BadAccess
      | Some _ \<Rightarrow> Inr (st\<lparr>recs := (recs st)(a \<mapsto> p)\<rparr>))"

definition cmp_insert :: cmp_insert_t where
  "cmp_insert a b st =
     bindE (rec_ptr (container_of a) st) (\<lambda>np.
     bindE (rec_ptr (container_of b) st) (\<lambda>xp. Inr (np < xp)))"

text \<open>
  The \<^verbatim>\<open>data\<close> argument of \<^verbatim>\<open>cmp_search\<close> is the address of the hazard slot
  \<^verbatim>\<open>hp->hp[itid][ihp]\<close>, given here by its two indices.
\<close>

definition cmp_search :: "nat \<Rightarrow> nat \<Rightarrow> cmp_search_t" where
  "cmp_search itid ihp node st =
     bindE (hp_load itid ihp st) (\<lambda>p.
     bindE (rec_ptr (container_of node) st) (\<lambda>np.
     Inr (if np = p then RB_EQUAL else if np > p then RB_LEFT else RB_RIGHT)))"

definition list_node_delete_rb :: deleter_rb where
  "list_node_delete_rb node st =
     bindE (rec_ptr (container_of node) st) (\<lambda>p.
     bindE (list_node_destroy p (nodes st)) (\<lambda>ns.
     free_rec (container_of node) (st\<lparr>nodes := ns\<rparr>)))"

definition hp_new_thread_rb :: "nat \<Rightarrow> bstate \<Rightarrow> fault + bstate" where
  "hp_new_thread_rb i st =
     (let (r, st1) = calloc_root (st\<lparr>hp := (hp st)(i := (\<lambda>j. 0))\<rparr>);
          st2 = st1\<lparr>rl := (rl st1)(i := r)\<rparr>
      in bindE (foldE (\<lambda>j s. hp_store i j 0 s) [0..<nat (max_hps st2)] st2)
           (\<lambda>s. RB_ROOT_INIT (rl s i) s))"

definition list_hp_new_rb :: "ptr \<Rightarrow> bstate \<Rightarrow> fault + bstate" where
  "list_hp_new_rb K st =
     (let k = (if K = 0 then word_of_int HP_MAX_HPS else K) in
      foldE hp_new_thread_rb [0..<HP_MAX_THREADS]
        (st\<lparr>max_hps := sint (ucast k :: 32 word), rl := (\<lambda>i. 0)\<rparr>))"

definition list_hp_destroy_rb :: "nat \<Rightarrow> deleter_rb \<Rightarrow> bstate \<Rightarrow> fault + bstate" where
  "list_hp_destroy_rb fuel dfn st =
     foldE (\<lambda>i s. bindE (rbtree_clean fuel (rl s i) dfn s) (free_root (rl s i)))
       [0..<HP_MAX_THREADS] st"

text \<open>
  The part of \<^verbatim>\<open>list_hp_retire\<close> after the threshold test: every hazard slot of every
  other thread is looked up in the retire index and a hit is inserted into a new index;
  then the old index is cleaned with the deleter and the new one installed.
\<close>

definition scan_slot_rb :: "nat \<Rightarrow> ptr \<Rightarrow> ptr \<Rightarrow> nat \<Rightarrow> nat \<Rightarrow> bstate \<Rightarrow> fault + bstate" where
  "scan_slot_rb fuel root new itid ihp st =
     bindE (rbtree_search fuel (cmp_search itid ihp) root st) (\<lambda>tmp.
     if tmp \<noteq> 0 then rbtree_insert fuel cmp_insert new tmp st else Inr st)"

definition scan_rb :: "nat \<Rightarrow> deleter_rb \<Rightarrow> nat \<Rightarrow> ptr \<Rightarrow> bstate \<Rightarrow> fault + bstate" where
  "scan_rb fuel dfn t root st =
     (let (new, st) = malloc_root st in
      bindE (RB_ROOT_INIT new st) (\<lambda>st.
      bindE (foldE (\<lambda>itid s.
               if itid = t then Inr s
               else foldE (scan_slot_rb fuel root new itid) (rev [0..<nat (max_hps s)]) s)
             [0..<HP_MAX_THREADS] st) (\<lambda>st.
      bindE (rbtree_clean fuel root dfn st) (\<lambda>st.
      Inr (st\<lparr>rl := (rl st)(t := new)\<rparr>)))))"

definition rl_insert_rb :: "nat \<Rightarrow> nat \<Rightarrow> ptr \<Rightarrow> bstate \<Rightarrow> fault + bstate" where
  "rl_insert_rb fuel t p st =
     (let (node, st1) = malloc_rec st in
      bindE (rec_set_ptr node p st1) (\<lambda>st2.
      rbtree_insert fuel cmp_insert (rl st t) (rbnode_of node) st2))"

definition list_hp_retire_rb :: "nat \<Rightarrow> deleter_rb \<Rightarrow> nat \<Rightarrow> ptr \<Rightarrow> bstate \<Rightarrow> fault + bstate" where
  "list_hp_retire_rb fuel dfn t p st =
     bindE (rl_insert_rb fuel t p st) (\<lambda>st1.
     bindE (root_read (rl st t) st1) (\<lambda>r.
     if \<not> cnt r < word_of_int HP_MAX_RETIRED then Inl AssertFailed
     else if cnt r < word_of_int HP_THRESHOLD_R then Inr st1
     else scan_rb fuel dfn t (rl st t) st1))"

section \<open>Atomic words of the list\<close>

text \<open>
  An \<^verbatim>\<open>atomic_uintptr_t *\<close> of the list code is null, the address of
  \<^verbatim>\<open>list->head\<close>, or the address of the \<^verbatim>\<open>next\<close> member of a node.  The
  operations below run with no other thread between their atomic accesses: a load
  returns what memory holds, a compare-and-swap succeeds exactly when memory holds the
  expected word.
\<close>

datatype loc = LNull | LHead | LNext ptr

type_synonym outs = "loc \<times> ptr \<times> ptr"

definition node_read :: "ptr \<Rightarrow> 'a lstate_scheme \<Rightarrow> fault + list_node" where
  "node_read a st = (case nodes st a of None \<Rightarrow> Inl BadAccess | Some n \<Rightarrow> Inr n)"

definition node_key :: "ptr \<Rightarrow> 'a lstate_scheme \<Rightarrow> fault + ptr" where
  "node_key a st = bindE (node_read a st) (\<lambda>n. Inr (key n))"

fun load :: "loc \<Rightarrow> 'a lstate_scheme \<Rightarrow> fault + ptr" where
  "load LNull st = Inl BadAccess"
| "load LHead st = Inr (l_head st)"
| "load (LNext a) st = bindE (node_read a st) (\<lambda>n. Inr (nxt n))"

fun loc_store :: "loc \<Rightarrow> ptr \<Rightarrow> 'a lstate_scheme \<Rightarrow> fault + 'a lstate_scheme" where
  "loc_store LNull v st = Inl BadAccess"
| "loc_store LHead v st = Inr (st\<lparr>l_head := v\<rparr>)"
| "loc_store (LNext a) v st =
     bindE (node_read a st) (\<lambda>n. Inr (st\<lparr>nodes := (nodes st)(a \<mapsto> n\<lparr>nxt := v\<rparr>)\<rparr>))"

definition cas :: "loc \<Rightarrow> ptr \<Rightarrow> ptr \<Rightarrow> 'a lstate_scheme \<Rightarrow> fault + (bool \<times> 'a lstate_scheme)" where
  "cas l expected desired st =
     bindE (load l st) (\<lambda>v.
     if v = expected then bindE (loc_store l desired st) (\<lambda>st. Inr (True, st))
     else Inr (False, st))"

definition fetch_or :: "loc \<Rightarrow> ptr \<Rightarrow> 'a lstate_scheme \<Rightarrow> fault + (ptr \<times> 'a lstate_scheme)" where
  "fetch_or l m st =
     bindE (load l st) (\<lambda>v. bindE (loc_store l (v OR m) st) (\<lambda>st. Inr (v, st)))"

section \<open>The list with the conservative find and the red-black retire index\<close>

text \<open>
  \<open>list_find\<close> is \<^verbatim>\<open>__list_find\<close>.  Its three out-parameters are the argument
  \<open>o0\<close>; the early \<^verbatim>\<open>return false\<close> on a null \<^verbatim>\<open>curr\<close> leaves them as they are.
  \<open>list_find\<close> is the code from the label \<^verbatim>\<open>try_again\<close>, \<open>list_find_loop\<close> one
  round of the \<^verbatim>\<open>while (true)\<close>.
\<close>

fun list_find ::
      "nat \<Rightarrow> deleter_rb \<Rightarrow> nat \<Rightarrow> ptr \<Rightarrow> outs \<Rightarrow> bstate \<Rightarrow> fault + (bool \<times> outs \<times> bstate)"
  and list_find_loop ::
      "nat \<Rightarrow> deleter_rb \<Rightarrow> nat \<Rightarrow> ptr \<Rightarrow> outs \<Rightarrow> loc \<Rightarrow> ptr \<Rightarrow> bstate
         \<Rightarrow> fault + (bool \<times> outs \<times> bstate)" where
  "list_find 0 dfn t k o0 st = Inl OutOfFuel"
| "list_find (Suc n) dfn t k o0 st =
     bindE (load LHead st) (\<lambda>cur.
     bindE (list_hp_protect_ptr t HP_CURR cur st) (\<lambda>st.
     bindE (load LHead st) (\<lambda>v.
     if v \<noteq> get_unmarked cur then list_find n dfn t k o0 st
     else list_find_loop n dfn t k o0 LHead cur st)))"
| "list_find_loop 0 dfn t k o0 prev cur st = Inl OutOfFuel"
| "list_find_loop (Suc n) dfn t k o0 prev cur st =
     (if get_unmarked cur = 0 then Inr (False, o0, st)
      else
        bindE (load (LNext (get_unmarked cur)) st) (\<lambda>nx.
        bindE (list_hp_protect_ptr t HP_NEXT (get_unmarked nx) st) (\<lambda>st.
        bindE (load (LNext (get_unmarked cur)) st) (\<lambda>v.
        if v \<noteq> get_unmarked nx then Inr (False, (prev, cur, nx), st)
        else if get_unmarked nx = l_tail st then Inr (False, (prev, cur, nx), st)
        else
          bindE (load prev st) (\<lambda>v.
          if v \<noteq> get_unmarked cur then list_find n dfn t k o0 st
          else if get_unmarked nx = nx then
            bindE (node_key (get_unmarked cur) st) (\<lambda>ck.
            if \<not> ck < k then Inr (ck = k, (prev, cur, nx), st)
            else
              bindE (list_hp_protect_release t HP_PREV (get_unmarked cur) st) (\<lambda>st.
              bindE (list_hp_protect_release t HP_CURR (get_unmarked nx) st) (\<lambda>st.
              list_find_loop n dfn t k o0 (LNext (get_unmarked cur)) nx st)))
          else
            bindE (cas prev (get_unmarked cur) (get_unmarked nx) st) (\<lambda>(ok, st).
            if \<not> ok then list_find n dfn t k o0 st
            else
              bindE (list_hp_retire_rb n dfn t (get_unmarked cur) st) (\<lambda>st.
              bindE (list_hp_protect_release t HP_CURR (get_unmarked nx) st) (\<lambda>st.
              list_find_loop n dfn t k o0 prev nx st))))))))"

text \<open>
  The store of \<^verbatim>\<open>list_insert\<close> into the fresh node, which precedes the linking
  compare-and-swap.
\<close>

definition insert_store :: "ptr \<Rightarrow> ptr \<Rightarrow> 'a lstate_scheme \<Rightarrow> fault + 'a lstate_scheme" where
  "insert_store node cur st = loc_store (LNext node) cur st"

definition insert_fail :: "nat \<Rightarrow> ptr \<Rightarrow> 'a lstate_scheme \<Rightarrow> fault + (bool \<times> 'a lstate_scheme)" where
  "insert_fail t node st =
     bindE (list_node_destroy node (nodes st)) (\<lambda>ns.
     bindE (list_hp_clear t (st\<lparr>nodes := ns\<rparr>)) (\<lambda>st. Inr (False, st)))"

fun list_insert_loop ::
  "nat \<Rightarrow> deleter_rb \<Rightarrow> nat \<Rightarrow> ptr \<Rightarrow> ptr \<Rightarrow> outs \<Rightarrow> bstate \<Rightarrow> fault + (bool \<times> bstate)" where
  "list_insert_loop 0 dfn t k node o0 st = Inl OutOfFuel"
| "list_insert_loop (Suc n) dfn t k node o0 st =
     bindE (list_find n dfn t k o0 st) (\<lambda>(found, (prev, cur, nx), st).
     if found then insert_fail t node st
     else
       bindE (insert_store node cur st) (\<lambda>st.
       bindE (cas prev (get_unmarked cur) node st) (\<lambda>(ok, st).
       if ok then bindE (list_hp_clear t st) (\<lambda>st. Inr (True, st))
       else list_insert_loop n dfn t k node (prev, cur, nx) st)))"

definition list_insert :: "nat \<Rightarrow> deleter_rb \<Rightarrow> nat \<Rightarrow> ptr \<Rightarrow> bstate \<Rightarrow> fault + (bool \<times> bstate)" where
  "list_insert fuel dfn t k st =
     bindE (list_node_new k st) (\<lambda>(node, st).
     list_insert_loop fuel dfn t k node (LNull, 0, 0) st)"

text \<open>
  \<^verbatim>\<open>list_delete\<close> declares its three locals without a value; they are read only after
  a find that returned true and so has set them.
\<close>

fun list_delete_loop ::
  "nat \<Rightarrow> deleter_rb \<Rightarrow> nat \<Rightarrow> ptr \<Rightarrow> outs \<Rightarrow> bstate \<Rightarrow> fault + (bool \<times> bstate)" where
  "list_delete_loop 0 dfn t k o0 st = Inl OutOfFuel"
| "list_delete_loop (Suc n) dfn t k o0 st =
     bindE (list_find n dfn t k o0 st) (\<lambda>(found, (prev, cur, nx), st).
     if \<not> found then bindE (list_hp_clear t st) (\<lambda>st. Inr (False, st))
     else
       bindE (cas (LNext cur) (get_unmarked nx) (get_marked nx) st) (\<lambda>(ok, st).
       if \<not> ok then list_delete_loop n dfn t k (prev, cur, nx) st
       else
         bindE (cas prev (get_unmarked cur) (get_unmarked nx) st) (\<lambda>(ok, st).
         if ok then
           bindE (list_hp_clear t st) (\<lambda>st.
           bindE (list_hp_retire_rb n dfn t (get_unmarked cur) st) (\<lambda>st. Inr (True, st)))
         else bindE (list_hp_clear t st) (\<lambda>st. Inr (True, st)))))"

definition list_delete :: "nat \<Rightarrow> deleter_rb \<Rightarrow> nat \<Rightarrow> ptr \<Rightarrow> bstate \<Rightarrow> fault + (bool \<times> bstate)" where
  "list_delete fuel dfn t k st = list_delete_loop fuel dfn t k (LNull, 0, 0) st"

definition list_new_rb :: "bstate \<Rightarrow> fault + bstate" where
  "list_new_rb st =
     bindE (list_node_new 0 st) (\<lambda>(h, st).
     bindE (list_node_new (- 1) st) (\<lambda>(tl, st).
     bindE (list_hp_new_rb 3 st) (\<lambda>st.
     bindE (loc_store (LNext h) tl st) (\<lambda>st.
     Inr (st\<lparr>l_head := h, l_tail := tl\<rparr>)))))"

section \<open>The list with the ordered find and the array retire list\<close>

text \<open>
  \<open>find_do\<close> is one round of the \<^verbatim>\<open>do ... while\<close> of \<^verbatim>\<open>__list_find_ordered\<close>;
  it returns when the loop is left.  \<open>list_find_ordered\<close> is the code from the label
  \<^verbatim>\<open>try_again\<close>, \<open>find_ordered_loop\<close> one round of the \<^verbatim>\<open>while (true)\<close>.
\<close>

fun find_do ::
  "nat \<Rightarrow> nat \<Rightarrow> ptr \<Rightarrow> loc \<Rightarrow> ptr \<Rightarrow> ptr \<Rightarrow> 'a lstate_scheme
     \<Rightarrow> fault + (outs \<times> 'a lstate_scheme)" where
  "find_do 0 t k prev cur nx st = Inl OutOfFuel"
| "find_do (Suc n) t k prev cur nx st =
     bindE (if \<not> is_marked nx
            then bindE (list_hp_protect_release t HP_PREV (get_unmarked cur) st)
                   (\<lambda>st. Inr (LNext (get_unmarked cur), st))
            else Inr (prev, st)) (\<lambda>(prev, st).
     bindE (list_hp_protect_release t HP_CURR (get_unmarked nx) st) (\<lambda>st.
     (let cur = get_unmarked nx in
      if get_unmarked cur = l_tail st then Inr ((prev, cur, nx), st)
      else
        bindE (load (LNext (get_unmarked cur)) st) (\<lambda>nx.
        bindE (list_hp_protect_ptr t HP_NEXT (get_unmarked nx) st) (\<lambda>st.
        if is_marked nx then find_do n t k prev cur nx st
        else
          bindE (node_key (get_unmarked cur) st) (\<lambda>ck.
          if ck < k then find_do n t k prev cur nx st
          else Inr ((prev, cur, nx), st)))))))"

definition find_ordered_result ::
  "ptr \<Rightarrow> outs \<Rightarrow> 'a lstate_scheme \<Rightarrow> fault + (bool option \<times> outs \<times> 'a lstate_scheme)" where
  "find_ordered_result k ou st =
     (case ou of (prev, cur, nx) \<Rightarrow>
        bindE (if get_unmarked cur \<noteq> l_tail st
               then bindE (load (LNext (get_unmarked cur)) st) (\<lambda>cn. Inr (is_marked cn))
               else Inr False) (\<lambda>again.
        if again then Inr (None, ou, st)
        else bindE (node_key (get_unmarked cur) st) (\<lambda>ck. Inr (Some (ck = k), ou, st))))"

fun list_find_ordered ::
      "nat \<Rightarrow> nat \<Rightarrow> ptr \<Rightarrow> loc \<Rightarrow> 'a lstate_scheme
         \<Rightarrow> fault + (bool \<times> outs \<times> 'a lstate_scheme)"
  and find_ordered_loop ::
      "nat \<Rightarrow> nat \<Rightarrow> ptr \<Rightarrow> loc \<Rightarrow> loc \<Rightarrow> ptr \<Rightarrow> 'a lstate_scheme
         \<Rightarrow> fault + (bool \<times> outs \<times> 'a lstate_scheme)" where
  "list_find_ordered 0 t k start st = Inl OutOfFuel"
| "list_find_ordered (Suc n) t k start st =
     bindE (load start st) (\<lambda>cur.
     bindE (list_hp_protect_ptr t HP_CURR cur st) (\<lambda>st.
     find_ordered_loop n t k start start cur st))"
| "find_ordered_loop 0 t k start prev cur st = Inl OutOfFuel"
| "find_ordered_loop (Suc n) t k start prev cur st =
     bindE (load (LNext (get_unmarked cur)) st) (\<lambda>nx.
     bindE (list_hp_protect_ptr t HP_NEXT (get_unmarked nx) st) (\<lambda>st.
     bindE (find_do n t k prev cur nx st) (\<lambda>((prev, cur, nx), st).
     bindE (load prev st) (\<lambda>v.
     if v = get_unmarked cur then
       bindE (find_ordered_result k (prev, cur, nx) st) (\<lambda>(r, ou, st).
       case r of None \<Rightarrow> list_find_ordered n t k start st
               | Some b \<Rightarrow> Inr (b, ou, st))
     else
       bindE (cas prev (get_unmarked cur) (get_unmarked cur) st) (\<lambda>(ok, st).
       if ok then
         bindE (find_ordered_result k (prev, cur, nx) st) (\<lambda>(r, ou, st).
         case r of None \<Rightarrow> list_find_ordered n t k start st
                 | Some b \<Rightarrow> Inr (b, ou, st))
       else
         bindE (load prev st) (\<lambda>cur.
         bindE (list_hp_protect_release t HP_CURR (get_unmarked cur) st) (\<lambda>st.
         bindE (load prev st) (\<lambda>v.
         if v \<noteq> get_unmarked cur then list_find_ordered n t k start st
         else find_ordered_loop n t k start prev cur st))))))))"

text \<open>
  \<open>insert_conti_try\<close> is \<^verbatim>\<open>list_insert_conti\<close> from its label \<^verbatim>\<open>try_again\<close>,
  \<open>insert_conti_loop\<close> one round of its \<^verbatim>\<open>while (true)\<close>.
\<close>

fun insert_conti_try ::
      "nat \<Rightarrow> nat \<Rightarrow> ptr \<Rightarrow> ptr \<Rightarrow> 'a lstate_scheme \<Rightarrow> fault + (bool \<times> 'a lstate_scheme)"
  and insert_conti_loop ::
      "nat \<Rightarrow> nat \<Rightarrow> ptr \<Rightarrow> ptr \<Rightarrow> outs \<Rightarrow> 'a lstate_scheme
         \<Rightarrow> fault + (bool \<times> 'a lstate_scheme)" where
  "insert_conti_try 0 t k node st = Inl OutOfFuel"
| "insert_conti_try (Suc n) t k node st =
     bindE (list_find_ordered n t k LHead st) (\<lambda>(found, ou, st).
     if found then insert_fail t node st
     else insert_conti_loop n t k node ou st)"
| "insert_conti_loop 0 t k node ou st = Inl OutOfFuel"
| "insert_conti_loop (Suc n) t k node ou st =
     (case ou of (prev, cur, nx) \<Rightarrow>
        bindE (insert_store node cur st) (\<lambda>st.
        bindE (cas prev (get_unmarked cur) node st) (\<lambda>(ok, st).
        if ok then bindE (list_hp_clear t st) (\<lambda>st. Inr (True, st))
        else
          bindE (load prev st) (\<lambda>v.
          if is_marked v then insert_conti_try n t k node st
          else
            bindE (load prev st) (\<lambda>v.
            bindE (list_hp_protect_release t HP_START (get_unmarked v) st) (\<lambda>st.
            bindE (list_find_ordered n t k prev st) (\<lambda>(found, ou, st).
            if found then insert_fail t node st
            else insert_conti_loop n t k node ou st)))))))"

definition list_insert_conti ::
  "nat \<Rightarrow> nat \<Rightarrow> ptr \<Rightarrow> 'a lstate_scheme \<Rightarrow> fault + (bool \<times> 'a lstate_scheme)" where
  "list_insert_conti fuel t k st =
     bindE (list_node_new k st) (\<lambda>(node, st). insert_conti_try fuel t k node st)"

definition list_node_delete_arr :: deleter_arr where
  "list_node_delete_arr arg ns = list_node_destroy arg ns"

text \<open>
  \<open>delete_once_try\<close> is \<^verbatim>\<open>list_delete_once\<close> from its label \<^verbatim>\<open>try_again\<close>,
  \<open>delete_once_loop\<close> one round of its \<^verbatim>\<open>do ... while (true)\<close>, entered with the
  three words the find has returned.
\<close>

fun delete_once_try ::
      "nat \<Rightarrow> deleter_arr \<Rightarrow> nat \<Rightarrow> ptr \<Rightarrow> astate \<Rightarrow> fault + (bool \<times> astate)"
  and delete_once_loop ::
      "nat \<Rightarrow> deleter_arr \<Rightarrow> nat \<Rightarrow> ptr \<Rightarrow> outs \<Rightarrow> astate \<Rightarrow> fault + (bool \<times> astate)" where
  "delete_once_try 0 dfn t k st = Inl OutOfFuel"
| "delete_once_try (Suc n) dfn t k st =
     bindE (list_find_ordered n t k LHead st) (\<lambda>(found, ou, st).
     if \<not> found then bindE (list_hp_clear t st) (\<lambda>st. Inr (False, st))
     else delete_once_loop n dfn t k ou st)"
| "delete_once_loop 0 dfn t k ou st = Inl OutOfFuel"
| "delete_once_loop (Suc n) dfn t k ou st =
     (case ou of (prev, cur, nx) \<Rightarrow>
        bindE (fetch_or (LNext cur) 1 st) (\<lambda>(tmp, st).
        if is_marked tmp then Inr (True, st)
        else
          bindE (cas prev (get_unmarked cur) (get_unmarked nx) st) (\<lambda>(ok, st).
          if ok then
            bindE (list_hp_clear t st) (\<lambda>st.
            bindE (list_hp_retire_arr dfn t (get_unmarked cur) st) (\<lambda>st. Inr (True, st)))
          else
            bindE (load prev st) (\<lambda>v.
            if is_marked v then
              bindE (list_hp_clear t st) (\<lambda>st. delete_once_try n dfn t k st)
            else
              bindE (load prev st) (\<lambda>v.
              bindE (list_hp_protect_release t HP_START (get_unmarked v) st) (\<lambda>st.
              bindE (list_find_ordered n t k prev st) (\<lambda>(found, ou, st).
              if \<not> found then bindE (list_hp_clear t st) (\<lambda>st. Inr (False, st))
              else delete_once_loop n dfn t k ou st)))))))"

definition list_delete_once ::
  "nat \<Rightarrow> deleter_arr \<Rightarrow> nat \<Rightarrow> ptr \<Rightarrow> astate \<Rightarrow> fault + (bool \<times> astate)" where
  "list_delete_once fuel dfn t k st = delete_once_try fuel dfn t k st"

definition list_new_arr :: "astate \<Rightarrow> fault + astate" where
  "list_new_arr st =
     bindE (list_node_new 0 st) (\<lambda>(h, st).
     bindE (list_node_new (- 1) st) (\<lambda>(tl, st).
     bindE (list_hp_new_arr 4 st) (\<lambda>st.
     bindE (loc_store (LNext h) tl st) (\<lambda>st.
     Inr (st\<lparr>l_head := h, l_tail := tl\<rparr>)))))"

section \<open>The insertions as the specification words them\<close>





section \<open>Predicates on states\<close>

text \<open>A retire index is empty when its root points at its own \<^verbatim>\<open>nil\<close> and counts 0.\<close>

definition root_empty :: "bstate \<Rightarrow> ptr \<Rightarrow> bool" where
  "root_empty st r = (\<exists>x. roots st r = Some x \<and> head x = nil_of r \<and> cnt x = 0)"

text \<open>
  \<open>rb_tree_at h nil p t\<close>: in the heap \<open>h\<close> the pointer \<open>p\<close> is the root of a binary
  tree whose nodes are the addresses in \<open>t\<close> and whose leaves are \<open>nil\<close>.  A deleter
  meets \<open>deleter_frame\<close> when it leaves every \<^verbatim>\<open>struct rbtree\<close> other than the one
  it is given as it is.
\<close>

fun rb_tree_at :: "(ptr \<rightharpoonup> rbtree) \<Rightarrow> ptr \<Rightarrow> ptr \<Rightarrow> ptr tree \<Rightarrow> bool" where
  "rb_tree_at h nil p Leaf = (p = nil)"
| "rb_tree_at h nil p (Node l a r) =
     (p = a \<and> a \<noteq> nil \<and>
      (case h a of
         None \<Rightarrow> False
       | Some n \<Rightarrow> rb_tree_at h nil (leftC n) l \<and> rb_tree_at h nil (rightC n) r))"

definition deleter_frame :: "deleter_rb \<Rightarrow> bool" where
  "deleter_frame f = (\<forall>n s s'. f n s = Inr s' \<longrightarrow> (\<forall>a. a \<noteq> n \<longrightarrow> rbs s' a = rbs s a))"


text \<open>
  The abstraction of a list.  \<open>chain h p as q\<close>: following \<^verbatim>\<open>next\<close> from \<open>p\<close> in
  the heap \<open>h\<close> passes the nodes \<open>as\<close> and arrives at \<open>q\<close>.  \<open>list_wf st as\<close>:
  the nodes \<open>as\<close> lead from \<^verbatim>\<open>list->head\<close> to the tail node, they are distinct,
  allocated, not null, unmarked and carry the magic word; no \<^verbatim>\<open>next\<close> word on the
  way is marked.  \<open>key_of\<close> reads a key, \<open>after prev pre\<close> is the pointer to the
  \<^verbatim>\<open>next\<close> member of the last node of \<open>pre\<close> (or \<open>prev\<close> itself),
  \<open>relink_nodes\<close> and \<open>relink_head\<close> are the heap and the head word after a store
  through that pointer, and \<open>cleared n g\<close> is a row of hazard slots after its first
  \<open>n\<close> slots are set to 0.  \<open>alloc_ok b\<close>: the next \<open>b\<close> addresses the allocator
  hands out (those at the indices in \<open>window st b\<close>) are not null, 16-aligned, not
  allocated as a node, and different from each other.  \<open>hp_ok\<close>: the
  thread id passes the assertion of \<^verbatim>\<open>tid()\<close> and \<open>max_hps\<close> slots fit in a row.
\<close>

fun chain :: "(ptr \<rightharpoonup> list_node) \<Rightarrow> ptr \<Rightarrow> ptr list \<Rightarrow> ptr \<Rightarrow> bool" where
  "chain h p [] q = (p = q)"
| "chain h p (a # as) q = (p = a \<and> (case h a of None \<Rightarrow> False | Some n \<Rightarrow> chain h (nxt n) as q))"

definition key_of :: "(ptr \<rightharpoonup> list_node) \<Rightarrow> ptr \<Rightarrow> ptr" where
  "key_of h a = (case h a of None \<Rightarrow> 0 | Some n \<Rightarrow> key n)"

definition plain :: "ptr \<Rightarrow> bool" where
  "plain a = (a \<noteq> 0 \<and> \<not> is_marked a)"

definition after :: "loc \<Rightarrow> ptr list \<Rightarrow> loc" where
  "after prev pre = (if pre = [] then prev else LNext (last pre))"

definition list_wf :: "'a lstate_scheme \<Rightarrow> ptr list \<Rightarrow> bool" where
  "list_wf st as =
     (as \<noteq> [] \<and> chain (nodes st) (l_head st) as (l_tail st) \<and> distinct as
      \<and> l_tail st \<notin> set as \<and> plain (l_tail st) \<and> l_tail st \<in> dom (nodes st)
      \<and> (\<forall>a\<in>set as. plain a \<and> (case nodes st a of None \<Rightarrow> False
                                                   | Some n \<Rightarrow> magic n = LIST_MAGIC)))"

definition aligned :: "ptr \<Rightarrow> bool" where
  "aligned a = (a AND 15 = 0)"

definition window :: "'a lstate_scheme \<Rightarrow> nat \<Rightarrow> nat \<Rightarrow> bool" where
  "window st b k = (used st \<le> k \<and> k < used st + b)"

definition alloc_ok :: "nat \<Rightarrow> 'a lstate_scheme \<Rightarrow> bool" where
  "alloc_ok b st =
     (\<forall>k. window st b k \<longrightarrow>
        avail st k \<noteq> 0 \<and> aligned (avail st k) \<and> avail st k \<notin> dom (nodes st)
        \<and> (\<forall>k'. window st b k' \<longrightarrow> avail st k' = avail st k \<longrightarrow> k' = k))"

definition hp_ok :: "'a lstate_scheme \<Rightarrow> nat \<Rightarrow> bool" where
  "hp_ok st t = (t < HP_MAX_THREADS \<and> 0 \<le> max_hps st \<and> nat (max_hps st) \<le> 2 * CLPAD)"

definition relink_nodes :: "(ptr \<rightharpoonup> list_node) \<Rightarrow> ptr list \<Rightarrow> ptr \<Rightarrow> (ptr \<rightharpoonup> list_node)" where
  "relink_nodes h pre v =
     (if pre = [] then h
      else case h (last pre) of None \<Rightarrow> h | Some n \<Rightarrow> h(last pre \<mapsto> n\<lparr>nxt := v\<rparr>))"

definition relink_head :: "ptr \<Rightarrow> ptr list \<Rightarrow> ptr \<Rightarrow> ptr" where
  "relink_head p pre v = (if pre = [] then v else p)"

definition cleared :: "nat \<Rightarrow> (nat \<Rightarrow> ptr) \<Rightarrow> nat \<Rightarrow> ptr" where
  "cleared n g = (\<lambda>j. if j < n then 0 else g j)"

text \<open>
  \<open>retire_ready_rb b st t\<close>: thread \<open>t\<close>'s retire index is empty, its root is
  16-aligned and not among the next \<open>b\<close> addresses to be handed out, its \<^verbatim>\<open>nil\<close> is
  black, and no other thread publishes a hazard pointer.  This is the state of the
  domain between two operations of a run in which only thread \<open>t\<close> is active.
\<close>

definition retire_ready_rb :: "nat \<Rightarrow> bstate \<Rightarrow> nat \<Rightarrow> bool" where
  "retire_ready_rb b st t =
     (root_empty st (rl st t) \<and> aligned (rl st t)
      \<and> (case rbs st (nil_of (rl st t)) of None \<Rightarrow> False | Some n \<Rightarrow> parent_color n AND 1 = 1)
      \<and> (\<forall>k. window st b k \<longrightarrow> avail st k \<noteq> rl st t)
      \<and> (\<forall>i j. i \<noteq> t \<longrightarrow> hp st i j = 0))"

text \<open>
  \<open>retire_ready_arr st t\<close>: thread \<open>t\<close>'s retire list is empty and no other thread
  publishes a hazard pointer.
\<close>

definition retire_ready_arr :: "astate \<Rightarrow> nat \<Rightarrow> bool" where
  "retire_ready_arr st t = (rl_size st t = 0 \<and> (\<forall>i j. i \<noteq> t \<longrightarrow> hp st i j = 0))"

text \<open>
  \<open>ready_rb b st t as\<close> and \<open>ready_arr b st t as\<close>: the list of state \<open>st\<close> holds
  the nodes \<open>as\<close>, and thread \<open>t\<close> can run an operation on it that allocates at most
  \<open>b\<close> times.  In a list that the program with the conservative find has built, the
  node that \<^verbatim>\<open>list_new\<close> makes as \<^verbatim>\<open>head\<close> is the last of \<open>as\<close>, since an insertion goes
  before the node that the find reports and the find never reports the tail; in the
  program with the ordered find it is the first.
\<close>

definition ready_rb :: "nat \<Rightarrow> bstate \<Rightarrow> nat \<Rightarrow> ptr list \<Rightarrow> bool" where
  "ready_rb b st t as = (hp_ok st t \<and> list_wf st as \<and> alloc_ok b st \<and> retire_ready_rb b st t)"

definition ready_arr :: "nat \<Rightarrow> astate \<Rightarrow> nat \<Rightarrow> ptr list \<Rightarrow> bool" where
  "ready_arr b st t as = (hp_ok st t \<and> list_wf st as \<and> alloc_ok b st \<and> retire_ready_arr st t)"

section \<open>Concrete states\<close>

text \<open>
  The allocator of the concrete states hands out 128-aligned addresses from 0x1000 on.
  \<open>st0_arr\<close> and \<open>st0_rb\<close> are memories before \<^verbatim>\<open>list_hp_new\<close>, with arbitrary
  content where the domain will be.
\<close>

definition avail0 :: "nat \<Rightarrow> ptr" where
  "avail0 n = 0x1000 + 0x80 * word_of_nat n"

definition st0_arr :: astate where
  "st0_arr = \<lparr>nodes = Map.empty, l_head = 0, l_tail = 0, max_hps = 0, hp = (\<lambda>i j. 0xFF),
              avail = avail0, used = 0, rl_size = (\<lambda>i. 7), rl_list = (\<lambda>i k. 0xFF)\<rparr>"

definition st0_rb :: bstate where
  "st0_rb = \<lparr>nodes = Map.empty, l_head = 0, l_tail = 0, max_hps = 0, hp = (\<lambda>i j. 0xFF),
             avail = avail0, used = 0, rl = (\<lambda>i. 0xFF), roots = Map.empty, rbs = Map.empty,
             recs = Map.empty, junk = 0xAAAAAAAAAAAAAAAA\<rparr>"


text \<open>
  \<open>st_tree\<close> holds a retire index of three records.  \<open>st_c1\<close> holds two unlinked
  nodes and a domain in which thread 1 publishes the first of them; \<open>c1_run\<close> is thread
  0 retiring the first node, thread 1 clearing its slots, and thread 0 retiring the
  second node.  \<open>retired_of st t\<close> is the content of thread \<open>t\<close>'s array retire list.
\<close>

definition st_tree :: bstate where
  "st_tree = \<lparr>nodes = [0x1000 \<mapsto> \<lparr>magic = LIST_MAGIC, nxt = 0, key = 10\<rparr>,
                        0x2000 \<mapsto> \<lparr>magic = LIST_MAGIC, nxt = 0, key = 20\<rparr>,
                        0x3000 \<mapsto> \<lparr>magic = LIST_MAGIC, nxt = 0, key = 30\<rparr>],
              l_head = 0, l_tail = 0, max_hps = 3, hp = (\<lambda>i j. 0),
              avail = avail0, used = 0, rl = (\<lambda>i. 0x100),
              roots = [0x100 \<mapsto> \<lparr>head = 0x208, cnt = 3\<rparr>],
              rbs = [0x108 \<mapsto> \<lparr>parent_color = 1, leftC = 0, rightC = 0\<rparr>,
                     0x208 \<mapsto> \<lparr>parent_color = 0x109, leftC = 0x308, rightC = 0x408\<rparr>,
                     0x308 \<mapsto> \<lparr>parent_color = 0x208, leftC = 0x108, rightC = 0x108\<rparr>,
                     0x408 \<mapsto> \<lparr>parent_color = 0x208, leftC = 0x108, rightC = 0x108\<rparr>],
              recs = [0x200 \<mapsto> 0x2000, 0x300 \<mapsto> 0x1000, 0x400 \<mapsto> 0x3000],
              junk = 0\<rparr>"


definition retired_of :: "astate \<Rightarrow> nat \<Rightarrow> ptr list" where
  "retired_of st t = map (rl_list st t) [0..<nat (rl_size st t)]"

definition st_c1 :: astate where
  "st_c1 = \<lparr>nodes = [0x1000 \<mapsto> \<lparr>magic = LIST_MAGIC, nxt = 0, key = 10\<rparr>,
                      0x2000 \<mapsto> \<lparr>magic = LIST_MAGIC, nxt = 0, key = 20\<rparr>],
            l_head = 0, l_tail = 0, max_hps = 4,
            hp = (\<lambda>i j. if i = 1 \<and> j = HP_CURR then 0x1000 else 0),
            avail = avail0, used = 0, rl_size = (\<lambda>i. 0), rl_list = (\<lambda>i k. 0)\<rparr>"

definition c1_run :: "fault + astate" where
  "c1_run =
     bindE (list_hp_retire_arr list_node_delete_arr 0 0x1000 st_c1) (\<lambda>s.
     bindE (list_hp_clear 1 s) (\<lambda>s.
     list_hp_retire_arr list_node_delete_arr 0 0x2000 s))"

text \<open>
  Lists.  \<open>st_rb0\<close> and \<open>st_arr0\<close> hold the two nodes that \<^verbatim>\<open>list_new\<close> makes (keys 0
  and \<^verbatim>\<open>UINTPTR_MAX\<close>) and a domain in which no thread publishes anything;
  \<open>st_rb1\<close> and \<open>st_arr1\<close> hold one more node, of key 5, where an insertion puts it.
\<close>

definition st_rb0 :: bstate where
  "st_rb0 = \<lparr>nodes = [0x100 \<mapsto> \<lparr>magic = LIST_MAGIC, nxt = 0x200, key = 0\<rparr>,
                      0x200 \<mapsto> \<lparr>magic = LIST_MAGIC, nxt = 0, key = - 1\<rparr>],
             l_head = 0x100, l_tail = 0x200, max_hps = 3, hp = (\<lambda>i j. 0),
             avail = avail0, used = 0, rl = (\<lambda>i. 0x300),
             roots = [0x300 \<mapsto> \<lparr>head = 0x308, cnt = 0\<rparr>],
             rbs = [0x308 \<mapsto> \<lparr>parent_color = 1, leftC = 0, rightC = 0\<rparr>],
             recs = Map.empty, junk = 0\<rparr>"

definition st_rb1 :: bstate where
  "st_rb1 = st_rb0\<lparr>nodes := (nodes st_rb0)(0x180 \<mapsto> \<lparr>magic = LIST_MAGIC, nxt = 0x100, key = 5\<rparr>),
                   l_head := 0x180\<rparr>"

definition st_arr0 :: astate where
  "st_arr0 = \<lparr>nodes = [0x100 \<mapsto> \<lparr>magic = LIST_MAGIC, nxt = 0x200, key = 0\<rparr>,
                       0x200 \<mapsto> \<lparr>magic = LIST_MAGIC, nxt = 0, key = - 1\<rparr>],
              l_head = 0x100, l_tail = 0x200, max_hps = 4, hp = (\<lambda>i j. 0),
              avail = avail0, used = 0, rl_size = (\<lambda>i. 0), rl_list = (\<lambda>i k. 0)\<rparr>"

definition st_arr1 :: astate where
  "st_arr1 = st_arr0\<lparr>nodes := (nodes st_arr0)
                 (0x100 \<mapsto> \<lparr>magic = LIST_MAGIC, nxt = 0x180, key = 0\<rparr>,
                  0x180 \<mapsto> \<lparr>magic = LIST_MAGIC, nxt = 0x200, key = 5\<rparr>)\<rparr>"

text \<open>
  \<open>c5_run\<close>: thread 0 runs \<^verbatim>\<open>list_delete_once\<close> for the key 5 on \<open>st_arr1\<close>; when its
  find has returned, the \<^verbatim>\<open>atomic_fetch_or\<close> of another thread's \<^verbatim>\<open>list_delete_once\<close>
  for the same key marks the node at 0x180; then thread 0 goes on with its loop.
\<close>

definition c5_run :: "fault + (bool \<times> astate)" where
  "c5_run =
     bindE (list_find_ordered 7 0 5 LHead st_arr1) (\<lambda>(found, ou, s).
     bindE (fetch_or (LNext 0x180) 1 s) (\<lambda>(w, s).
     delete_once_loop 6 list_node_delete_arr 0 5 ou s))"


text \<open>
  \<open>list_delete_found\<close> is one round of the loop of \<^verbatim>\<open>list_delete\<close> from the return of
  its find on; \<open>list_delete_loop\<close> is the find followed by it.

  \<open>st_rb2\<close> is a list of the program with \<^verbatim>\<open>list_insert\<close> and \<^verbatim>\<open>list_delete\<close> that
  holds the keys 5 and 8.  \<open>c6_run\<close>: thread 0 runs \<^verbatim>\<open>list_delete\<close> for the key 5 on
  it; when its find has returned, thread 1 runs a whole \<^verbatim>\<open>list_insert\<close> for the key 4;
  then thread 0 goes on with its round.  \<open>st_rb_marked\<close> is the list with the keys 4
  and 8 in which the node of the key 5, at 0x140, is marked and still linked, and in
  which no thread publishes anything.
\<close>

definition list_delete_found ::
  "nat \<Rightarrow> deleter_rb \<Rightarrow> nat \<Rightarrow> ptr \<Rightarrow> bool \<Rightarrow> outs \<Rightarrow> bstate \<Rightarrow> fault + (bool \<times> bstate)" where
  "list_delete_found n dfn t k found ou st =
     (case ou of (prev, cur, nx) \<Rightarrow>
        if \<not> found then bindE (list_hp_clear t st) (\<lambda>st. Inr (False, st))
        else
          bindE (cas (LNext cur) (get_unmarked nx) (get_marked nx) st) (\<lambda>(ok, st).
          if \<not> ok then list_delete_loop n dfn t k (prev, cur, nx) st
          else
            bindE (cas prev (get_unmarked cur) (get_unmarked nx) st) (\<lambda>(ok, st).
            if ok then
              bindE (list_hp_clear t st) (\<lambda>st.
              bindE (list_hp_retire_rb n dfn t (get_unmarked cur) st) (\<lambda>st. Inr (True, st)))
            else bindE (list_hp_clear t st) (\<lambda>st. Inr (True, st)))))"

definition st_rb2 :: bstate where
  "st_rb2 = st_rb0\<lparr>nodes := (nodes st_rb0)
                 (0x140 \<mapsto> \<lparr>magic = LIST_MAGIC, nxt = 0x1C0, key = 5\<rparr>,
                  0x1C0 \<mapsto> \<lparr>magic = LIST_MAGIC, nxt = 0x100, key = 8\<rparr>),
                   l_head := 0x140\<rparr>"

definition c6_run :: "fault + (bool \<times> bstate)" where
  "c6_run =
     bindE (list_find 4 list_node_delete_rb 0 5 (LNull, 0, 0) st_rb2) (\<lambda>(found, ou, s).
     bindE (list_insert 4 list_node_delete_rb 1 4 s) (\<lambda>(b, s).
     list_delete_found 4 list_node_delete_rb 0 5 found ou s))"

definition st_rb_marked :: bstate where
  "st_rb_marked = st_rb2\<lparr>nodes := (nodes st_rb2)
                 (0x1000 \<mapsto> \<lparr>magic = LIST_MAGIC, nxt = 0x140, key = 4\<rparr>,
                  0x140 \<mapsto> \<lparr>magic = LIST_MAGIC, nxt = 0x1C1, key = 5\<rparr>),
                   l_head := 0x1000, used := 1\<rparr>"

section \<open>Sequencing and the hazard slots\<close>

lemma bindE_Inr [simp]: "bindE (Inr x) f = f x"
  by (simp add: bindE_def)

lemma bindE_Inl [simp]: "bindE (Inl e) f = Inl e"
  by (simp add: bindE_def)

lemma bindE_eq_Inr: "bindE m f = Inr y \<longleftrightarrow> (\<exists>x. m = Inr x \<and> f x = Inr y)"
  by (cases m) auto

lemma foldE_append: "foldE f (xs @ ys) s = bindE (foldE f xs s) (foldE f ys)"
  by (induction xs arbitrary: s) (auto simp: bindE_def split: sum.splits)

lemma word_not_less_zero: "\<not> (w :: 64 word) < word_of_int HP_THRESHOLD_R"
  by (simp add: HP_THRESHOLD_R_def)

lemma retire_arr_scans:
  "list_hp_retire_arr dfn t p st =
     bindE (rl_append_arr t p st)
       (\<lambda>st1. if \<not> rl_size st1 t < HP_MAX_RETIRED then Inl AssertFailed
              else scan_arr dfn t 0 st1)"
  by (auto simp: list_hp_retire_arr_def rl_append_arr_def Let_def HP_THRESHOLD_R_def)

lemma retire_rb_scans:
  "list_hp_retire_rb fuel dfn t p st =
     bindE (rl_insert_rb fuel t p st) (\<lambda>st1.
     bindE (root_read (rl st t) st1) (\<lambda>r.
     if \<not> cnt r < word_of_int HP_MAX_RETIRED then Inl AssertFailed
     else scan_rb fuel dfn t (rl st t) st1))"
  by (simp add: list_hp_retire_rb_def word_not_less_zero cong: if_cong)

lemma foldE_hp_store:
  "foldE (\<lambda>j s. hp_store i j v s) [0..<n] st =
     (if n = 0 then Inr st
      else if i < HP_MAX_THREADS \<and> n \<le> 2 * CLPAD
      then Inr (st\<lparr>hp := (hp st)(i := (\<lambda>j. if j < n then v else hp st i j))\<rparr>)
      else Inl BadAccess)"
proof (induction n)
  case 0
  then show ?case by simp
next
  case (Suc n)
  have eq: "(\<lambda>j. if j < n then v else hp st i j)(n := v) = (\<lambda>j. if j < Suc n then v else hp st i j)"
    by (auto simp: fun_eq_iff)
  show ?case
  proof (cases "n = 0")
    case True
    then show ?thesis by (auto simp: hp_store_def fun_eq_iff intro!: arg_cong[where f="\<lambda>h. st\<lparr>hp := h\<rparr>"])
  next
    case False
    then show ?thesis using Suc eq
      by (auto simp: foldE_append hp_store_def)
  qed
qed

lemma list_hp_clear_eq:
  "list_hp_clear t st =
     (if nat (max_hps st) = 0 then Inr st
      else if t < HP_MAX_THREADS \<and> nat (max_hps st) \<le> 2 * CLPAD
      then Inr (st\<lparr>hp := (hp st)(t := (\<lambda>j. if j < nat (max_hps st) then 0 else hp st t j))\<rparr>)
      else Inl BadAccess)"
  unfolding list_hp_clear_def by (rule foldE_hp_store)

lemma hp_new_thread_arr_Inr:
  assumes "hp_new_thread_arr i st = Inr st'"
  shows "(\<forall>j. hp st' i j = 0) \<and> rl_size st' i = 0 \<and> max_hps st' = max_hps st
         \<and> (\<forall>i'. i' \<noteq> i \<longrightarrow> hp st' i' = hp st i' \<and> rl_size st' i' = rl_size st i')"
  using assms
  by (auto simp: hp_new_thread_arr_def foldE_hp_store bindE_eq_Inr split: if_splits)

lemma hp_new_arr_loop:
  "foldE hp_new_thread_arr [0..<n] st = Inr st' \<Longrightarrow>
     max_hps st' = max_hps st \<and> (\<forall>i<n. (\<forall>j. hp st' i j = 0) \<and> rl_size st' i = 0)"
proof (induction n arbitrary: st')
  case 0
  then show ?case by simp
next
  case (Suc n)
  from Suc.prems obtain s1 where s1: "foldE hp_new_thread_arr [0..<n] st = Inr s1"
    and s2: "hp_new_thread_arr n s1 = Inr st'"
    by (auto simp: foldE_append bindE_eq_Inr)
  from Suc.IH[OF s1] hp_new_thread_arr_Inr[OF s2] show ?case
    by (auto simp: less_Suc_eq)
qed

lemma list_hp_new_arr_zero:
  assumes "list_hp_new_arr K st = Inr st'"
  shows "(\<forall>i<HP_MAX_THREADS. \<forall>j. int j < max_hps st' \<longrightarrow> hp st' i j = 0)
         \<and> (\<forall>i<HP_MAX_THREADS. rl_size st' i = 0)"
  using assms hp_new_arr_loop[of HP_MAX_THREADS _ st']
  by (auto simp: list_hp_new_arr_def Let_def)


lemma RB_ROOT_INIT_Inr:
  assumes "RB_ROOT_INIT r st = Inr st'"
  shows "roots st' = (roots st)(r \<mapsto> \<lparr>head = nil_of r, cnt = 0\<rparr>)
         \<and> hp st' = hp st \<and> rl st' = rl st \<and> max_hps st' = max_hps st"
  using assms
  by (auto simp: RB_ROOT_INIT_def root_set_head_def root_modify_def rb_modify_def
        rb_set_left_def rb_set_right_def bindE_eq_Inr split: option.splits)

lemma hp_new_thread_rb_Inr:
  assumes "hp_new_thread_rb i st = Inr st'"
  shows "(\<forall>j. hp st' i j = 0) \<and> root_empty st' (rl st' i) \<and> max_hps st' = max_hps st
         \<and> (\<forall>i'. i' \<noteq> i \<longrightarrow> hp st' i' = hp st i' \<and> rl st' i' = rl st i')
         \<and> (\<forall>q. root_empty st q \<longrightarrow> root_empty st' q)"
proof -
  obtain r st1 where a: "calloc_root (st\<lparr>hp := (hp st)(i := (\<lambda>j. 0))\<rparr>) = (r, st1)"
    by (cases "calloc_root (st\<lparr>hp := (hp st)(i := (\<lambda>j. 0))\<rparr>)") auto
  have st1: "hp st1 = (hp st)(i := (\<lambda>j. 0))" "rl st1 = rl st" "max_hps st1 = max_hps st"
    "\<And>q. q \<noteq> r \<Longrightarrow> roots st1 q = roots st q"
    using a by (auto simp: calloc_root_def alloc_root_def Let_def split: if_splits)
  define st2 where "st2 = st1\<lparr>rl := (rl st1)(i := r)\<rparr>"
  from assms a obtain s where s: "foldE (\<lambda>j s. hp_store i j 0 s) [0..<nat (max_hps st2)] st2 = Inr s"
    and fin: "RB_ROOT_INIT (rl s i) s = Inr st'"
    by (auto simp: hp_new_thread_rb_def bindE_eq_Inr st2_def)
  have s_eq: "hp s i = (\<lambda>j. 0)" "\<And>i'. i' \<noteq> i \<Longrightarrow> hp s i' = hp st i'" "rl s = (rl st)(i := r)"
    "max_hps s = max_hps st" "roots s = roots st1"
    using s st1 by (auto simp: foldE_hp_store st2_def fun_eq_iff split: if_splits)
  from RB_ROOT_INIT_Inr[OF fin] s_eq st1(4) show ?thesis
    by (auto simp: root_empty_def)
qed

lemma hp_new_rb_loop:
  "foldE hp_new_thread_rb [0..<n] st = Inr st' \<Longrightarrow>
     max_hps st' = max_hps st \<and> (\<forall>i<n. (\<forall>j. hp st' i j = 0) \<and> root_empty st' (rl st' i))"
proof (induction n arbitrary: st')
  case 0
  then show ?case by simp
next
  case (Suc n)
  from Suc.prems obtain s1 where s1: "foldE hp_new_thread_rb [0..<n] st = Inr s1"
    and s2: "hp_new_thread_rb n s1 = Inr st'"
    by (auto simp: foldE_append bindE_eq_Inr)
  from Suc.IH[OF s1] hp_new_thread_rb_Inr[OF s2] show ?case
    by (auto simp: less_Suc_eq)
qed

lemma list_hp_new_rb_zero:
  assumes "list_hp_new_rb K st = Inr st'"
  shows "(\<forall>i<HP_MAX_THREADS. \<forall>j. int j < max_hps st' \<longrightarrow> hp st' i j = 0)
         \<and> (\<forall>i<HP_MAX_THREADS. root_empty st' (rl st' i))"
  using assms hp_new_rb_loop[of HP_MAX_THREADS _ st']
  by (auto simp: list_hp_new_rb_def Let_def)

section \<open>Walking a retire index; creating a domain\<close>

lemma rb_tree_at_cong:
  "(\<And>a. a \<in> set_tree t \<Longrightarrow> h' a = h a) \<Longrightarrow> rb_tree_at h nil p t \<Longrightarrow> rb_tree_at h' nil p t"
  by (induction t arbitrary: p) (auto split: option.splits)

lemma foldE_frame:
  "deleter_frame f \<Longrightarrow> foldE f xs s = Inr s' \<Longrightarrow> a \<notin> set xs \<Longrightarrow> rbs s' a = rbs s a"
proof (induction xs arbitrary: s)
  case Nil
  then show ?case by simp
next
  case (Cons x xs)
  from Cons.prems(2) obtain s1 where s1: "f x s = Inr s1" and r: "foldE f xs s1 = Inr s'"
    by (auto simp: bindE_eq_Inr)
  have "rbs s1 a = rbs s a"
    using Cons.prems(1,3) s1 by (auto simp: deleter_frame_def)
  moreover have "rbs s' a = rbs s1 a"
    using Cons.IH[OF Cons.prems(1) r] Cons.prems(3) by simp
  ultimately show ?case by simp
qed

lemma rbtree_clean_rec_preorder:
  assumes "deleter_frame f"
  shows "rb_tree_at (rbs st) nil p t \<Longrightarrow> distinct (preorder t) \<Longrightarrow> height t < fuel \<Longrightarrow>
         rbtree_clean_rec fuel nil f p st = foldE f (preorder t) st"
proof (induction t arbitrary: p st fuel)
  case Leaf
  then show ?case by (cases fuel) auto
next
  case (Node l a r)
  from Node.prems(3) obtain n where fuel: "fuel = Suc n" and hl: "height l < n" and hr: "height r < n"
    by (cases fuel) auto
  from Node.prems(1) obtain x where pa: "p = a" "a \<noteq> nil" and x: "rbs st a = Some x"
    and tl: "rb_tree_at (rbs st) nil (leftC x) l" and tr: "rb_tree_at (rbs st) nil (rightC x) r"
    by (auto split: option.splits)
  from Node.prems(2) have d: "a \<notin> set_tree l" "a \<notin> set_tree r" "distinct (preorder l)"
    "distinct (preorder r)" "set_tree l \<inter> set_tree r = {}"
    by auto
  show ?case
  proof (cases "f a st")
    case (Inl e)
    then show ?thesis using pa x fuel by (simp add: rb_left_def rb_right_def rb_read_def)
  next
    case (Inr s1)
    have h0: "\<And>b. b \<noteq> a \<Longrightarrow> rbs s1 b = rbs st b"
      using assms Inr by (auto simp: deleter_frame_def)
    have h1: "\<And>b. b \<in> set_tree l \<union> set_tree r \<Longrightarrow> rbs s1 b = rbs st b"
    proof -
      fix b assume "b \<in> set_tree l \<union> set_tree r"
      then have "b \<noteq> a" using d(1,2) by auto
      then show "rbs s1 b = rbs st b" by (rule h0)
    qed
    have tl1: "rb_tree_at (rbs s1) nil (leftC x) l"
      by (rule rb_tree_at_cong[OF _ tl]) (simp add: h1)
    have tr1: "rb_tree_at (rbs s1) nil (rightC x) r"
      by (rule rb_tree_at_cong[OF _ tr]) (simp add: h1)
    have L: "rbtree_clean_rec n nil f (leftC x) s1 = foldE f (preorder l) s1"
      by (rule Node.IH(1)[OF tl1 d(3) hl])
    show ?thesis
    proof (cases "foldE f (preorder l) s1")
      case (Inl e)
      then show ?thesis using pa x fuel Inr L
        by (simp add: rb_left_def rb_right_def rb_read_def foldE_append)
    next
      case s2: (Inr s2)
      have h2: "\<And>b. b \<in> set_tree r \<Longrightarrow> rbs s2 b = rbs s1 b"
      proof -
        fix b assume "b \<in> set_tree r"
        then have "b \<notin> set (preorder l)" using d(5) by auto
        then show "rbs s2 b = rbs s1 b" by (rule foldE_frame[OF assms s2])
      qed
      have tr2: "rb_tree_at (rbs s2) nil (rightC x) r"
        by (rule rb_tree_at_cong[OF _ tr1]) (simp add: h2)
      have R: "rbtree_clean_rec n nil f (rightC x) s2 = foldE f (preorder r) s2"
        by (rule Node.IH(2)[OF tr2 d(4) hr])
      show ?thesis using pa x fuel Inr L s2 R
        by (simp add: rb_left_def rb_right_def rb_read_def foldE_append)
    qed
  qed
qed


lemma free_rec_frame: "free_rec a s = Inr s' \<Longrightarrow> b \<noteq> rbnode_of a \<Longrightarrow> rbs s' b = rbs s b"
  by (auto simp: free_rec_def split: if_splits option.splits)

lemma rbnode_of_container_of [simp]: "rbnode_of (container_of p) = p"
  by (simp add: rbnode_of_def container_of_def)

lemma container_of_rbnode_of [simp]: "container_of (rbnode_of p) = p"
  by (simp add: rbnode_of_def container_of_def)

lemma list_node_delete_rb_frame: "deleter_frame list_node_delete_rb"
  unfolding deleter_frame_def
proof (intro allI impI)
  fix n s s' a
  assume r: "list_node_delete_rb n s = Inr s'" and ne: "a \<noteq> n"
  from r obtain ns where "free_rec (container_of n) (s\<lparr>nodes := ns\<rparr>) = Inr s'"
    by (auto simp: list_node_delete_rb_def bindE_eq_Inr)
  from free_rec_frame[OF this, of a] ne show "rbs s' a = rbs s a" by simp
qed

lemma avail0_unat: "n < 1000 \<Longrightarrow> unat (avail0 n) = 4096 + 128 * n"
  by (simp add: avail0_def unat_word_ariths unat_of_nat)

lemma avail0_nz: "n < 1000 \<Longrightarrow> avail0 n \<noteq> 0"
  using avail0_unat[of n] by (metis add_is_0 unat_0 zero_neq_numeral)

lemma hp_new_thread_arr_total:
  "i < HP_MAX_THREADS \<Longrightarrow> nat (max_hps st) \<le> 2 * CLPAD \<Longrightarrow>
   \<exists>st'. hp_new_thread_arr i st = Inr st' \<and> max_hps st' = max_hps st"
  by (simp add: hp_new_thread_arr_def foldE_hp_store)

lemma hp_new_arr_loop_total:
  "n \<le> HP_MAX_THREADS \<Longrightarrow> nat (max_hps st) \<le> 2 * CLPAD \<Longrightarrow>
   \<exists>st'. foldE hp_new_thread_arr [0..<n] st = Inr st' \<and> max_hps st' = max_hps st"
proof (induction n)
  case 0
  then show ?case by simp
next
  case (Suc n)
  then obtain s1 where s1: "foldE hp_new_thread_arr [0..<n] st = Inr s1" "max_hps s1 = max_hps st"
    by auto
  from hp_new_thread_arr_total[of n s1] Suc.prems s1
  obtain s2 where "hp_new_thread_arr n s1 = Inr s2" "max_hps s2 = max_hps s1" by auto
  with s1 show ?case by (auto simp: foldE_append)
qed

lemma hp_new_thread_rb_total:
  assumes "i < HP_MAX_THREADS" "nat (max_hps st) \<le> 2 * CLPAD" "avail st (used st) \<noteq> 0"
  shows "\<exists>st'. hp_new_thread_rb i st = Inr st' \<and> max_hps st' = max_hps st
             \<and> avail st' = avail st \<and> used st' = Suc (used st)"
  using assms
  by (simp add: hp_new_thread_rb_def calloc_root_def alloc_root_def Let_def foldE_hp_store
        RB_ROOT_INIT_def root_set_head_def root_modify_def rb_modify_def rb_set_left_def
        rb_set_right_def)

lemma hp_new_rb_loop_total:
  "n \<le> HP_MAX_THREADS \<Longrightarrow> nat (max_hps st) \<le> 2 * CLPAD \<Longrightarrow>
   \<forall>k<n. avail st (used st + k) \<noteq> 0 \<Longrightarrow>
   \<exists>st'. foldE hp_new_thread_rb [0..<n] st = Inr st' \<and> max_hps st' = max_hps st
         \<and> avail st' = avail st \<and> used st' = used st + n"
proof (induction n)
  case 0
  then show ?case by simp
next
  case (Suc n)
  then obtain s1 where s1: "foldE hp_new_thread_rb [0..<n] st = Inr s1" "max_hps s1 = max_hps st"
      "avail s1 = avail st" "used s1 = used st + n"
    by auto
  have "avail s1 (used s1) \<noteq> 0" using Suc.prems(3) s1 by simp
  from hp_new_thread_rb_total[of n s1, OF _ _ this] Suc.prems s1
  obtain s2 where "hp_new_thread_rb n s1 = Inr s2" "max_hps s2 = max_hps s1"
     "avail s2 = avail s1" "used s2 = Suc (used s1)" by auto
  with s1 show ?case by (auto simp: foldE_append)
qed


section \<open>The scan of the array retire list\<close>

lemma count_list_distinct:
  "distinct xs \<Longrightarrow> count_list xs a = (if a \<in> set xs then 1 else 0)"
  by (induction xs) auto


lemma can_delete_hps_eq:
  "i < HP_MAX_THREADS \<Longrightarrow> \<forall>j\<in>set js. j < 2 * CLPAD \<Longrightarrow>
   can_delete_hps obj i js st = Inr (\<forall>j\<in>set js. hp st i j \<noteq> obj)"
  by (induction js) (auto simp: hp_load_def)

lemma can_delete_tids_eq:
  "\<forall>i\<in>set is. i < HP_MAX_THREADS \<Longrightarrow> nat (max_hps st) \<le> 2 * CLPAD \<Longrightarrow>
   can_delete_tids obj is st = Inr (\<forall>i\<in>set is. \<forall>j<nat (max_hps st). hp st i j \<noteq> obj)"
proof (induction "is")
  case Nil
  then show ?case by simp
next
  case (Cons i "is")
  have "can_delete_hps obj i (rev [0..<nat (max_hps st)]) st
          = Inr (\<forall>j\<in>set (rev [0..<nat (max_hps st)]). hp st i j \<noteq> obj)"
    by (rule can_delete_hps_eq) (use Cons.prems in auto)
  then show ?case using Cons by auto
qed

lemma can_delete_all:
  "nat (max_hps st) \<le> 2 * CLPAD \<Longrightarrow>
   can_delete_tids obj [0..<HP_MAX_THREADS] st
     = Inr (\<forall>i<HP_MAX_THREADS. \<forall>j<nat (max_hps st). hp st i j \<noteq> obj)"
  using can_delete_tids_eq[of "[0..<HP_MAX_THREADS]" st obj] by auto

lemma c1_step1:
  "list_hp_retire_arr list_node_delete_arr 0 0x1000 st_c1
     = Inr (st_c1\<lparr>rl_list := (rl_list st_c1)(0 := (rl_list st_c1 0)(0 := 0x1000)),
                  rl_size := (rl_size st_c1)(0 := 1)\<rparr>)"
proof -
  let ?s = "st_c1\<lparr>rl_list := (rl_list st_c1)(0 := (rl_list st_c1 0)(0 := 0x1000)),
                  rl_size := (rl_size st_c1)(0 := 1)\<rparr>"
  have a: "rl_append_arr 0 0x1000 st_c1 = Inr ?s"
    by (simp add: rl_append_arr_def st_c1_def HP_MAX_RETIRED_def HP_MAX_THREADS_def HP_MAX_HPS_def)
  have "\<not> (\<forall>i<HP_MAX_THREADS. \<forall>j<nat (max_hps ?s). hp ?s i j \<noteq> 0x1000)"
    by (auto simp: st_c1_def HP_MAX_THREADS_def HP_CURR_def intro!: exI[where x=1])
  then have c: "can_delete_tids 0x1000 [0..<HP_MAX_THREADS] ?s = Inr False"
    by (subst can_delete_all) (simp_all add: st_c1_def CLPAD_def)
  have s1: "scan_arr list_node_delete_arr 0 1 ?s = Inr ?s"
    by (subst scan_arr.simps) (simp add: st_c1_def)
  have s0: "scan_arr list_node_delete_arr 0 0 ?s = Inr ?s"
    apply (subst scan_arr.simps)
    using c s1 by (simp add: st_c1_def HP_MAX_RETIRED_def HP_MAX_THREADS_def HP_MAX_HPS_def)
  show ?thesis
    unfolding retire_arr_scans a using s0
    by (simp add: st_c1_def HP_MAX_RETIRED_def HP_MAX_THREADS_def HP_MAX_HPS_def)
qed



section \<open>The conservative find, insert\<close>

lemma and_not_one_id:
  fixes a :: ptr
  assumes "a AND 1 = 0"
  shows "a AND NOT 1 = a"
proof -
  have "a = a AND (NOT 1 OR 1)" by simp
  also have "\<dots> = (a AND NOT 1) OR (a AND 1)" by (simp only: bit.conj_disj_distrib)
  also have "\<dots> = a AND NOT 1" using assms by simp
  finally show ?thesis by simp
qed

lemma get_unmarked_plain [simp]: "\<not> is_marked a \<Longrightarrow> get_unmarked a = a"
  unfolding is_marked_def get_unmarked_def by (metis and_not_one_id)

lemma is_marked_get_unmarked [simp]: "\<not> is_marked (get_unmarked a)"
  unfolding is_marked_def get_unmarked_def
  by (simp add: and.assoc)

lemma is_marked_get_marked [simp]: "is_marked (get_marked a)"
  unfolding is_marked_def get_marked_def
  by (simp add: bit.conj_disj_distrib2)

lemma get_unmarked_get_marked [simp]:
  assumes "\<not> is_marked a"
  shows "get_unmarked (get_marked a) = a"
proof -
  have "(a OR 1) AND NOT 1 = a AND NOT 1"
    by (simp add: bit.conj_disj_distrib2)
  then show ?thesis
    using get_unmarked_plain[OF assms] by (simp add: get_unmarked_def get_marked_def)
qed

lemma get_unmarked_eq_iff: "get_unmarked a = a \<longleftrightarrow> \<not> is_marked a"
  using is_marked_get_unmarked[of a] by (auto simp del: is_marked_get_unmarked)

lemma is_marked_zero [simp]: "\<not> is_marked 0"
  by (simp add: is_marked_def)

lemma hp_store_ok [simp]:
  "t < HP_MAX_THREADS \<Longrightarrow> j < 2 * CLPAD \<Longrightarrow>
   hp_store t j v st = Inr (st\<lparr>hp := (hp st)(t := (hp st t)(j := v))\<rparr>)"
  by (simp add: hp_store_def)

lemma slot_bounds [simp]: "HP_NEXT < 2 * CLPAD" "HP_CURR < 2 * CLPAD" "HP_PREV < 2 * CLPAD" "HP_START < 2 * CLPAD"
  by (simp_all add: HP_NEXT_def HP_CURR_def HP_PREV_def HP_START_def CLPAD_def)

lemma node_read_Some [simp]: "nodes st a = Some n \<Longrightarrow> node_read a st = Inr n"
  by (simp add: node_read_def)

lemma node_read_hp_upd [simp]: "node_read a (st\<lparr>hp := f\<rparr>) = node_read a st"
  by (simp add: node_read_def)

lemma node_key_Some [simp]: "nodes st a = Some n \<Longrightarrow> node_key a st = Inr (key n)"
  by (simp add: node_key_def node_read_def)

lemma load_hp_upd [simp]: "load l (st\<lparr>hp := f\<rparr>) = load l st"
  by (cases l) (simp_all add: node_read_def)

lemma find_loop_step:
  assumes "t < HP_MAX_THREADS" "nodes st x = Some n" "plain x" "plain (nxt n)"
    "nxt n \<noteq> l_tail st" "load prev st = Inr x" "key n < k"
  shows "list_find_loop (Suc m) dfn t k o0 prev x st
              = list_find_loop m dfn t k o0 (LNext x) (nxt n)
                  (st\<lparr>hp := (hp st)(t := ((hp st t)(HP_NEXT := nxt n, HP_PREV := x, HP_CURR := nxt n)))\<rparr>)"
  using assms
  by (simp add: plain_def list_hp_protect_ptr_def list_hp_protect_release_def)

lemma find_loop_walk:
  assumes t: "t < HP_MAX_THREADS"
  shows "chain (nodes st) a (pre @ [c]) q \<Longrightarrow> \<forall>x\<in>set pre. plain x \<and> key_of (nodes st) x < k \<Longrightarrow>
     plain c \<Longrightarrow> l_tail st \<notin> set (pre @ [c]) \<Longrightarrow> load prev st = Inr a \<Longrightarrow>
     \<exists>f. list_find_loop (length pre + m) dfn t k o0 prev a st =
          list_find_loop m dfn t k o0 (after prev pre) c (st\<lparr>hp := (hp st)(t := f)\<rparr>)"
proof (induction pre arbitrary: a prev st)
  case Nil
  have "st\<lparr>hp := (hp st)(t := hp st t)\<rparr> = st" by simp
  then have "list_find_loop (length [] + m) dfn t k o0 prev a st =
          list_find_loop m dfn t k o0 (after prev []) c (st\<lparr>hp := (hp st)(t := hp st t)\<rparr>)"
    using Nil.prems(1) by (simp add: after_def split: option.splits)
  then show ?case by (rule exI[where x="hp st t"])
next
  case (Cons x pre)
  from Cons.prems(1) obtain n where ax: "a = x" and n: "nodes st x = Some n"
    and ch: "chain (nodes st) (nxt n) (pre @ [c]) q"
    by (auto split: option.splits)
  have px: "plain x" "key n < k" using Cons.prems(2) n by (auto simp: key_of_def)
  have nx: "nxt n = hd (pre @ [c])" using ch by (cases pre) (auto split: option.splits)
  have pn: "plain (nxt n)" using nx Cons.prems(2,3) by (cases pre) auto
  have nt: "nxt n \<noteq> l_tail st" using nx Cons.prems(4) by (cases pre) auto
  define st1 where "st1 = st\<lparr>hp := (hp st)(t := ((hp st t)(HP_NEXT := nxt n, HP_PREV := x, HP_CURR := nxt n)))\<rparr>"
  have step: "list_find_loop (Suc (length pre + m)) dfn t k o0 prev x st
              = list_find_loop (length pre + m) dfn t k o0 (LNext x) (nxt n) st1"
    unfolding st1_def
    by (rule find_loop_step) (use t n px pn nt Cons.prems(5) ax in auto)
  have "\<exists>f. list_find_loop (length pre + m) dfn t k o0 (LNext x) (nxt n) st1 =
          list_find_loop m dfn t k o0 (after (LNext x) pre) c (st1\<lparr>hp := (hp st1)(t := f)\<rparr>)"
    apply (rule Cons.IH)
    using ch Cons.prems n by (auto simp: st1_def)
  then obtain f where f: "list_find_loop (length pre + m) dfn t k o0 (LNext x) (nxt n) st1 =
          list_find_loop m dfn t k o0 (after (LNext x) pre) c (st1\<lparr>hp := (hp st1)(t := f)\<rparr>)" ..
  have a: "after (LNext x) pre = after prev (x # pre)" by (simp add: after_def)
  have s: "st1\<lparr>hp := (hp st1)(t := f)\<rparr> = st\<lparr>hp := (hp st)(t := f)\<rparr>" by (simp add: st1_def)
  have "list_find_loop (length (x # pre) + m) dfn t k o0 prev a st =
          list_find_loop m dfn t k o0 (after prev (x # pre)) c (st\<lparr>hp := (hp st)(t := f)\<rparr>)"
    using step f ax unfolding a s by simp
  then show ?case by (rule exI[where x=f])
qed

lemma find_loop_at_last:
  assumes "t < HP_MAX_THREADS" "nodes st c = Some n" "plain c" "\<not> is_marked (l_tail st)"
    "nxt n = l_tail st"
  shows "list_find_loop (Suc m) dfn t k o0 prev c st
           = Inr (False, (prev, c, nxt n),
                  st\<lparr>hp := (hp st)(t := (hp st t)(HP_NEXT := nxt n))\<rparr>)"
  using assms
  by (simp add: plain_def list_hp_protect_ptr_def)

lemma find_loop_at_key:
  assumes "t < HP_MAX_THREADS" "nodes st c = Some n" "plain c" "\<not> is_marked (nxt n)"
    "nxt n \<noteq> l_tail st" "load prev st = Inr c" "\<not> key n < k"
  shows "list_find_loop (Suc m) dfn t k o0 prev c st
           = Inr (key n = k, (prev, c, nxt n),
                  st\<lparr>hp := (hp st)(t := (hp st t)(HP_NEXT := nxt n))\<rparr>)"
  using assms
  by (simp add: plain_def list_hp_protect_ptr_def)

lemma list_find_enter:
  assumes "t < HP_MAX_THREADS" "\<not> is_marked (l_head st)"
  shows "list_find (Suc m) dfn t k o0 st
           = list_find_loop m dfn t k o0 LHead (l_head st)
               (st\<lparr>hp := (hp st)(t := (hp st t)(HP_CURR := l_head st))\<rparr>)"
  using assms by (simp add: list_hp_protect_ptr_def)

lemma chain_append:
  "chain h p (xs @ ys) q = (\<exists>m. chain h p xs m \<and> chain h m ys q)"
  by (induction xs arbitrary: p) (auto split: option.splits)

lemma chain_cong:
  "(\<And>a. a \<in> set as \<Longrightarrow> h' a = h a) \<Longrightarrow> chain h p as q \<Longrightarrow> chain h' p as q"
  by (induction as arbitrary: p) (auto split: option.splits)

lemma chain_hd: "chain h p (a # as) q \<Longrightarrow> p = a"
  by simp

lemma chain_dom: "chain h p as q \<Longrightarrow> a \<in> set as \<Longrightarrow> a \<in> dom h"
  by (induction as arbitrary: p) (auto split: option.splits)

lemma chain_last_nxt:
  "chain h p (as @ [c]) q \<Longrightarrow> \<exists>n. h c = Some n \<and> nxt n = q"
  by (induction as arbitrary: p) (auto split: option.splits)

lemma chain_mid_nxt:
  "chain h p (as @ c # d # ds) q \<Longrightarrow> \<exists>n. h c = Some n \<and> nxt n = d"
  by (induction as arbitrary: p) (auto split: option.splits)

lemma load_after:
  "chain (nodes st) (l_head st) (pre @ c # post) q \<Longrightarrow> load (after LHead pre) st = Inr c"
proof (cases pre rule: rev_cases)
  case Nil
  assume "chain (nodes st) (l_head st) (pre @ c # post) q"
  then show ?thesis using Nil by (simp add: after_def)
next
  case (snoc ys y)
  assume "chain (nodes st) (l_head st) (pre @ c # post) q"
  then have "chain (nodes st) (l_head st) (ys @ y # c # post) q" using snoc by simp
  from chain_mid_nxt[OF this] show ?thesis using snoc by (auto simp: after_def)
qed

lemma find_rb_spec:
  assumes t: "t < HP_MAX_THREADS" and wf: "list_wf st as" and as: "as = pre @ c # post"
    and lt: "\<forall>x\<in>set pre. key_of (nodes st) x < k"
    and stop: "post = [] \<or> \<not> key_of (nodes st) c < k"
    and fuel: "length as + 2 \<le> fuel"
  shows "\<exists>f. list_find fuel dfn t k o0 st =
           Inr (post \<noteq> [] \<and> key_of (nodes st) c = k,
                (after LHead pre, c, if post = [] then l_tail st else hd post),
                st\<lparr>hp := (hp st)(t := f)\<rparr>)"
proof -
  define m where "m = fuel - length pre - 2"
  have fuel_eq: "fuel = Suc (length pre + Suc m)"
    using fuel as by (simp add: m_def)
  have ch: "chain (nodes st) (l_head st) (pre @ c # post) (l_tail st)"
    and pl: "\<forall>a\<in>set as. plain a" and tl: "l_tail st \<notin> set as" "plain (l_tail st)"
    using wf as by (auto simp: list_wf_def)
  have h0: "l_head st = hd (pre @ [c])" using ch by (cases pre) auto
  then have ph: "plain (l_head st)" using pl as by (cases pre) auto
  define st1 where "st1 = st\<lparr>hp := (hp st)(t := (hp st t)(HP_CURR := l_head st))\<rparr>"
  have e: "list_find fuel dfn t k o0 st = list_find_loop (length pre + Suc m) dfn t k o0 LHead (l_head st) st1"
    unfolding fuel_eq st1_def by (rule list_find_enter) (use t ph in \<open>auto simp: plain_def\<close>)
  obtain mid where c1: "chain (nodes st) (l_head st) (pre @ [c]) mid"
    and c2: "chain (nodes st) mid post (l_tail st)"
    using ch chain_append[of "nodes st" "l_head st" "pre @ [c]" post "l_tail st"] by auto
  have "\<exists>f. list_find_loop (length pre + Suc m) dfn t k o0 LHead (l_head st) st1 =
          list_find_loop (Suc m) dfn t k o0 (after LHead pre) c (st1\<lparr>hp := (hp st1)(t := f)\<rparr>)"
    apply (rule find_loop_walk[OF t, where q=mid])
    using c1 pl as lt tl by (auto simp: st1_def)
  then obtain f where w: "list_find_loop (length pre + Suc m) dfn t k o0 LHead (l_head st) st1 =
          list_find_loop (Suc m) dfn t k o0 (after LHead pre) c (st1\<lparr>hp := (hp st1)(t := f)\<rparr>)" ..
  define st2 where "st2 = st\<lparr>hp := (hp st)(t := f)\<rparr>"
  have s2: "st1\<lparr>hp := (hp st1)(t := f)\<rparr> = st2" by (simp add: st1_def st2_def)
  obtain n where n: "nodes st c = Some n" and nmid: "nxt n = mid"
    using chain_last_nxt[OF c1] by auto
  have pc: "plain c" using pl as by auto
  show ?thesis
  proof (cases "post = []")
    case True
    then have nt: "nxt n = l_tail st" using c2 nmid by simp
    have "list_find_loop (Suc m) dfn t k o0 (after LHead pre) c st2
           = Inr (False, (after LHead pre, c, nxt n),
                  st2\<lparr>hp := (hp st2)(t := (hp st2 t)(HP_NEXT := nxt n))\<rparr>)"
      by (rule find_loop_at_last) (use t n pc tl nt in \<open>auto simp: st2_def plain_def\<close>)
    then have "list_find fuel dfn t k o0 st =
           Inr (post \<noteq> [] \<and> key_of (nodes st) c = k,
                (after LHead pre, c, if post = [] then l_tail st else hd post),
                st\<lparr>hp := (hp st)(t := (f(HP_NEXT := nxt n)))\<rparr>)"
      using e w s2 True nt by (simp add: st2_def)
    then show ?thesis by blast
  next
    case False
    then obtain d ds where post: "post = d # ds" by (cases post) auto
    then have nd: "nxt n = d" using c2 nmid by simp
    have dpl: "plain d" "d \<noteq> l_tail st" using pl tl as post by auto
    have ld: "load (after LHead pre) st2 = Inr c"
      using load_after[OF ch] by (simp add: st2_def)
    have kn: "\<not> key n < k" using stop False n by (simp add: key_of_def)
    have "list_find_loop (Suc m) dfn t k o0 (after LHead pre) c st2
           = Inr (key n = k, (after LHead pre, c, nxt n),
                  st2\<lparr>hp := (hp st2)(t := (hp st2 t)(HP_NEXT := nxt n))\<rparr>)"
      by (rule find_loop_at_key) (use t n pc dpl nd ld kn in \<open>auto simp: st2_def plain_def\<close>)
    then have "list_find fuel dfn t k o0 st =
           Inr (post \<noteq> [] \<and> key_of (nodes st) c = k,
                (after LHead pre, c, if post = [] then l_tail st else hd post),
                st\<lparr>hp := (hp st)(t := (f(HP_NEXT := nxt n)))\<rparr>)"
      using e w s2 post nd n by (simp add: st2_def key_of_def)
    then show ?thesis by blast
  qed
qed

lemma aligned_unmarked: "aligned a \<Longrightarrow> \<not> is_marked a"
proof -
  assume "aligned a"
  then have "a AND 15 = 0" by (simp add: aligned_def)
  then have "(a AND 15) AND 1 = 0" by simp
  then have "a AND (15 AND 1) = 0" by (simp only: and.assoc)
  then show ?thesis by (simp add: is_marked_def)
qed

lemma split_at:
  "as \<noteq> [] \<Longrightarrow> \<exists>pre c post. as = pre @ c # post \<and> (\<forall>x\<in>set pre. P x) \<and> (post = [] \<or> \<not> P c)"
proof (induction as)
  case Nil
  then show ?case by simp
next
  case (Cons a as)
  show ?case
  proof (cases "as = [] \<or> \<not> P a")
    case True
    then have "a # as = [] @ a # as \<and> (\<forall>x\<in>set []. P x) \<and> (as = [] \<or> \<not> P a)" by simp
    then show ?thesis by blast
  next
    case False
    then obtain pre c post where "as = pre @ c # post" "\<forall>x\<in>set pre. P x" "post = [] \<or> \<not> P c"
      using Cons.IH by blast
    then have "a # as = (a # pre) @ c # post \<and> (\<forall>x\<in>set (a # pre). P x) \<and> (post = [] \<or> \<not> P c)"
      using False by simp
    then show ?thesis by blast
  qed
qed

lemma chain_store_last:
  "chain h p (ys @ [y]) m \<Longrightarrow> distinct (ys @ [y]) \<Longrightarrow> h y = Some n \<Longrightarrow>
   chain (h(y \<mapsto> n\<lparr>nxt := v\<rparr>)) p (ys @ [y]) v"
proof (induction ys arbitrary: p)
  case Nil
  then show ?case by simp
next
  case (Cons x ys)
  then show ?case by (auto split: option.splits)
qed

lemma loc_store_after:
  "chain (nodes st) (l_head st) (pre @ c # post) q \<Longrightarrow>
   loc_store (after LHead pre) v st
     = Inr (st\<lparr>nodes := relink_nodes (nodes st) pre v, l_head := relink_head (l_head st) pre v\<rparr>)"
proof (cases pre rule: rev_cases)
  case Nil
  then show ?thesis by (simp add: after_def relink_nodes_def relink_head_def)
next
  case (snoc ys y)
  assume "chain (nodes st) (l_head st) (pre @ c # post) q"
  then have "chain (nodes st) (l_head st) (ys @ y # c # post) q" using snoc by simp
  from chain_mid_nxt[OF this] obtain n where "nodes st y = Some n" by auto
  then show ?thesis using snoc by (simp add: after_def relink_nodes_def relink_head_def)
qed

lemma chain_relink:
  assumes "chain h p (pre @ c # post) q" "distinct pre"
    and "chain h v suf q" "set suf \<inter> set pre = {}"
  shows "chain (relink_nodes h pre v) (relink_head p pre v) (pre @ suf) q"
proof (cases pre rule: rev_cases)
  case Nil
  then show ?thesis using assms by (simp add: relink_nodes_def relink_head_def)
next
  case (snoc ys y)
  from assms(1) snoc obtain m where c1: "chain h p (ys @ [y]) m"
    using chain_append[of h p "ys @ [y]" "c # post" q] by auto
  from chain_last_nxt[OF c1] obtain n where n: "h y = Some n" by auto
  have a: "chain (h(y \<mapsto> n\<lparr>nxt := v\<rparr>)) p (ys @ [y]) v"
    by (rule chain_store_last[OF c1 _ n]) (use assms(2) snoc in auto)
  have b: "chain (h(y \<mapsto> n\<lparr>nxt := v\<rparr>)) v suf q"
    by (rule chain_cong[OF _ assms(3)]) (use assms(4) snoc in auto)
  have "chain (h(y \<mapsto> n\<lparr>nxt := v\<rparr>)) p ((ys @ [y]) @ suf) q"
    using a b chain_append[of "h(y \<mapsto> n\<lparr>nxt := v\<rparr>)" p "ys @ [y]" suf q] by blast
  then show ?thesis using snoc n by (simp add: relink_nodes_def relink_head_def)
qed

lemma relink_nodes_other:
  "a \<notin> set pre \<Longrightarrow> relink_nodes h pre v a = h a"
  by (auto simp: relink_nodes_def split: option.splits)

lemma relink_nodes_magic:
  "h a = Some n \<Longrightarrow> \<exists>n'. relink_nodes h pre v a = Some n' \<and> magic n' = magic n \<and> key n' = key n"
  by (auto simp: relink_nodes_def split: option.splits)

lemma relink_nodes_dom: "dom (relink_nodes h pre v) = dom h"
  by (auto simp: relink_nodes_def split: option.splits if_splits)

lemma cleared_lt [simp]: "j < n \<Longrightarrow> cleared n g j = 0"
  by (simp add: cleared_def)

lemma list_hp_clear_ok:
  assumes "hp_ok st t"
  shows "list_hp_clear t st
           = Inr (st\<lparr>hp := (hp st)(t := cleared (nat (max_hps st)) (hp st t))\<rparr>)"
proof (cases "nat (max_hps st) = 0")
  case True
  have "(hp st)(t := cleared (nat (max_hps st)) (hp st t)) = hp st"
    using True by (auto simp: fun_eq_iff cleared_def)
  then show ?thesis using True by (simp add: list_hp_clear_eq)
next
  case False
  then show ?thesis using assms by (simp add: list_hp_clear_eq hp_ok_def cleared_def)
qed

lemma list_wf_set_dom: "list_wf st as \<Longrightarrow> a \<in> set as \<Longrightarrow> a \<in> dom (nodes st)"
  by (auto simp: list_wf_def split: option.splits)

lemma list_wf_cong:
  assumes "list_wf st as" "l_head st' = l_head st" "l_tail st' = l_tail st"
    "\<And>a. a \<in> dom (nodes st) \<Longrightarrow> nodes st' a = nodes st a"
  shows "list_wf st' as"
proof -
  have d: "\<And>a. a \<in> set as \<Longrightarrow> nodes st' a = nodes st a"
    using assms(1,4) list_wf_set_dom by blast
  have "chain (nodes st') (l_head st) as (l_tail st)"
    by (rule chain_cong[where h="nodes st"]) (use assms(1) d in \<open>auto simp: list_wf_def\<close>)
  moreover have "l_tail st \<in> dom (nodes st')"
    using assms(1) assms(4)[of "l_tail st"] by (auto simp: list_wf_def)
  ultimately show ?thesis using assms(1,2,3) d by (auto simp: list_wf_def)
qed

lemma alloc_okD:
  assumes "alloc_ok b st" "window st b k"
  shows "avail st k \<noteq> 0" "aligned (avail st k)" "avail st k \<notin> dom (nodes st)"
  using assms unfolding alloc_ok_def by blast+

lemma alloc_ok_inj:
  assumes "alloc_ok b st" "window st b k" "window st b k'" "avail st k' = avail st k"
  shows "k' = k"
  using assms unfolding alloc_ok_def by blast

lemma window_first [simp]: "window st (Suc b) (used st)"
  by (simp add: window_def)

lemma list_node_new_ok:
  assumes "alloc_ok (Suc b) st"
  shows "list_node_new k st
           = Inr (avail st (used st),
                  st\<lparr>nodes := (nodes st)(avail st (used st) \<mapsto> \<lparr>magic = LIST_MAGIC, nxt = 0, key = k\<rparr>),
                     used := Suc (used st)\<rparr>)"
  using alloc_okD(1)[OF assms window_first] by (simp add: list_node_new_def Let_def)

lemma insert_fail_ok:
  assumes "hp_ok st t" "nodes st a = Some n" "magic n = LIST_MAGIC" "a \<noteq> 0"
  shows "insert_fail t a st
    = Inr (False, st\<lparr>nodes := (nodes st)(a := None),
                     hp := (hp st)(t := cleared (nat (max_hps st)) (hp st t))\<rparr>)"
proof -
  have "hp_ok (st\<lparr>nodes := (nodes st)(a := None)\<rparr>) t" using assms(1) by (simp add: hp_ok_def)
  from list_hp_clear_ok[OF this] show ?thesis
    using assms by (simp add: insert_fail_def list_node_destroy_def)
qed

lemma insert_rb_found:
  assumes hp: "hp_ok st t" and wf: "list_wf st as" and al: "alloc_ok (Suc b) st"
    and as: "as = pre @ c # post" and lt: "\<forall>x\<in>set pre. key_of (nodes st) x < k"
    and found: "post \<noteq> []" "key_of (nodes st) c = k" and fuel: "length as + 3 \<le> fuel"
  shows "\<exists>f. list_insert fuel dfn t k st
               = Inr (False, st\<lparr>hp := (hp st)(t := f), used := Suc (used st)\<rparr>)
             \<and> (\<forall>j<nat (max_hps st). f j = 0)"
proof -
  define a where "a = avail st (used st)"
  define new where "new = \<lparr>magic = LIST_MAGIC, nxt = 0, key = k\<rparr>"
  define st1 where "st1 = st\<lparr>nodes := (nodes st)(a \<mapsto> new), used := Suc (used st)\<rparr>"
  have a: "a \<noteq> 0" "a \<notin> dom (nodes st)"
    using alloc_okD[OF al window_first] by (simp_all add: a_def)
  have new: "list_node_new k st = Inr (a, st1)"
    using list_node_new_ok[OF al] by (simp add: a_def st1_def new_def)
  have wf1: "list_wf st1 as"
    by (rule list_wf_cong[OF wf]) (use a in \<open>auto simp: st1_def\<close>)
  have keys: "\<And>x. x \<in> set as \<Longrightarrow> key_of (nodes st1) x = key_of (nodes st) x"
    using list_wf_set_dom[OF wf] a by (auto simp: st1_def key_of_def)
  obtain n where fuel_eq: "fuel = Suc n" and n: "length as + 2 \<le> n"
    using fuel by (cases fuel) auto
  have t: "t < HP_MAX_THREADS" using hp by (simp add: hp_ok_def)
  have "\<exists>f. list_find n dfn t k (LNull, 0, 0) st1 =
           Inr (post \<noteq> [] \<and> key_of (nodes st1) c = k,
                (after LHead pre, c, if post = [] then l_tail st1 else hd post),
                st1\<lparr>hp := (hp st1)(t := f)\<rparr>)"
    by (rule find_rb_spec[OF t wf1 as _ _ n]) (use lt found keys as in auto)
  then obtain f where f: "list_find n dfn t k (LNull, 0, 0) st1 =
           Inr (True, (after LHead pre, c, hd post), st1\<lparr>hp := (hp st1)(t := f)\<rparr>)"
    using found keys as by auto
  define st2 where "st2 = st1\<lparr>hp := (hp st1)(t := f)\<rparr>"
  have "insert_fail t a st2
    = Inr (False, st2\<lparr>nodes := (nodes st2)(a := None),
                     hp := (hp st2)(t := cleared (nat (max_hps st2)) (hp st2 t))\<rparr>)"
    by (rule insert_fail_ok[where n=new]) (use hp a in \<open>auto simp: st2_def st1_def hp_ok_def new_def\<close>)
  moreover have "(nodes st)(a := None) = nodes st" using a by (auto simp: fun_eq_iff)
  ultimately have fail: "insert_fail t a st2
    = Inr (False, st\<lparr>hp := (hp st)(t := cleared (nat (max_hps st)) f),
                     used := Suc (used st)\<rparr>)"
    by (simp add: st2_def st1_def)
  have "list_insert fuel dfn t k st
               = Inr (False, st\<lparr>hp := (hp st)(t := cleared (nat (max_hps st)) f),
                     used := Suc (used st)\<rparr>)"
    using new f fail by (simp add: list_insert_def fuel_eq st2_def)
  then show ?thesis by (intro exI[where x="cleared (nat (max_hps st)) f"]) simp
qed

lemma cas_after_ok:
  assumes "chain (nodes st) (l_head st) (pre @ c # post) q"
  shows "cas (after LHead pre) c v st
     = Inr (True, st\<lparr>nodes := relink_nodes (nodes st) pre v, l_head := relink_head (l_head st) pre v\<rparr>)"
  using load_after[OF assms] loc_store_after[OF assms, of v] by (simp add: cas_def)

lemma alloc_ok_mono:
  assumes al: "alloc_ok b st" and u: "used st \<le> used st'" "used st' + b' \<le> used st + b"
    and av: "avail st' = avail st"
    and dm: "dom (nodes st') \<subseteq> dom (nodes st) \<union> avail st ` {used st..<used st'}"
  shows "alloc_ok b' st'"
  unfolding alloc_ok_def
proof (intro allI impI)
  fix k assume k: "window st' b' k"
  then have w: "window st b k" using u by (simp add: window_def)
  have "avail st k \<notin> avail st ` {used st..<used st'}"
  proof
    assume "avail st k \<in> avail st ` {used st..<used st'}"
    then obtain j where j: "used st \<le> j" "j < used st'" "avail st k = avail st j" by auto
    then have "window st b j" using u k by (simp add: window_def)
    from alloc_ok_inj[OF al this w j(3)] show False using j(2) k by (simp add: window_def)
  qed
  then have nd: "avail st' k \<notin> dom (nodes st')"
    using alloc_okD(3)[OF al w] dm av by auto
  have inj: "\<forall>k'. window st' b' k' \<longrightarrow> avail st' k' = avail st' k \<longrightarrow> k' = k"
  proof (intro allI impI)
    fix k' assume "window st' b' k'" "avail st' k' = avail st' k"
    then have "window st b k'" "avail st k' = avail st k" using u av by (simp_all add: window_def)
    from alloc_ok_inj[OF al w this] show "k' = k" .
  qed
  show "avail st' k \<noteq> 0 \<and> aligned (avail st' k) \<and> avail st' k \<notin> dom (nodes st') \<and>
         (\<forall>k'. window st' b' k' \<longrightarrow> avail st' k' = avail st' k \<longrightarrow> k' = k)"
    using alloc_okD(1,2)[OF al w] nd inj av by simp
qed

lemma alloc_ok_step:
  assumes "alloc_ok (Suc b) st" "used st' = Suc (used st)" "avail st' = avail st"
    "dom (nodes st') \<subseteq> insert (avail st (used st)) (dom (nodes st))"
  shows "alloc_ok b st'"
proof (rule alloc_ok_mono[OF assms(1)])
  have "{used st..<used st'} = {used st}" using assms(2) by auto
  then show "dom (nodes st') \<subseteq> dom (nodes st) \<union> avail st ` {used st..<used st'}"
    using assms(4) by auto
qed (use assms in auto)

lemma relink_nodes_key: "key_of (relink_nodes h pre v) x = key_of h x"
  by (auto simp: relink_nodes_def key_of_def split: option.splits)

lemma list_wfI:
  assumes "as \<noteq> []" "chain (nodes st) (l_head st) as (l_tail st)" "distinct as"
    "l_tail st \<notin> set as" "plain (l_tail st)" "l_tail st \<in> dom (nodes st)"
    "\<And>a. a \<in> set as \<Longrightarrow> plain a"
    "\<And>a. a \<in> set as \<Longrightarrow> \<exists>n. nodes st a = Some n \<and> magic n = LIST_MAGIC"
  shows "list_wf st as"
  unfolding list_wf_def using assms by (fastforce split: option.splits)

lemma list_wfD:
  assumes "list_wf st as"
  shows "as \<noteq> []" "chain (nodes st) (l_head st) as (l_tail st)" "distinct as"
    "l_tail st \<notin> set as" "plain (l_tail st)" "l_tail st \<in> dom (nodes st)"
    "\<And>a. a \<in> set as \<Longrightarrow> plain a"
    "\<And>a. a \<in> set as \<Longrightarrow> \<exists>n. nodes st a = Some n \<and> magic n = LIST_MAGIC"
  using assms unfolding list_wf_def by (auto split: option.splits)

lemma insert_rb_new:
  assumes hp: "hp_ok st t" and wf: "list_wf st as" and al: "alloc_ok (Suc b) st"
    and as: "as = pre @ c # post" and lt: "\<forall>x\<in>set pre. key_of (nodes st) x < k"
    and stop: "post = [] \<or> k < key_of (nodes st) c" and fuel: "length as + 3 \<le> fuel"
  shows "\<exists>N H f. list_insert fuel dfn t k st
               = Inr (True, st\<lparr>nodes := N, l_head := H, hp := (hp st)(t := f), used := Suc (used st)\<rparr>)
             \<and> list_wf (st\<lparr>nodes := N, l_head := H, hp := (hp st)(t := f), used := Suc (used st)\<rparr>)
                  (pre @ avail st (used st) # c # post)
             \<and> alloc_ok b (st\<lparr>nodes := N, l_head := H, hp := (hp st)(t := f), used := Suc (used st)\<rparr>)
             \<and> key_of N (avail st (used st)) = k
             \<and> (\<forall>x\<in>set as. key_of N x = key_of (nodes st) x)
             \<and> (\<forall>j<nat (max_hps st). f j = 0)
             \<and> dom N = insert (avail st (used st)) (dom (nodes st))"
proof -
  define a where "a = avail st (used st)"
  define new where "new = \<lparr>magic = LIST_MAGIC, nxt = 0, key = k\<rparr>"
  define st1 where "st1 = st\<lparr>nodes := (nodes st)(a \<mapsto> new), used := Suc (used st)\<rparr>"
  have a: "a \<noteq> 0" "a \<notin> dom (nodes st)" "aligned a"
    using alloc_okD[OF al window_first] by (simp_all add: a_def)
  have a_as: "a \<notin> set as" using a(2) list_wf_set_dom[OF wf] by blast
  have a_tl: "a \<noteq> l_tail st" using a(2) wf by (auto simp: list_wf_def)
  have new: "list_node_new k st = Inr (a, st1)"
    using list_node_new_ok[OF al] by (simp add: a_def st1_def new_def)
  have wf1: "list_wf st1 as"
    by (rule list_wf_cong[OF wf]) (use a in \<open>auto simp: st1_def\<close>)
  have keys: "\<And>x. x \<in> set as \<Longrightarrow> key_of (nodes st1) x = key_of (nodes st) x"
    using list_wf_set_dom[OF wf] a by (auto simp: st1_def key_of_def)
  obtain n where fuel_eq: "fuel = Suc n" and n: "length as + 2 \<le> n"
    using fuel by (cases fuel) auto
  have t: "t < HP_MAX_THREADS" using hp by (simp add: hp_ok_def)
  have nk: "post = [] \<or> \<not> key_of (nodes st1) c < k" "\<not> (post \<noteq> [] \<and> key_of (nodes st1) c = k)"
    using stop keys[of c] as by auto
  have "\<exists>f. list_find n dfn t k (LNull, 0, 0) st1 =
           Inr (post \<noteq> [] \<and> key_of (nodes st1) c = k,
                (after LHead pre, c, if post = [] then l_tail st1 else hd post),
                st1\<lparr>hp := (hp st1)(t := f)\<rparr>)"
    by (rule find_rb_spec[OF t wf1 as _ _ n]) (use lt nk keys as in auto)
  then obtain f nx where f: "list_find n dfn t k (LNull, 0, 0) st1 =
           Inr (False, (after LHead pre, c, nx), st1\<lparr>hp := (hp st1)(t := f)\<rparr>)"
    using nk by auto
  define st2 where "st2 = st1\<lparr>hp := (hp st1)(t := f)\<rparr>"
  define st3 where "st3 = st2\<lparr>nodes := (nodes st2)(a \<mapsto> new\<lparr>nxt := c\<rparr>)\<rparr>"
  have store: "insert_store a c st2 = Inr st3"
    by (simp add: insert_store_def st3_def st2_def st1_def)
  have ch: "chain (nodes st) (l_head st) (pre @ c # post) (l_tail st)"
    using wf as by (simp add: list_wf_def)
  have "chain (nodes st3) (l_head st) (pre @ c # post) (l_tail st)"
    by (rule chain_cong[OF _ ch]) (use a_as as in \<open>auto simp: st3_def st2_def st1_def\<close>)
  then have ch3: "chain (nodes st3) (l_head st3) (pre @ c # post) (l_tail st)"
    by (simp add: st3_def st2_def st1_def)
  have cpl: "plain c" using wf as by (auto simp: list_wf_def)
  define st4 where "st4 = st3\<lparr>nodes := relink_nodes (nodes st3) pre a,
                            l_head := relink_head (l_head st3) pre a\<rparr>"
  have cas: "cas (after LHead pre) (get_unmarked c) a st3 = Inr (True, st4)"
    using cas_after_ok[OF ch3, of a] cpl by (simp add: st4_def plain_def)
  have hp4: "hp_ok st4 t" using hp by (simp add: hp_ok_def st4_def st3_def st2_def st1_def)
  define st5 where "st5 = st4\<lparr>hp := (hp st4)(t := cleared (nat (max_hps st4)) (hp st4 t))\<rparr>"
  have clr: "list_hp_clear t st4 = Inr st5"
    using list_hp_clear_ok[OF hp4] by (simp add: st5_def)
  have run: "list_insert fuel dfn t k st = Inr (True, st5)"
    using new f store cas clr by (simp add: list_insert_def fuel_eq st2_def)
  \<comment> \<open>the new chain\<close>
  obtain mid where c1: "chain (nodes st3) (l_head st3) pre mid"
    and c2: "chain (nodes st3) mid (c # post) (l_tail st)"
    using ch3 chain_append[of "nodes st3" "l_head st3" pre "c # post" "l_tail st"] by auto
  have c2': "chain (nodes st3) c (c # post) (l_tail st)" using c2 by simp
  have suf: "chain (nodes st3) a (a # c # post) (l_tail st)"
    using c2' by (simp add: st3_def)
  have dis: "distinct pre" "set (a # c # post) \<inter> set pre = {}"
    using wf as a_as by (auto simp: list_wf_def)
  have ch4: "chain (nodes st4) (l_head st4) (pre @ a # c # post) (l_tail st)"
    using chain_relink[OF ch3 dis(1) suf dis(2)] by (simp add: st4_def)
  have n3: "\<And>x. x \<noteq> a \<Longrightarrow> nodes st3 x = nodes st x" "nodes st3 a = Some (new\<lparr>nxt := c\<rparr>)"
    by (simp_all add: st3_def st2_def st1_def)
  have mg: "\<And>x. x \<in> set as \<or> x = a \<Longrightarrow>
              \<exists>m. nodes st4 x = Some m \<and> magic m = LIST_MAGIC \<and> key_of (nodes st4) x = key_of (nodes st3) x"
  proof -
    fix x assume x: "x \<in> set as \<or> x = a"
    then obtain m where m: "nodes st3 x = Some m" "magic m = LIST_MAGIC"
      using list_wfD(8)[OF wf, of x] n3 a_as by (cases "x = a") (auto simp: new_def)
    from relink_nodes_magic[of "nodes st3" x m pre a] m(2) m(1)
    show "\<exists>m. nodes st4 x = Some m \<and> magic m = LIST_MAGIC \<and> key_of (nodes st4) x = key_of (nodes st3) x"
      by (auto simp: st4_def key_of_def)
  qed
  have tl4: "l_tail st \<in> dom (nodes st4)"
    using list_wfD(6)[OF wf] n3(1)[OF a_tl[symmetric]] by (auto simp: st4_def relink_nodes_dom)
  have f5: "nodes st5 = nodes st4" "l_head st5 = l_head st4" "l_tail st5 = l_tail st"
    by (simp_all add: st5_def st4_def st3_def st2_def st1_def)
  have wf5: "list_wf st5 (pre @ a # c # post)"
  proof (rule list_wfI)
    show "pre @ a # c # post \<noteq> []" by simp
    show "chain (nodes st5) (l_head st5) (pre @ a # c # post) (l_tail st5)"
      using ch4 f5 by simp
    show "distinct (pre @ a # c # post)"
      using list_wfD(3)[OF wf] as a_as by auto
    show "l_tail st5 \<notin> set (pre @ a # c # post)"
      using list_wfD(4)[OF wf] as a_tl f5 by auto
    show "plain (l_tail st5)" using list_wfD(5)[OF wf] f5 by simp
    show "l_tail st5 \<in> dom (nodes st5)" using tl4 f5 by simp
    show "\<And>x. x \<in> set (pre @ a # c # post) \<Longrightarrow> plain x"
      using list_wfD(7)[OF wf] as a(1) aligned_unmarked[OF a(3)] by (auto simp: plain_def)
    show "\<And>x. x \<in> set (pre @ a # c # post) \<Longrightarrow> \<exists>n. nodes st5 x = Some n \<and> magic n = LIST_MAGIC"
    proof -
      fix x assume "x \<in> set (pre @ a # c # post)"
      then have "x \<in> set as \<or> x = a" using as by auto
      from mg[OF this] show "\<exists>n. nodes st5 x = Some n \<and> magic n = LIST_MAGIC"
        using f5 by auto
    qed
  qed
  have al5: "alloc_ok b st5"
    by (rule alloc_ok_step[OF al])
       (auto simp: st5_def st4_def st3_def st2_def st1_def relink_nodes_dom a_def)
  have k4: "\<And>x. key_of (nodes st5) x = key_of (nodes st3) x"
    by (simp add: f5 st4_def relink_nodes_key)
  have k5: "key_of (nodes st5) a = k" "\<And>x. x \<in> set as \<Longrightarrow> key_of (nodes st5) x = key_of (nodes st) x"
  proof -
    show "key_of (nodes st5) a = k" unfolding k4 by (simp add: n3 key_of_def new_def)
    fix x assume "x \<in> set as"
    then have "x \<noteq> a" using a_as by auto
    then show "key_of (nodes st5) x = key_of (nodes st) x"
      unfolding k4 using n3(1)[of x] by (simp add: key_of_def)
  qed
  have eq: "st5 = st\<lparr>nodes := nodes st5, l_head := l_head st5,
                      hp := (hp st)(t := cleared (nat (max_hps st)) f), used := Suc (used st)\<rparr>"
    by (simp add: st5_def st4_def st3_def st2_def st1_def)
  have d5: "dom (nodes st5) = insert a (dom (nodes st))"
    by (auto simp: f5 st4_def relink_nodes_dom st3_def st2_def st1_def)
  show ?thesis
    apply (rule exI[where x="nodes st5"], rule exI[where x="l_head st5"],
           rule exI[where x="cleared (nat (max_hps st)) f"])
    using run wf5 al5 k5 d5 unfolding eq[symmetric] a_def[symmetric] by simp
qed

section \<open>Retiring into an empty index; the conservative delete\<close>

lemma and3_bits:
  fixes nl :: ptr
  assumes "nl AND 3 = 0"
  shows "nl AND 1 = 0" "nl AND NOT 3 = nl"
proof -
  have "(nl AND 3) AND 1 = 0" using assms by simp
  then have "nl AND (3 AND 1) = 0" by (simp only: and.assoc)
  then show "nl AND 1 = 0" by simp
  have "nl = nl AND (NOT 3 OR 3)" by simp
  also have "\<dots> = (nl AND NOT 3) OR (nl AND 3)" by (simp only: bit.conj_disj_distrib)
  also have "\<dots> = nl AND NOT 3" using assms by simp
  finally show "nl AND NOT 3 = nl" by simp
qed

lemma parent_of_fresh:
  fixes nl :: ptr
  assumes "nl AND 3 = 0"
  shows "(((j AND 1) OR nl) AND NOT 1) AND NOT 3 = nl"
proof -
  have "(((j AND 1) OR nl) AND NOT 1) AND NOT 3 = ((j AND 1) OR nl) AND (NOT 1 AND NOT 3)"
    by (simp only: and.assoc)
  also have "NOT 1 AND NOT 3 = (NOT 3 :: ptr)" by simp
  also have "((j AND 1) OR nl) AND NOT 3 = ((j AND 1) AND NOT 3) OR (nl AND NOT 3)"
    by (simp only: bit.conj_disj_distrib2)
  also have "(j AND 1) AND NOT 3 = j AND (1 AND NOT 3)" by (simp only: and.assoc)
  also have "(1 AND NOT 3) = (0 :: ptr)" by simp
  finally show ?thesis using and3_bits(2)[OF assms] by simp
qed

lemma aligned_nil:
  assumes "aligned r"
  shows "nil_of r AND 3 = 0"
proof -
  have "(r AND 15) AND 8 = 0" "(r AND 15) AND 3 = 0" using assms by (simp_all add: aligned_def)
  then have r8: "r AND 8 = 0" and r3: "r AND 3 = 0"
    by (simp_all add: and.assoc)
  have "r + 8 = r OR 8" by (rule disjunctive_add_eq_or[OF r8])
  then have "nil_of r AND 3 = (r OR 8) AND 3" by (simp add: nil_of_def)
  also have "\<dots> = (r AND 3) OR (8 AND 3)" by (simp only: bit.conj_disj_distrib2)
  also have "\<dots> = 0" using r3 by simp
  finally show ?thesis .
qed

lemma nil_of_inj [simp]: "nil_of a = nil_of b \<longleftrightarrow> a = b"
  by (simp add: nil_of_def)

lemma rbnode_nil [simp]: "rbnode_of a = nil_of b \<longleftrightarrow> a = b" "nil_of b = rbnode_of a \<longleftrightarrow> a = b"
  by (auto simp: nil_of_def rbnode_of_def)

lemma rbnode_of_inj [simp]: "rbnode_of a = rbnode_of b \<longleftrightarrow> a = b"
  by (simp add: rbnode_of_def)

lemma rl_insert_rb_empty:
  assumes al: "alloc_ok (Suc b) st" and rr: "retire_ready_rb (Suc b) st t" and fuel: "1 \<le> fuel"
  shows "\<exists>pc. rl_insert_rb fuel t v st
           = Inr (st\<lparr>used := Suc (used st),
                     roots := (roots st)(rl st t \<mapsto> \<lparr>head = rbnode_of (avail st (used st)), cnt = 1\<rparr>),
                     rbs := (rbs st)(rbnode_of (avail st (used st)) \<mapsto>
                              \<lparr>parent_color = pc, leftC = nil_of (rl st t), rightC = nil_of (rl st t)\<rparr>),
                     recs := (recs st)(avail st (used st) \<mapsto> v)\<rparr>)"
proof -
  define a where "a = avail st (used st)"
  define r where "r = rl st t"
  obtain n where fuel_eq: "fuel = Suc n" using fuel by (cases fuel) auto
  have a: "a \<noteq> 0" "a \<noteq> r"
    using alloc_okD(1)[OF al window_first] rr window_first[of st b]
    unfolding retire_ready_rb_def a_def r_def by blast+
  obtain nl where nl: "rbs st (nil_of r) = Some nl" "parent_color nl AND 1 = 1"
    using rr by (auto simp: retire_ready_rb_def r_def split: option.splits)
  have root: "roots st r = Some \<lparr>head = nil_of r, cnt = 0\<rparr>"
    using rr by (auto simp: retire_ready_rb_def root_empty_def r_def)
  have n3: "nil_of r AND 3 = 0" using rr aligned_nil by (auto simp: retire_ready_rb_def r_def)
  have par: "((junk st AND 1 OR nil_of r) AND NOT 1) AND NOT 3 = nil_of r"
    by (rule parent_of_fresh[OF n3])
  have "rl_insert_rb fuel t v st
           = Inr (st\<lparr>used := Suc (used st),
                     roots := (roots st)(r \<mapsto> \<lparr>head = rbnode_of a, cnt = 1\<rparr>),
                     rbs := (rbs st)(rbnode_of a \<mapsto>
                              \<lparr>parent_color = (junk st AND 1 OR nil_of r) AND NOT 1 OR 1,
                               leftC = nil_of r, rightC = nil_of r\<rparr>),
                     recs := (recs st)(a \<mapsto> v)\<rparr>)"
    using a nl root par
    by (simp add: rl_insert_rb_def malloc_rec_def Let_def rec_set_ptr_def rbtree_insert_def fuel_eq
      root_read_def rb_set_parent_def rb_modify_def root_set_head_def root_modify_def
      rb_set_right_def rb_set_left_def rb_set_red_def rb_parent_def rb_read_def rb_color_def
      RED_def rb_set_black_def a_def[symmetric] r_def[symmetric])
  then show ?thesis
    unfolding a_def[symmetric] r_def[symmetric] by blast
qed

lemma foldE_noop: "(\<And>x. x \<in> set xs \<Longrightarrow> f x s = Inr s) \<Longrightarrow> foldE f xs s = Inr s"
  by (induction xs) auto

lemma word_pos: "(v :: ptr) \<noteq> 0 \<Longrightarrow> 0 < v"
  by (simp add: word_neq_0_conv)

lemma scan_slot_noop:
  assumes "roots s r = Some \<lparr>head = nd, cnt = c\<rparr>" "nd \<noteq> nil_of r"
    "rbs s nd = Some \<lparr>parent_color = pc, leftC = nil_of r, rightC = nil_of r\<rparr>"
    "recs s (container_of nd) = Some v" "v \<noteq> 0" "hp s i j = 0"
    "i < HP_MAX_THREADS" "j < 2 * CLPAD" "2 \<le> fuel"
  shows "scan_slot_rb fuel r new i j s = Inr s"
proof -
  obtain n where fuel_eq: "fuel = Suc (Suc n)"
    using assms(9) by (metis Suc_le_D numeral_2_eq_2 Suc_le_mono)
  show ?thesis
    using assms(1-8) word_pos[OF assms(5)]
    by (simp add: scan_slot_rb_def rbtree_search_def root_read_def fuel_eq cmp_search_def
          hp_load_def rec_ptr_def RB_EQUAL_def RB_LEFT_def rb_left_def rb_read_def)
qed

lemma clean_single:
  assumes "roots s r = Some \<lparr>head = nd, cnt = c\<rparr>" "nd \<noteq> nil_of r"
    "rbs s nd = Some \<lparr>parent_color = pc, leftC = nil_of r, rightC = nil_of r\<rparr>"
    "recs s (container_of nd) = Some v" "v \<noteq> 0" "container_of nd \<noteq> 0"
    "nodes s v = Some nv" "magic nv = LIST_MAGIC" "2 \<le> fuel"
  shows "rbtree_clean fuel r list_node_delete_rb s
           = Inr (s\<lparr>nodes := (nodes s)(v := None), rbs := (rbs s)(nd := None),
                    recs := (recs s)(container_of nd := None)\<rparr>)"
proof -
  obtain n where fuel_eq: "fuel = Suc (Suc n)"
    using assms(9) by (metis Suc_le_D numeral_2_eq_2 Suc_le_mono)
  show ?thesis
    using assms(1-8)
    by (simp add: rbtree_clean_def root_read_def fuel_eq rb_left_def rb_right_def rb_read_def
          list_node_delete_rb_def rec_ptr_def list_node_destroy_def free_rec_def)
qed

lemma retire_rb_ok:
  assumes hp: "hp_ok st t" and al: "alloc_ok (Suc (Suc b)) st"
    and rr: "retire_ready_rb (Suc (Suc b)) st t"
    and v: "nodes st v = Some nv" "magic nv = LIST_MAGIC" "v \<noteq> 0" and fuel: "2 \<le> fuel"
  shows "\<exists>R B C. list_hp_retire_rb fuel list_node_delete_rb t v st
            = Inr (st\<lparr>nodes := (nodes st)(v := None), used := Suc (Suc (used st)),
                       rl := (rl st)(t := avail st (Suc (used st))),
                       roots := R, rbs := B, recs := C\<rparr>)
          \<and> retire_ready_rb b (st\<lparr>nodes := (nodes st)(v := None), used := Suc (Suc (used st)),
                       rl := (rl st)(t := avail st (Suc (used st))),
                       roots := R, rbs := B, recs := C\<rparr>) t"
proof -
  define a1 where "a1 = avail st (used st)"
  define a2 where "a2 = avail st (Suc (used st))"
  define r where "r = rl st t"
  have w: "window st (Suc (Suc b)) (used st)" "window st (Suc (Suc b)) (Suc (used st))"
    by (simp_all add: window_def)
  have "a1 \<noteq> a2"
    using alloc_ok_inj[OF al w(2) w(1)] by (auto simp: a1_def a2_def)
  moreover have "a1 \<noteq> r" "a2 \<noteq> r"
    using rr w unfolding retire_ready_rb_def a1_def a2_def r_def by blast+
  ultimately have fr: "a1 \<noteq> 0" "a2 \<noteq> 0" "a1 \<noteq> a2" "a1 \<noteq> r" "a2 \<noteq> r" "aligned a2"
    using alloc_okD(1)[OF al w(1)] alloc_okD(1,2)[OF al w(2)] by (simp_all add: a1_def a2_def)
  have inj2: "\<And>k. window st (Suc (Suc b)) k \<Longrightarrow> Suc (Suc (used st)) \<le> k \<Longrightarrow> avail st k \<noteq> a2"
  proof
    fix k assume k: "window st (Suc (Suc b)) k" "Suc (Suc (used st)) \<le> k" "avail st k = a2"
    from alloc_ok_inj[OF al w(2) k(1)] k(3) show False using k(2) by (simp add: a2_def)
  qed
  have t: "t < HP_MAX_THREADS" and mx: "nat (max_hps st) \<le> 2 * CLPAD"
    using hp by (auto simp: hp_ok_def)
  have quiet: "\<And>i j. i \<noteq> t \<Longrightarrow> hp st i j = 0" using rr by (auto simp: retire_ready_rb_def)
  obtain pc where ins: "rl_insert_rb fuel t v st
           = Inr (st\<lparr>used := Suc (used st),
                     roots := (roots st)(r \<mapsto> \<lparr>head = rbnode_of a1, cnt = 1\<rparr>),
                     rbs := (rbs st)(rbnode_of a1 \<mapsto>
                              \<lparr>parent_color = pc, leftC = nil_of r, rightC = nil_of r\<rparr>),
                     recs := (recs st)(a1 \<mapsto> v)\<rparr>)"
    using rl_insert_rb_empty[OF al rr, of fuel v] fuel unfolding a1_def r_def by auto
  define s1 where "s1 = st\<lparr>used := Suc (used st),
                     roots := (roots st)(r \<mapsto> \<lparr>head = rbnode_of a1, cnt = 1\<rparr>),
                     rbs := (rbs st)(rbnode_of a1 \<mapsto>
                              \<lparr>parent_color = pc, leftC = nil_of r, rightC = nil_of r\<rparr>),
                     recs := (recs st)(a1 \<mapsto> v)\<rparr>"
  define s3 where "s3 = s1\<lparr>used := Suc (Suc (used st)),
                     roots := (roots s1)(a2 \<mapsto> \<lparr>head = nil_of a2, cnt = 0\<rparr>),
                     rbs := (rbs s1)(nil_of a2 \<mapsto> \<lparr>parent_color = BLACK, leftC = 0, rightC = 0\<rparr>)\<rparr>"
  have init: "malloc_root s1 = (a2, s1\<lparr>used := Suc (Suc (used st)),
                 roots := (roots s1)(a2 \<mapsto> \<lparr>head = junk s1, cnt = junk s1\<rparr>),
                 rbs := (rbs s1)(nil_of a2 \<mapsto> \<lparr>parent_color = junk s1, leftC = junk s1, rightC = junk s1\<rparr>)\<rparr>)"
    using fr by (simp add: malloc_root_def alloc_root_def Let_def s1_def a2_def)
  have rinit: "RB_ROOT_INIT a2 (s1\<lparr>used := Suc (Suc (used st)),
                 roots := (roots s1)(a2 \<mapsto> \<lparr>head = junk s1, cnt = junk s1\<rparr>),
                 rbs := (rbs s1)(nil_of a2 \<mapsto> \<lparr>parent_color = junk s1, leftC = junk s1, rightC = junk s1\<rparr>)\<rparr>)
               = Inr s3"
    by (simp add: RB_ROOT_INIT_def root_set_head_def root_modify_def rb_modify_def rb_set_left_def
          rb_set_right_def s3_def)
  have f3: "roots s3 r = Some \<lparr>head = rbnode_of a1, cnt = 1\<rparr>"
    "rbs s3 (rbnode_of a1) = Some \<lparr>parent_color = pc, leftC = nil_of r, rightC = nil_of r\<rparr>"
    "recs s3 (container_of (rbnode_of a1)) = Some v" "max_hps s3 = max_hps st" "hp s3 = hp st"
    "nodes s3 = nodes st"
    using fr by (simp_all add: s3_def s1_def)
  have slot: "\<And>i j. i \<noteq> t \<Longrightarrow> i < HP_MAX_THREADS \<Longrightarrow> j < nat (max_hps st) \<Longrightarrow>
                scan_slot_rb fuel r a2 i j s3 = Inr s3"
    by (rule scan_slot_noop[OF f3(1) _ f3(2) f3(3) v(3) _ _ _ fuel])
       (use fr quiet mx in \<open>auto simp: f3\<close>)
  have loop: "foldE (\<lambda>itid s. if itid = t then Inr s
               else foldE (scan_slot_rb fuel r a2 itid) (rev [0..<nat (max_hps s)]) s)
             [0..<HP_MAX_THREADS] s3 = Inr s3"
    by (rule foldE_noop) (auto simp: f3 intro!: foldE_noop slot)
  define s4 where "s4 = s3\<lparr>nodes := (nodes s3)(v := None), rbs := (rbs s3)(rbnode_of a1 := None),
                    recs := (recs s3)(container_of (rbnode_of a1) := None)\<rparr>"
  have clean: "rbtree_clean fuel r list_node_delete_rb s3 = Inr s4"
    unfolding s4_def
    by (rule clean_single[OF f3(1) _ f3(2) f3(3) v(3) _ _ v(2) fuel])
       (use fr v in \<open>auto simp: f3\<close>)
  have rd: "root_read r s1 = Inr \<lparr>head = rbnode_of a1, cnt = 1\<rparr>"
    by (simp add: root_read_def s1_def)
  have lt: "(1 :: ptr) < word_of_int HP_MAX_RETIRED"
    by (simp add: HP_MAX_RETIRED_def HP_MAX_THREADS_def HP_MAX_HPS_def)
  define s5 where "s5 = s4\<lparr>rl := (rl s4)(t := a2)\<rparr>"
  have scan: "scan_rb fuel list_node_delete_rb t r s1 = Inr s5"
    using init rinit loop clean by (simp add: scan_rb_def s5_def)
  have run: "list_hp_retire_rb fuel list_node_delete_rb t v st = Inr s5"
    unfolding retire_rb_scans r_def[symmetric] using ins rd lt scan
    by (simp add: s1_def[symmetric])
  have eq: "s5 = st\<lparr>nodes := (nodes st)(v := None), used := Suc (Suc (used st)),
                       rl := (rl st)(t := a2),
                       roots := roots s5, rbs := rbs s5, recs := recs s5\<rparr>"
    by (simp add: s5_def s4_def s3_def s1_def)
  have win5: "\<And>k. window s5 b k \<Longrightarrow> window st (Suc (Suc b)) k \<and> Suc (Suc (used st)) \<le> k"
    by (simp add: window_def s5_def s4_def s3_def s1_def)
  have rr5: "retire_ready_rb b s5 t"
    unfolding retire_ready_rb_def
  proof (intro conjI allI impI)
    fix k assume "window s5 b k"
    from inj2[OF win5[OF this, THEN conjunct1] win5[OF this, THEN conjunct2]]
    show "avail s5 k \<noteq> rl s5 t" by (simp add: s5_def s4_def s3_def s1_def)
  qed (use fr quiet in \<open>auto simp: root_empty_def s5_def s4_def s3_def s1_def BLACK_def\<close>)
  show ?thesis
    apply (rule exI[where x="roots s5"], rule exI[where x="rbs s5"], rule exI[where x="recs s5"])
    using run rr5 unfolding eq[symmetric] a2_def[symmetric] by simp
qed

lemma chain_relink2:
  assumes "chain h p (pre @ c # post) q'" "distinct pre"
    and "chain h v suf q" "set suf \<inter> set pre = {}"
  shows "chain (relink_nodes h pre v) (relink_head p pre v) (pre @ suf) q"
proof (cases pre rule: rev_cases)
  case Nil
  then show ?thesis using assms by (simp add: relink_nodes_def relink_head_def)
next
  case (snoc ys y)
  from assms(1) snoc obtain m where c1: "chain h p (ys @ [y]) m"
    using chain_append[of h p "ys @ [y]" "c # post" q'] by auto
  from chain_last_nxt[OF c1] obtain n where n: "h y = Some n" by auto
  have a: "chain (h(y \<mapsto> n\<lparr>nxt := v\<rparr>)) p (ys @ [y]) v"
    by (rule chain_store_last[OF c1 _ n]) (use assms(2) snoc in auto)
  have b: "chain (h(y \<mapsto> n\<lparr>nxt := v\<rparr>)) v suf q"
    by (rule chain_cong[OF _ assms(3)]) (use assms(4) snoc in auto)
  have "chain (h(y \<mapsto> n\<lparr>nxt := v\<rparr>)) p ((ys @ [y]) @ suf) q"
    using a b chain_append[of "h(y \<mapsto> n\<lparr>nxt := v\<rparr>)" p "ys @ [y]" suf q] by blast
  then show ?thesis using snoc n by (simp add: relink_nodes_def relink_head_def)
qed


lemma delete_rb_present:
  assumes hp: "hp_ok st t" and wf: "list_wf st as" and al: "alloc_ok (Suc (Suc b)) st"
    and rr: "retire_ready_rb (Suc (Suc b)) st t"
    and as: "as = pre @ c # d # ds" and lt: "\<forall>x\<in>set pre. key_of (nodes st) x < k"
    and kc: "key_of (nodes st) c = k" and fuel: "length as + 3 \<le> fuel"
  shows "\<exists>N H f R B C.
           list_delete fuel list_node_delete_rb t k st
             = Inr (True, st\<lparr>nodes := N, l_head := H, hp := (hp st)(t := f),
                              used := Suc (Suc (used st)),
                              rl := (rl st)(t := avail st (Suc (used st))),
                              roots := R, rbs := B, recs := C\<rparr>)
         \<and> list_wf (st\<lparr>nodes := N, l_head := H, hp := (hp st)(t := f),
                              used := Suc (Suc (used st)),
                              rl := (rl st)(t := avail st (Suc (used st))),
                              roots := R, rbs := B, recs := C\<rparr>) (pre @ d # ds)
         \<and> alloc_ok b (st\<lparr>nodes := N, l_head := H, hp := (hp st)(t := f),
                              used := Suc (Suc (used st)),
                              rl := (rl st)(t := avail st (Suc (used st))),
                              roots := R, rbs := B, recs := C\<rparr>)
         \<and> retire_ready_rb b (st\<lparr>nodes := N, l_head := H, hp := (hp st)(t := f),
                              used := Suc (Suc (used st)),
                              rl := (rl st)(t := avail st (Suc (used st))),
                              roots := R, rbs := B, recs := C\<rparr>) t
         \<and> N c = None \<and> dom N \<subseteq> dom (nodes st)
         \<and> (\<forall>x\<in>set (pre @ d # ds). key_of N x = key_of (nodes st) x)
         \<and> (\<forall>j<nat (max_hps st). f j = 0)"
proof -
  obtain n where fuel_eq: "fuel = Suc n" and n: "length as + 2 \<le> n"
    using fuel by (cases fuel) auto
  have n2: "2 \<le> n" using n by simp
  have t: "t < HP_MAX_THREADS" using hp by (simp add: hp_ok_def)
  have "\<exists>f. list_find n list_node_delete_rb t k (LNull, 0, 0) st =
           Inr (d # ds \<noteq> [] \<and> key_of (nodes st) c = k,
                (after LHead pre, c, if d # ds = [] then l_tail st else hd (d # ds)),
                st\<lparr>hp := (hp st)(t := f)\<rparr>)"
    by (rule find_rb_spec[OF t wf as lt _ n]) (use kc in simp)
  then obtain f where f: "list_find n list_node_delete_rb t k (LNull, 0, 0) st =
           Inr (True, (after LHead pre, c, d), st\<lparr>hp := (hp st)(t := f)\<rparr>)"
    using kc by auto
  define st2 where "st2 = st\<lparr>hp := (hp st)(t := f)\<rparr>"
  have ch: "chain (nodes st) (l_head st) (pre @ c # d # ds) (l_tail st)"
    using list_wfD(2)[OF wf] as by simp
  obtain nc where nc: "nodes st c = Some nc" "nxt nc = d"
    using chain_mid_nxt[OF ch] by auto
  have mc: "magic nc = LIST_MAGIC" using list_wfD(8)[OF wf, of c] nc as by auto
  have pl: "plain c" "plain d" using list_wfD(7)[OF wf] as by auto
  have dis: "distinct (pre @ c # d # ds)" using list_wfD(3)[OF wf] as by simp
  define st3 where "st3 = st2\<lparr>nodes := (nodes st2)(c \<mapsto> nc\<lparr>nxt := get_marked d\<rparr>)\<rparr>"
  have cas1: "cas (LNext c) (get_unmarked d) (get_marked d) st2 = Inr (True, st3)"
    using nc pl by (simp add: cas_def st2_def st3_def plain_def)
  \<comment> \<open>the prefix still leads to c\<close>
  obtain mid where c1: "chain (nodes st) (l_head st) pre mid"
    and c2: "chain (nodes st) mid (c # d # ds) (l_tail st)"
    using ch chain_append[of "nodes st" "l_head st" pre "c # d # ds" "l_tail st"] by auto
  have midc: "mid = c" using c2 by simp
  have c1': "chain (nodes st3) (l_head st3) pre c"
  proof -
    have "chain (nodes st3) (l_head st) pre mid"
      by (rule chain_cong[OF _ c1]) (use dis in \<open>auto simp: st3_def st2_def\<close>)
    then show ?thesis using midc by (simp add: st3_def st2_def)
  qed
  have pc3: "chain (nodes st3) (l_head st3) (pre @ c # []) (get_marked d)"
    using c1' chain_append[of "nodes st3" "l_head st3" pre "[c]" "get_marked d"]
    by (auto simp: st3_def)
  define st4 where "st4 = st3\<lparr>nodes := relink_nodes (nodes st3) pre d,
                            l_head := relink_head (l_head st3) pre d\<rparr>"
  have cas2: "cas (after LHead pre) (get_unmarked c) (get_unmarked d) st3 = Inr (True, st4)"
    using cas_after_ok[OF pc3, of d] pl by (simp add: st4_def plain_def)
  have hp4: "hp_ok st4 t" using hp by (simp add: hp_ok_def st4_def st3_def st2_def)
  define st5 where "st5 = st4\<lparr>hp := (hp st4)(t := cleared (nat (max_hps st4)) (hp st4 t))\<rparr>"
  have clr: "list_hp_clear t st4 = Inr st5"
    using list_hp_clear_ok[OF hp4] by (simp add: st5_def)
  \<comment> \<open>the new chain, still with c allocated\<close>
  have suf3: "chain (nodes st3) d (d # ds) (l_tail st)"
  proof -
    have "chain (nodes st) d (d # ds) (l_tail st)" using c2 nc by simp
    then show ?thesis
      by (rule chain_cong[rotated]) (use dis in \<open>auto simp: st3_def st2_def\<close>)
  qed
  have dp: "distinct pre" "set (d # ds) \<inter> set pre = {}" using dis by auto
  have ch4: "chain (nodes st4) (l_head st4) (pre @ d # ds) (l_tail st)"
    using chain_relink2[OF pc3 dp(1) suf3 dp(2)] by (simp add: st4_def)
  have c_pre: "c \<notin> set pre" "c \<notin> set (d # ds)" using dis by auto
  have n4c: "nodes st4 c = Some (nc\<lparr>nxt := get_marked d\<rparr>)"
    using relink_nodes_other[OF c_pre(1), of "nodes st3" d] by (simp add: st4_def st3_def)
  have dom4: "dom (nodes st4) = dom (nodes st)"
    using nc by (auto simp: st4_def relink_nodes_dom st3_def st2_def)
  have k3: "\<And>x. key_of (nodes st3) x = key_of (nodes st) x"
    using nc by (auto simp: st3_def st2_def key_of_def)
  have k4: "\<And>x. key_of (nodes st4) x = key_of (nodes st) x"
    unfolding k3[symmetric] by (simp add: st4_def relink_nodes_key)
  have mg4: "\<And>x. x \<in> set as \<Longrightarrow> \<exists>m. nodes st4 x = Some m \<and> magic m = LIST_MAGIC"
  proof -
    fix x assume "x \<in> set as"
    from list_wfD(8)[OF wf this] obtain m where m: "nodes st x = Some m" "magic m = LIST_MAGIC"
      by auto
    then obtain m3 where m3: "nodes st3 x = Some m3" "magic m3 = LIST_MAGIC"
      using nc mc by (cases "x = c") (auto simp: st3_def st2_def)
    from relink_nodes_magic[of "nodes st3" x m3 pre d] m3
    show "\<exists>m. nodes st4 x = Some m \<and> magic m = LIST_MAGIC" by (auto simp: st4_def)
  qed
  \<comment> \<open>the retire\<close>
  have f5: "nodes st5 = nodes st4" "l_head st5 = l_head st4" "l_tail st5 = l_tail st"
    "used st5 = used st" "avail st5 = avail st" "max_hps st5 = max_hps st"
    "rl st5 = rl st" "roots st5 = roots st" "rbs st5 = rbs st"
    "\<And>i. i \<noteq> t \<Longrightarrow> hp st5 i = hp st i"
    by (simp_all add: st5_def st4_def st3_def st2_def)
  have hp5: "hp_ok st5 t" using hp f5 by (simp add: hp_ok_def)
  have al5: "alloc_ok (Suc (Suc b)) st5"
    by (rule alloc_ok_mono[OF al]) (simp_all add: f5 dom4)
  have rr5: "retire_ready_rb (Suc (Suc b)) st5 t"
    using rr f5 by (auto simp: retire_ready_rb_def root_empty_def window_def)
  have v5: "nodes st5 c = Some (nc\<lparr>nxt := get_marked d\<rparr>)" using n4c f5 by simp
  have "\<exists>R B C. list_hp_retire_rb n list_node_delete_rb t c st5
            = Inr (st5\<lparr>nodes := (nodes st5)(c := None), used := Suc (Suc (used st5)),
                       rl := (rl st5)(t := avail st5 (Suc (used st5))),
                       roots := R, rbs := B, recs := C\<rparr>)
          \<and> retire_ready_rb b (st5\<lparr>nodes := (nodes st5)(c := None), used := Suc (Suc (used st5)),
                       rl := (rl st5)(t := avail st5 (Suc (used st5))),
                       roots := R, rbs := B, recs := C\<rparr>) t"
    by (rule retire_rb_ok[OF hp5 al5 rr5 v5 _ _ n2]) (use mc pl in \<open>auto simp: plain_def\<close>)
  then obtain R B C where ret: "list_hp_retire_rb n list_node_delete_rb t c st5
            = Inr (st5\<lparr>nodes := (nodes st5)(c := None), used := Suc (Suc (used st5)),
                       rl := (rl st5)(t := avail st5 (Suc (used st5))),
                       roots := R, rbs := B, recs := C\<rparr>)"
    and rr6': "retire_ready_rb b (st5\<lparr>nodes := (nodes st5)(c := None), used := Suc (Suc (used st5)),
                       rl := (rl st5)(t := avail st5 (Suc (used st5))),
                       roots := R, rbs := B, recs := C\<rparr>) t"
    by blast
  define st6 where "st6 = st5\<lparr>nodes := (nodes st5)(c := None), used := Suc (Suc (used st5)),
                       rl := (rl st5)(t := avail st5 (Suc (used st5))),
                       roots := R, rbs := B, recs := C\<rparr>"
  have run: "list_delete fuel list_node_delete_rb t k st = Inr (True, st6)"
    using f cas1 cas2 clr ret pl
    by (simp add: list_delete_def fuel_eq st2_def[symmetric] st6_def plain_def)
  have f6: "nodes st6 = (nodes st4)(c := None)" "l_head st6 = l_head st4" "l_tail st6 = l_tail st"
    "used st6 = Suc (Suc (used st))" "avail st6 = avail st"
    by (simp_all add: st6_def f5)
  have wf6: "list_wf st6 (pre @ d # ds)"
  proof (rule list_wfI)
    show "pre @ d # ds \<noteq> []" by simp
    have "chain ((nodes st4)(c := None)) (l_head st4) (pre @ d # ds) (l_tail st)"
      by (rule chain_cong[OF _ ch4]) (use c_pre in auto)
    then show "chain (nodes st6) (l_head st6) (pre @ d # ds) (l_tail st6)" by (simp add: f6)
    show "distinct (pre @ d # ds)" using dis by auto
    show "l_tail st6 \<notin> set (pre @ d # ds)" using list_wfD(4)[OF wf] as f6 by auto
    show "plain (l_tail st6)" using list_wfD(5)[OF wf] f6 by simp
    have "l_tail st \<noteq> c" using list_wfD(4)[OF wf] as by auto
    then show "l_tail st6 \<in> dom (nodes st6)" using list_wfD(6)[OF wf] dom4 f6 by auto
    show "\<And>x. x \<in> set (pre @ d # ds) \<Longrightarrow> plain x" using list_wfD(7)[OF wf] as by auto
    show "\<And>x. x \<in> set (pre @ d # ds) \<Longrightarrow> \<exists>n. nodes st6 x = Some n \<and> magic n = LIST_MAGIC"
    proof -
      fix x assume x: "x \<in> set (pre @ d # ds)"
      then have "x \<in> set as" "x \<noteq> c" using as dis by auto
      then show "\<exists>n. nodes st6 x = Some n \<and> magic n = LIST_MAGIC" using mg4[of x] f6 by auto
    qed
  qed
  have al6: "alloc_ok b st6"
    by (rule alloc_ok_mono[OF al]) (auto simp: f6 dom4[symmetric])
  have rr6: "retire_ready_rb b st6 t" using rr6' by (simp add: st6_def)
  have k6: "\<And>x. x \<in> set (pre @ d # ds) \<Longrightarrow> key_of (nodes st6) x = key_of (nodes st) x"
  proof -
    fix x assume "x \<in> set (pre @ d # ds)"
    then have "x \<noteq> c" using dis by auto
    then show "key_of (nodes st6) x = key_of (nodes st) x"
      using k4[of x] by (simp add: f6 key_of_def)
  qed
  have eq: "st6 = st\<lparr>nodes := nodes st6, l_head := l_head st6,
                      hp := (hp st)(t := cleared (nat (max_hps st)) f),
                      used := Suc (Suc (used st)),
                      rl := (rl st)(t := avail st (Suc (used st))),
                      roots := R, rbs := B, recs := C\<rparr>"
    by (simp add: st6_def st5_def st4_def st3_def st2_def)
  have d6: "nodes st6 c = None" "dom (nodes st6) \<subseteq> dom (nodes st)"
    using dom4 by (auto simp: f6)
  show ?thesis
    apply (rule exI[where x="nodes st6"], rule exI[where x="l_head st6"],
           rule exI[where x="cleared (nat (max_hps st)) f"],
           rule exI[where x=R], rule exI[where x=B], rule exI[where x=C])
    using run wf6 al6 rr6 k6 d6 unfolding eq[symmetric] by simp
qed

section \<open>The ordered find, insert and delete; retiring into an empty array\<close>


lemma find_do_step:
  assumes "t < HP_MAX_THREADS" "\<not> is_marked y" "plain x" "y \<noteq> l_tail st"
    "nodes st y = Some ny" "\<not> is_marked (nxt ny)" "key ny < k"
  shows "find_do (Suc m) t k prev x y st
           = find_do m t k (LNext x) y (nxt ny)
               (st\<lparr>hp := (hp st)(t := (hp st t)(HP_PREV := x, HP_CURR := y, HP_NEXT := nxt ny))\<rparr>)"
  using assms
  by (simp add: plain_def list_hp_protect_ptr_def list_hp_protect_release_def Let_def)

lemma find_do_stop_key:
  assumes "t < HP_MAX_THREADS" "\<not> is_marked y" "plain x" "y \<noteq> l_tail st"
    "nodes st y = Some ny" "\<not> is_marked (nxt ny)" "\<not> key ny < k"
  shows "find_do (Suc m) t k prev x y st
           = Inr ((LNext x, y, nxt ny),
               st\<lparr>hp := (hp st)(t := (hp st t)(HP_PREV := x, HP_CURR := y, HP_NEXT := nxt ny))\<rparr>)"
  using assms
  by (simp add: plain_def list_hp_protect_ptr_def list_hp_protect_release_def Let_def)

lemma find_do_stop_tail:
  assumes "t < HP_MAX_THREADS" "\<not> is_marked y" "plain x" "y = l_tail st"
  shows "find_do (Suc m) t k prev x y st
           = Inr ((LNext x, y, y),
               st\<lparr>hp := (hp st)(t := (hp st t)(HP_PREV := x, HP_CURR := y))\<rparr>)"
  using assms
  by (simp add: plain_def list_hp_protect_ptr_def list_hp_protect_release_def Let_def)

lemma find_do_walk:
  assumes t: "t < HP_MAX_THREADS"
  shows "chain (nodes st) y (mid @ [c]) q \<Longrightarrow> \<forall>z\<in>set mid. plain z \<and> key_of (nodes st) z < k \<Longrightarrow>
     plain c \<Longrightarrow> plain x \<Longrightarrow> l_tail st \<notin> set mid \<Longrightarrow>
     \<exists>f p. find_do (length mid + m) t k prev x y st =
          find_do m t k p (last (x # mid)) c (st\<lparr>hp := (hp st)(t := f)\<rparr>)"
proof (induction mid arbitrary: x y prev st)
  case Nil
  have "st\<lparr>hp := (hp st)(t := hp st t)\<rparr> = st" by simp
  then have "find_do (length [] + m) t k prev x y st =
          find_do m t k prev (last (x # [])) c (st\<lparr>hp := (hp st)(t := hp st t)\<rparr>)"
    using Nil.prems(1) by (simp split: option.splits)
  then show ?case by blast
next
  case (Cons z mid)
  from Cons.prems(1) obtain n where yz: "y = z" and n: "nodes st z = Some n"
    and ch: "chain (nodes st) (nxt n) (mid @ [c]) q"
    by (auto split: option.splits)
  have pz: "plain z" "key n < k" using Cons.prems(2) n by (auto simp: key_of_def)
  have nx: "nxt n = hd (mid @ [c])" using ch by (cases mid) (auto split: option.splits)
  have pn: "plain (nxt n)" using nx Cons.prems(2,3) by (cases mid) auto
  have nt: "z \<noteq> l_tail st" using Cons.prems(5) by auto
  define st1 where "st1 = st\<lparr>hp := (hp st)(t := (hp st t)(HP_PREV := x, HP_CURR := z, HP_NEXT := nxt n))\<rparr>"
  have step: "find_do (Suc (length mid + m)) t k prev x z st
              = find_do (length mid + m) t k (LNext x) z (nxt n) st1"
    unfolding st1_def
    by (rule find_do_step) (use t n pz pn nt Cons.prems(4) in \<open>auto simp: plain_def\<close>)
  have "\<exists>f p. find_do (length mid + m) t k (LNext x) z (nxt n) st1 =
          find_do m t k p (last (z # mid)) c (st1\<lparr>hp := (hp st1)(t := f)\<rparr>)"
    apply (rule Cons.IH)
    using ch Cons.prems n pz by (auto simp: st1_def)
  then obtain f p where f: "find_do (length mid + m) t k (LNext x) z (nxt n) st1 =
          find_do m t k p (last (z # mid)) c (st1\<lparr>hp := (hp st1)(t := f)\<rparr>)" by blast
  have s: "st1\<lparr>hp := (hp st1)(t := f)\<rparr> = st\<lparr>hp := (hp st)(t := f)\<rparr>" by (simp add: st1_def)
  have "find_do (length (z # mid) + m) t k prev x y st =
          find_do m t k p (last (x # z # mid)) c (st\<lparr>hp := (hp st)(t := f)\<rparr>)"
    using step f yz unfolding s by simp
  then show ?case by blast
qed

lemma list_wf_ext:
  assumes "list_wf st as"
  shows "\<exists>q. chain (nodes st) (l_head st) (as @ [l_tail st]) q"
    "distinct (as @ [l_tail st])" "\<forall>a\<in>set (as @ [l_tail st]). plain a"
proof -
  obtain n where "nodes st (l_tail st) = Some n" using list_wfD(6)[OF assms] by auto
  then have "chain (nodes st) (l_tail st) [l_tail st] (nxt n)" by simp
  then have "chain (nodes st) (l_head st) (as @ [l_tail st]) (nxt n)"
    using list_wfD(2)[OF assms] chain_append[of "nodes st" "l_head st" as "[l_tail st]" "nxt n"] by blast
  then show "\<exists>q. chain (nodes st) (l_head st) (as @ [l_tail st]) q" by blast
  show "distinct (as @ [l_tail st])" using list_wfD(3,4)[OF assms] by simp
  show "\<forall>a\<in>set (as @ [l_tail st]). plain a" using list_wfD(5,7)[OF assms] by auto
qed

lemma find_result_node:
  assumes "nodes st c = Some n" "c \<noteq> l_tail st" "\<not> is_marked (nxt n)" "plain c"
  shows "find_ordered_result k (prev, c, nx) st = Inr (Some (key n = k), (prev, c, nx), st)"
  using assms by (simp add: find_ordered_result_def plain_def)

lemma find_result_tail:
  assumes "nodes st c = Some n" "c = l_tail st" "plain c"
  shows "find_ordered_result k (prev, c, nx) st = Inr (Some (key n = k), (prev, c, nx), st)"
  using assms by (simp add: find_ordered_result_def plain_def)

lemma find_ordered_spec:
  assumes t: "t < HP_MAX_THREADS" and wf: "list_wf st as"
    and ext: "as @ [l_tail st] = pre @ c # post" and pre: "pre \<noteq> []"
    and lt: "\<forall>x\<in>set (tl pre). key_of (nodes st) x < k"
    and stop: "post = [] \<or> \<not> key_of (nodes st) c < k"
    and fuel: "length as + 3 \<le> fuel"
  shows "\<exists>f. list_find_ordered fuel t k LHead st =
           Inr (key_of (nodes st) c = k,
                (after LHead pre, c, if post = [] then c else hd post),
                st\<lparr>hp := (hp st)(t := f)\<rparr>)"
proof -
  obtain h mid where hm: "pre = h # mid" using pre by (cases pre) auto
  obtain q where ch: "chain (nodes st) (l_head st) (pre @ c # post) q"
    and dis: "distinct (pre @ c # post)" and pl: "\<forall>a\<in>set (pre @ c # post). plain a"
    using list_wf_ext[OF wf] unfolding ext by blast
  have len: "length mid + 1 \<le> length as" using arg_cong[OF ext, of length] hm by simp
  define m where "m = fuel - length mid - 3"
  have fuel_eq: "fuel = Suc (Suc (length mid + Suc m))"
    using fuel len by (simp add: m_def)
  have h0: "l_head st = h" using ch hm by simp
  obtain nh where nh: "nodes st h = Some nh" and ch1: "chain (nodes st) (nxt nh) (mid @ c # post) q"
    using ch hm by (auto split: option.splits)
  have ph: "plain h" using pl hm by simp
  have y: "nxt nh = hd (mid @ [c])" using ch1 by (cases mid) (auto split: option.splits)
  have py: "plain (nxt nh)" using y pl hm by (cases mid) auto
  define st1 where "st1 = st\<lparr>hp := (hp st)(t := (hp st t)(HP_CURR := h, HP_NEXT := nxt nh))\<rparr>"
  define n1 where "n1 = length mid + Suc m"
  have fuel1: "fuel = Suc (Suc n1)" using fuel_eq by (simp add: n1_def)
  have e: "list_find_ordered fuel t k LHead st
     = bindE (find_do n1 t k LHead h (nxt nh) st1) (\<lambda>((prev, cur, nx), st).
     bindE (load prev st) (\<lambda>v.
     if v = get_unmarked cur then
       bindE (find_ordered_result k (prev, cur, nx) st) (\<lambda>(r, ou, st).
       case r of None \<Rightarrow> list_find_ordered n1 t k LHead st
               | Some b \<Rightarrow> Inr (b, ou, st))
     else
       bindE (cas prev (get_unmarked cur) (get_unmarked cur) st) (\<lambda>(ok, st).
       if ok then
         bindE (find_ordered_result k (prev, cur, nx) st) (\<lambda>(r, ou, st).
         case r of None \<Rightarrow> list_find_ordered n1 t k LHead st
                 | Some b \<Rightarrow> Inr (b, ou, st))
       else
         bindE (load prev st) (\<lambda>cur.
         bindE (list_hp_protect_release t HP_CURR (get_unmarked cur) st) (\<lambda>st.
         bindE (load prev st) (\<lambda>v.
         if v \<noteq> get_unmarked cur then list_find_ordered n1 t k LHead st
         else find_ordered_loop n1 t k LHead prev cur st))))))"
    unfolding fuel1 st1_def using t h0 nh ph py
    by (simp add: list_hp_protect_ptr_def plain_def del: find_do.simps)
  obtain q1 where c1: "chain (nodes st) (nxt nh) (mid @ [c]) q1"
    and c2: "chain (nodes st) q1 post q"
    using ch1 chain_append[of "nodes st" "nxt nh" "mid @ [c]" post q] by auto
  have tl_mid: "l_tail st \<notin> set mid"
  proof
    assume a: "l_tail st \<in> set mid"
    have "last (as @ [l_tail st]) = l_tail st" by simp
    then have "last (pre @ c # post) = l_tail st" using ext by simp
    then have "l_tail st \<in> set (c # post)" by (metis last_appendR last_in_set list.discI)
    then show False using a dis hm by auto
  qed
  have "\<exists>f p. find_do n1 t k LHead h (nxt nh) st1 =
          find_do (Suc m) t k p (last (h # mid)) c (st1\<lparr>hp := (hp st1)(t := f)\<rparr>)"
    unfolding n1_def
    apply (rule find_do_walk[OF t, where q=q1])
    using c1 pl hm lt tl_mid by (auto simp: st1_def)
  then obtain f p where w: "find_do n1 t k LHead h (nxt nh) st1 =
          find_do (Suc m) t k p (last pre) c (st1\<lparr>hp := (hp st1)(t := f)\<rparr>)"
    unfolding hm by blast
  define st2 where "st2 = st\<lparr>hp := (hp st)(t := f)\<rparr>"
  have s2: "st1\<lparr>hp := (hp st1)(t := f)\<rparr> = st2" by (simp add: st1_def st2_def)
  obtain n where n: "nodes st c = Some n" and nq: "nxt n = q1"
    using chain_last_nxt[OF c1] by auto
  have pc: "plain c" "plain (last pre)" using pl pre by auto
  have af: "after LHead pre = LNext (last pre)" using pre by (simp add: after_def)
  have ld: "load (LNext (last pre)) st = Inr c" using load_after[OF ch] af by simp
  show ?thesis
  proof (cases "post = []")
    case True
    then have ct: "c = l_tail st" using ext by (metis last_snoc)
    define st3 where "st3 = st\<lparr>hp := (hp st)(t := f(HP_PREV := last pre, HP_CURR := c))\<rparr>"
    have "find_do (Suc m) t k p (last pre) c st2 = Inr ((LNext (last pre), c, c),
               st2\<lparr>hp := (hp st2)(t := (hp st2 t)(HP_PREV := last pre, HP_CURR := c))\<rparr>)"
      by (rule find_do_stop_tail) (use t pc ct in \<open>auto simp: st2_def plain_def\<close>)
    then have d: "find_do n1 t k LHead h (nxt nh) st1 = Inr ((LNext (last pre), c, c), st3)"
      using w s2 by (simp add: st2_def st3_def)
    have r: "find_ordered_result k (LNext (last pre), c, c) st3
              = Inr (Some (key n = k), (LNext (last pre), c, c), st3)"
      by (rule find_result_tail) (use n ct pc in \<open>auto simp: st3_def\<close>)
    have "list_find_ordered fuel t k LHead st = Inr (key n = k, (LNext (last pre), c, c), st3)"
      unfolding e d using ld pc r by (simp add: st3_def plain_def)
    then have "list_find_ordered fuel t k LHead st =
           Inr (key_of (nodes st) c = k,
                (after LHead pre, c, if post = [] then c else hd post),
                st\<lparr>hp := (hp st)(t := f(HP_PREV := last pre, HP_CURR := c))\<rparr>)"
      using True n af by (simp add: key_of_def st3_def)
    then show ?thesis by blast
  next
    case False
    then obtain d ds where post: "post = d # ds" by (cases post) auto
    then have nd: "nxt n = d" using c2 nq by simp
    have dpl: "plain d" using pl post by auto
    have "last (pre @ c # post) = l_tail st" using ext by (metis last_snoc)
    then have "last (d # ds) = l_tail st" using post by simp
    then have "l_tail st \<in> set (d # ds)" by (metis last_in_set list.discI)
    then have cnt: "c \<noteq> l_tail st" using dis post by auto
    have kn: "\<not> key n < k" using stop False n by (simp add: key_of_def)
    define st3 where "st3 = st\<lparr>hp := (hp st)(t := f(HP_PREV := last pre, HP_CURR := c, HP_NEXT := d))\<rparr>"
    have "find_do (Suc m) t k p (last pre) c st2 = Inr ((LNext (last pre), c, nxt n),
               st2\<lparr>hp := (hp st2)(t := (hp st2 t)(HP_PREV := last pre, HP_CURR := c, HP_NEXT := nxt n))\<rparr>)"
      by (rule find_do_stop_key) (use t pc cnt n nd dpl kn in \<open>auto simp: st2_def plain_def\<close>)
    then have d: "find_do n1 t k LHead h (nxt nh) st1 = Inr ((LNext (last pre), c, d), st3)"
      using w s2 nd by (simp add: st2_def st3_def)
    have r: "find_ordered_result k (LNext (last pre), c, d) st3
              = Inr (Some (key n = k), (LNext (last pre), c, d), st3)"
      by (rule find_result_node) (use n cnt pc nd dpl in \<open>auto simp: st3_def plain_def\<close>)
    have "list_find_ordered fuel t k LHead st = Inr (key n = k, (LNext (last pre), c, d), st3)"
      unfolding e d using ld pc r by (simp add: st3_def plain_def)
    then have "list_find_ordered fuel t k LHead st =
           Inr (key_of (nodes st) c = k,
                (after LHead pre, c, if post = [] then c else hd post),
                st\<lparr>hp := (hp st)(t := f(HP_PREV := last pre, HP_CURR := c, HP_NEXT := d))\<rparr>)"
      using post n af by (simp add: key_of_def st3_def)
    then show ?thesis by blast
  qed
qed


lemma retire_arr_ok:
  assumes hp: "hp_ok st t" and rr: "retire_ready_arr st t"
    and own: "\<forall>j<nat (max_hps st). hp st t j \<noteq> v"
    and v: "nodes st v = Some nv" "magic nv = LIST_MAGIC" "v \<noteq> 0"
  shows "list_hp_retire_arr list_node_delete_arr t v st
               = Inr (st\<lparr>nodes := (nodes st)(v := None),
                        rl_list := (rl_list st)(t := (rl_list st t)(0 := rl_list st t 1))\<rparr>)"
proof -
  have sz: "rl_size st t = 0" and quiet: "\<And>i j. i \<noteq> t \<Longrightarrow> hp st i j = 0"
    using rr by (auto simp: retire_ready_arr_def)
  have mx: "nat (max_hps st) \<le> 2 * CLPAD" using hp by (simp add: hp_ok_def)
  define s1 where "s1 = st\<lparr>rl_list := (rl_list st)(t := (rl_list st t)(0 := v)),
                           rl_size := (rl_size st)(t := 1)\<rparr>"
  have app: "rl_append_arr t v st = Inr s1"
    using sz by (simp add: rl_append_arr_def s1_def HP_MAX_RETIRED_def HP_MAX_THREADS_def HP_MAX_HPS_def)
  have "\<forall>i<HP_MAX_THREADS. \<forall>j<nat (max_hps s1). hp s1 i j \<noteq> v"
  proof (intro allI impI)
    fix i j assume "i < HP_MAX_THREADS" "j < nat (max_hps s1)"
    then show "hp s1 i j \<noteq> v" using own quiet[of i j] v(3) by (cases "i = t") (auto simp: s1_def)
  qed
  then have can: "can_delete_tids v [0..<HP_MAX_THREADS] s1 = Inr True"
    using can_delete_all[of s1 v] mx by (simp add: s1_def)
  define L where "L = (rl_list s1)(t := (\<lambda>k. if 0 \<le> k \<and> k < 0 + (nat (rl_size s1 t) - 0) then rl_list s1 t (k + 1)
                                 else rl_list s1 t k))"
  define s2 where "s2 = s1\<lparr>rl_list := L, rl_size := (rl_size s1)(t := rl_size s1 t - 1)\<rparr>"
  have sz1: "rl_size s1 t = 1" by (simp add: s1_def)
  have rem: "rl_remove t 0 s1 = Inr s2"
    using sz1
    by (simp add: rl_remove_def s2_def L_def Let_def HP_MAX_RETIRED_def HP_MAX_THREADS_def HP_MAX_HPS_def)
  have del: "list_node_delete_arr v (nodes s2) = Inr ((nodes st)(v := None))"
    using v by (simp add: list_node_delete_arr_def list_node_destroy_def s2_def s1_def)
  define s3 where "s3 = s2\<lparr>nodes := (nodes st)(v := None)\<rparr>"
  have sc1: "scan_arr list_node_delete_arr t (0 + 1) s3 = Inr s3"
    by (subst scan_arr.simps) (simp add: s3_def s2_def s1_def del: scan_arr.simps)
  have l0: "rl_list s1 t 0 = v" by (simp add: s1_def)
  have sc0: "scan_arr list_node_delete_arr t 0 s1 = Inr s3"
    apply (subst scan_arr.simps)
    using can rem del sc1 sz1 l0
    by (simp add: s3_def[symmetric] HP_MAX_RETIRED_def HP_MAX_THREADS_def HP_MAX_HPS_def
             del: scan_arr.simps)
  have run: "list_hp_retire_arr list_node_delete_arr t v st = Inr s3"
    unfolding retire_arr_scans app using sc0
    by (simp add: s1_def HP_MAX_RETIRED_def HP_MAX_THREADS_def HP_MAX_HPS_def)
  have "(rl_size st)(t := 0) = rl_size st" using sz by (auto simp: fun_eq_iff)
  moreover have "L = (rl_list st)(t := (rl_list st t)(0 := rl_list st t 1))"
    using sz1 by (auto simp: L_def s1_def fun_eq_iff)
  ultimately have "s3 = st\<lparr>nodes := (nodes st)(v := None),
                        rl_list := (rl_list st)(t := (rl_list st t)(0 := rl_list st t 1))\<rparr>"
    by (simp add: s3_def s2_def s1_def)
  then show ?thesis using run by simp
qed


lemma ext_split:
  assumes wf: "list_wf st as" and as: "as = pre @ rest"
  shows "\<exists>post. as @ [l_tail st] = pre @ hd (rest @ [l_tail st]) # post
           \<and> (post = [] \<longleftrightarrow> rest = []) \<and> (rest \<noteq> [] \<longrightarrow> hd post = hd (tl rest @ [l_tail st]))"
  using as by (cases rest) auto

lemma chain_rest:
  assumes wf: "list_wf st as" and as: "as = pre @ rest"
  shows "chain (nodes st) (hd (rest @ [l_tail st])) rest (l_tail st)"
proof -
  obtain m where m: "chain (nodes st) m rest (l_tail st)"
    using list_wfD(2)[OF wf] as chain_append[of "nodes st" "l_head st" pre rest "l_tail st"] by auto
  then have "m = hd (rest @ [l_tail st])" by (cases rest) auto
  then show ?thesis using m by simp
qed

lemma find_ordered_at:
  assumes t: "t < HP_MAX_THREADS" and wf: "list_wf st as"
    and as: "as = pre @ rest" and pre: "pre \<noteq> []"
    and lt: "\<forall>x\<in>set (tl pre). key_of (nodes st) x < k"
    and stop: "\<not> key_of (nodes st) (hd (rest @ [l_tail st])) < k"
    and fuel: "length as + 3 \<le> fuel"
  shows "\<exists>f nx. list_find_ordered fuel t k LHead st =
           Inr (key_of (nodes st) (hd (rest @ [l_tail st])) = k,
                (after LHead pre, hd (rest @ [l_tail st]), nx),
                st\<lparr>hp := (hp st)(t := f)\<rparr>)
           \<and> nx = hd (tl (rest @ [l_tail st]) @ [l_tail st])"
proof -
  obtain post where ext: "as @ [l_tail st] = pre @ hd (rest @ [l_tail st]) # post"
    and post: "post = [] \<longleftrightarrow> rest = []"
    using ext_split[OF wf as] by blast
  have nx: "(if post = [] then hd (rest @ [l_tail st]) else hd post) = hd (tl (rest @ [l_tail st]) @ [l_tail st])"
    using ext as post by (cases rest) auto
  have "\<exists>f. list_find_ordered fuel t k LHead st =
           Inr (key_of (nodes st) (hd (rest @ [l_tail st])) = k,
                (after LHead pre, hd (rest @ [l_tail st]),
                 if post = [] then hd (rest @ [l_tail st]) else hd post),
                st\<lparr>hp := (hp st)(t := f)\<rparr>)"
    by (rule find_ordered_spec[OF t wf ext pre lt _ fuel]) (use stop in simp)
  then show ?thesis unfolding nx by blast
qed

lemma insert_arr_found:
  assumes hp: "hp_ok st t" and wf: "list_wf st as" and al: "alloc_ok (Suc b) st"
    and as: "as = pre @ rest" and pre: "pre \<noteq> []"
    and lt: "\<forall>x\<in>set (tl pre). key_of (nodes st) x < k"
    and found: "key_of (nodes st) (hd (rest @ [l_tail st])) = k"
    and fuel: "length as + 4 \<le> fuel"
  shows "\<exists>f. list_insert_conti fuel t k st
               = Inr (False, st\<lparr>hp := (hp st)(t := f), used := Suc (used st)\<rparr>)
             \<and> (\<forall>j<nat (max_hps st). f j = 0)"
proof -
  define a where "a = avail st (used st)"
  define new where "new = \<lparr>magic = LIST_MAGIC, nxt = 0, key = k\<rparr>"
  define st1 where "st1 = st\<lparr>nodes := (nodes st)(a \<mapsto> new), used := Suc (used st)\<rparr>"
  define c where "c = hd (rest @ [l_tail st])"
  have a: "a \<noteq> 0" "a \<notin> dom (nodes st)"
    using alloc_okD[OF al window_first] by (simp_all add: a_def)
  have new: "list_node_new k st = Inr (a, st1)"
    using list_node_new_ok[OF al] by (simp add: a_def st1_def new_def)
  have wf1: "list_wf st1 as"
    by (rule list_wf_cong[OF wf]) (use a in \<open>auto simp: st1_def\<close>)
  have cin: "c \<in> dom (nodes st)"
    using list_wf_set_dom[OF wf, of c] list_wfD(6)[OF wf] as by (cases rest) (auto simp: c_def)
  have keys: "\<And>x. x \<in> dom (nodes st) \<Longrightarrow> key_of (nodes st1) x = key_of (nodes st) x"
    using a by (auto simp: st1_def key_of_def)
  have keys': "\<And>x. x \<in> set as \<Longrightarrow> key_of (nodes st1) x = key_of (nodes st) x"
    using keys list_wf_set_dom[OF wf] by blast
  obtain n where fuel_eq: "fuel = Suc n" and n: "length as + 3 \<le> n"
    using fuel by (cases fuel) auto
  have t: "t < HP_MAX_THREADS" using hp by (simp add: hp_ok_def)
  have tl1: "l_tail st1 = l_tail st" by (simp add: st1_def)
  have lt1: "\<forall>x\<in>set (tl pre). key_of (nodes st1) x < k"
  proof
    fix x assume x: "x \<in> set (tl pre)"
    then have "x \<in> set as" using as pre by (cases pre) auto
    then show "key_of (nodes st1) x < k" using keys' lt x by simp
  qed
  have "\<exists>f nx. list_find_ordered n t k LHead st1 =
           Inr (key_of (nodes st1) (hd (rest @ [l_tail st1])) = k,
                (after LHead pre, hd (rest @ [l_tail st1]), nx),
                st1\<lparr>hp := (hp st1)(t := f)\<rparr>)
           \<and> nx = hd (tl (rest @ [l_tail st1]) @ [l_tail st1])"
    by (rule find_ordered_at[OF t wf1 as pre lt1 _ n])
       (use found keys[OF cin] in \<open>simp add: tl1 c_def\<close>)
  then obtain f nx where f: "list_find_ordered n t k LHead st1 =
           Inr (True, (after LHead pre, c, nx), st1\<lparr>hp := (hp st1)(t := f)\<rparr>)"
    using found keys[OF cin] by (auto simp: tl1 c_def)
  define st2 where "st2 = st1\<lparr>hp := (hp st1)(t := f)\<rparr>"
  have "insert_fail t a st2
    = Inr (False, st2\<lparr>nodes := (nodes st2)(a := None),
                     hp := (hp st2)(t := cleared (nat (max_hps st2)) (hp st2 t))\<rparr>)"
    by (rule insert_fail_ok[where n=new]) (use hp a in \<open>auto simp: st2_def st1_def hp_ok_def new_def\<close>)
  moreover have "(nodes st)(a := None) = nodes st" using a by (auto simp: fun_eq_iff)
  ultimately have fail: "insert_fail t a st2
    = Inr (False, st\<lparr>hp := (hp st)(t := cleared (nat (max_hps st)) f),
                     used := Suc (used st)\<rparr>)"
    by (simp add: st2_def st1_def)
  have "list_insert_conti fuel t k st
               = Inr (False, st\<lparr>hp := (hp st)(t := cleared (nat (max_hps st)) f),
                     used := Suc (used st)\<rparr>)"
    using new f fail by (simp add: list_insert_conti_def fuel_eq st2_def)
  then show ?thesis by (intro exI[where x="cleared (nat (max_hps st)) f"]) simp
qed



lemma insert_arr_new:
  assumes hp: "hp_ok st t" and wf: "list_wf st as" and al: "alloc_ok (Suc b) st"
    and as: "as = pre @ rest" and pre: "pre \<noteq> []"
    and lt: "\<forall>x\<in>set (tl pre). key_of (nodes st) x < k"
    and stop: "k < key_of (nodes st) (hd (rest @ [l_tail st]))"
    and fuel: "length as + 4 \<le> fuel"
  shows "\<exists>N f. list_insert_conti fuel t k st
               = Inr (True, st\<lparr>nodes := N, hp := (hp st)(t := f), used := Suc (used st)\<rparr>)
             \<and> list_wf (st\<lparr>nodes := N, hp := (hp st)(t := f), used := Suc (used st)\<rparr>)
                  (pre @ avail st (used st) # rest)
             \<and> alloc_ok b (st\<lparr>nodes := N, hp := (hp st)(t := f), used := Suc (used st)\<rparr>)
             \<and> key_of N (avail st (used st)) = k
             \<and> (\<forall>x\<in>dom (nodes st). key_of N x = key_of (nodes st) x)
             \<and> (\<forall>j<nat (max_hps st). f j = 0)"
proof -
  define a where "a = avail st (used st)"
  define new where "new = \<lparr>magic = LIST_MAGIC, nxt = 0, key = k\<rparr>"
  define st1 where "st1 = st\<lparr>nodes := (nodes st)(a \<mapsto> new), used := Suc (used st)\<rparr>"
  define c where "c = hd (rest @ [l_tail st])"
  have a: "a \<noteq> 0" "a \<notin> dom (nodes st)" "aligned a"
    using alloc_okD[OF al window_first] by (simp_all add: a_def)
  have a_as: "a \<notin> set as" using a(2) list_wf_set_dom[OF wf] by blast
  have a_tl: "a \<noteq> l_tail st" using a(2) list_wfD(6)[OF wf] by auto
  have new: "list_node_new k st = Inr (a, st1)"
    using list_node_new_ok[OF al] by (simp add: a_def st1_def new_def)
  have wf1: "list_wf st1 as"
    by (rule list_wf_cong[OF wf]) (use a in \<open>auto simp: st1_def\<close>)
  have cin: "c \<in> set as \<or> c = l_tail st" using as by (cases rest) (auto simp: c_def)
  then have cdom: "c \<in> dom (nodes st)" using list_wf_set_dom[OF wf, of c] list_wfD(6)[OF wf] by auto
  have cpl: "plain c" using cin list_wfD(5,7)[OF wf] by auto
  have keys: "\<And>x. x \<in> dom (nodes st) \<Longrightarrow> key_of (nodes st1) x = key_of (nodes st) x"
    using a by (auto simp: st1_def key_of_def)
  obtain n where fuel_eq: "fuel = Suc (Suc n)" and n: "length as + 3 \<le> Suc n"
    using fuel by (cases fuel; cases "fuel - 1") auto
  have t: "t < HP_MAX_THREADS" using hp by (simp add: hp_ok_def)
  have tl1: "l_tail st1 = l_tail st" by (simp add: st1_def)
  have lt1: "\<forall>x\<in>set (tl pre). key_of (nodes st1) x < k"
  proof
    fix x assume x: "x \<in> set (tl pre)"
    then have "x \<in> set as" using as pre by (cases pre) auto
    then show "key_of (nodes st1) x < k" using keys list_wf_set_dom[OF wf] lt x by simp
  qed
  have kc1: "key_of (nodes st1) c = key_of (nodes st) c" by (rule keys[OF cdom])
  have "\<exists>f nx. list_find_ordered (Suc n) t k LHead st1 =
           Inr (key_of (nodes st1) (hd (rest @ [l_tail st1])) = k,
                (after LHead pre, hd (rest @ [l_tail st1]), nx),
                st1\<lparr>hp := (hp st1)(t := f)\<rparr>)
           \<and> nx = hd (tl (rest @ [l_tail st1]) @ [l_tail st1])"
    by (rule find_ordered_at[OF t wf1 as pre lt1 _ n])
       (use stop kc1 in \<open>simp add: tl1 c_def\<close>)
  then obtain f nx where f0: "list_find_ordered (Suc n) t k LHead st1 =
           Inr (key_of (nodes st1) c = k, (after LHead pre, c, nx), st1\<lparr>hp := (hp st1)(t := f)\<rparr>)"
    unfolding tl1 c_def by blast
  have ne: "key_of (nodes st1) c \<noteq> k" using stop kc1 by (auto simp: c_def)
  have f: "list_find_ordered (Suc n) t k LHead st1 =
           Inr (False, (after LHead pre, c, nx), st1\<lparr>hp := (hp st1)(t := f)\<rparr>)"
    using f0 ne by simp
  define st2 where "st2 = st1\<lparr>hp := (hp st1)(t := f)\<rparr>"
  define st3 where "st3 = st2\<lparr>nodes := (nodes st2)(a \<mapsto> new\<lparr>nxt := c\<rparr>)\<rparr>"
  have store: "insert_store a c st2 = Inr st3"
    by (simp add: insert_store_def st3_def st2_def st1_def)
  obtain post where ext: "as @ [l_tail st] = pre @ c # post"
    using ext_split[OF wf as] unfolding c_def by blast
  obtain q where ch: "chain (nodes st) (l_head st) (pre @ c # post) q"
    using list_wf_ext(1)[OF wf] unfolding ext by blast
  have a_ext: "a \<notin> set (pre @ c # post)" using a_as a_tl unfolding ext[symmetric] by simp
  have n3: "\<And>x. x \<noteq> a \<Longrightarrow> nodes st3 x = nodes st x" "nodes st3 a = Some (new\<lparr>nxt := c\<rparr>)"
    by (simp_all add: st3_def st2_def st1_def)
  have n3': "\<And>x. x \<in> set (pre @ c # post) \<Longrightarrow> nodes st3 x = nodes st x"
  proof -
    fix x assume "x \<in> set (pre @ c # post)"
    then have "x \<noteq> a" using a_ext by blast
    then show "nodes st3 x = nodes st x" by (rule n3(1))
  qed
  have "chain (nodes st3) (l_head st) (pre @ c # post) q"
    by (rule chain_cong[OF n3' ch])
  then have ch3: "chain (nodes st3) (l_head st3) (pre @ c # post) q"
    by (simp add: st3_def st2_def st1_def)
  define st4 where "st4 = st3\<lparr>nodes := relink_nodes (nodes st3) pre a\<rparr>"
  have rh: "relink_head (l_head st3) pre a = l_head st3" using pre by (simp add: relink_head_def)
  have cas: "cas (after LHead pre) (get_unmarked c) a st3 = Inr (True, st4)"
    using cas_after_ok[OF ch3, of a] cpl rh by (simp add: st4_def plain_def)
  have hp4: "hp_ok st4 t" using hp by (simp add: hp_ok_def st4_def st3_def st2_def st1_def)
  define st5 where "st5 = st4\<lparr>hp := (hp st4)(t := cleared (nat (max_hps st4)) (hp st4 t))\<rparr>"
  have clr: "list_hp_clear t st4 = Inr st5"
    using list_hp_clear_ok[OF hp4] by (simp add: st5_def)
  have run: "list_insert_conti fuel t k st = Inr (True, st5)"
    using new f store cas clr by (simp add: list_insert_conti_def fuel_eq st2_def)
  \<comment> \<open>the new chain\<close>
  have "chain (nodes st) c rest (l_tail st)" using chain_rest[OF wf as] by (simp add: c_def)
  moreover have "\<And>x. x \<in> set rest \<Longrightarrow> nodes st3 x = nodes st x"
  proof -
    fix x assume "x \<in> set rest"
    then have "x \<noteq> a" using a_as as by auto
    then show "nodes st3 x = nodes st x" by (rule n3(1))
  qed
  ultimately have "chain (nodes st3) c rest (l_tail st)"
    by (rule chain_cong[rotated])
  then have suf: "chain (nodes st3) a (a # rest) (l_tail st)" by (simp add: n3(2))
  have dis: "distinct pre" "set (a # rest) \<inter> set pre = {}"
    using list_wfD(3)[OF wf] as a_as by auto
  have ch4: "chain (nodes st4) (l_head st4) (pre @ a # rest) (l_tail st)"
    using chain_relink2[OF ch3 dis(1) suf dis(2)] rh by (simp add: st4_def)
  have mg: "\<And>x. x \<in> set as \<or> x = a \<Longrightarrow> \<exists>m. nodes st4 x = Some m \<and> magic m = LIST_MAGIC"
  proof -
    fix x assume x: "x \<in> set as \<or> x = a"
    then obtain m where m: "nodes st3 x = Some m" "magic m = LIST_MAGIC"
      using list_wfD(8)[OF wf, of x] n3 a_as by (cases "x = a") (auto simp: new_def)
    from relink_nodes_magic[of "nodes st3" x m pre a] m(2) m(1)
    show "\<exists>m. nodes st4 x = Some m \<and> magic m = LIST_MAGIC"
      by (auto simp: st4_def)
  qed
  have tl4: "l_tail st \<in> dom (nodes st4)"
    using list_wfD(6)[OF wf] n3(1)[OF a_tl[symmetric]] by (auto simp: st4_def relink_nodes_dom)
  have f5: "nodes st5 = nodes st4" "l_head st5 = l_head st4" "l_tail st5 = l_tail st"
    by (simp_all add: st5_def st4_def st3_def st2_def st1_def)
  have wf5: "list_wf st5 (pre @ a # rest)"
  proof (rule list_wfI)
    show "pre @ a # rest \<noteq> []" by simp
    show "chain (nodes st5) (l_head st5) (pre @ a # rest) (l_tail st5)"
      using ch4 f5 by simp
    show "distinct (pre @ a # rest)"
      using list_wfD(3)[OF wf] as a_as by auto
    show "l_tail st5 \<notin> set (pre @ a # rest)"
      using list_wfD(4)[OF wf] as a_tl f5 by auto
    show "plain (l_tail st5)" using list_wfD(5)[OF wf] f5 by simp
    show "l_tail st5 \<in> dom (nodes st5)" using tl4 f5 by simp
    show "\<And>x. x \<in> set (pre @ a # rest) \<Longrightarrow> plain x"
      using list_wfD(7)[OF wf] as a(1) aligned_unmarked[OF a(3)] by (auto simp: plain_def)
    show "\<And>x. x \<in> set (pre @ a # rest) \<Longrightarrow> \<exists>n. nodes st5 x = Some n \<and> magic n = LIST_MAGIC"
    proof -
      fix x assume "x \<in> set (pre @ a # rest)"
      then have "x \<in> set as \<or> x = a" using as by auto
      from mg[OF this] show "\<exists>n. nodes st5 x = Some n \<and> magic n = LIST_MAGIC"
        using f5 by auto
    qed
  qed
  have al5: "alloc_ok b st5"
    by (rule alloc_ok_step[OF al])
       (auto simp: st5_def st4_def st3_def st2_def st1_def relink_nodes_dom a_def)
  have k4: "\<And>x. key_of (nodes st5) x = key_of (nodes st3) x"
    by (simp add: f5 st4_def relink_nodes_key)
  have k5: "key_of (nodes st5) a = k" "\<And>x. x \<in> dom (nodes st) \<Longrightarrow> key_of (nodes st5) x = key_of (nodes st) x"
  proof -
    show "key_of (nodes st5) a = k" unfolding k4 by (simp add: n3 key_of_def new_def)
    fix x assume "x \<in> dom (nodes st)"
    then have "x \<noteq> a" using a(2) by auto
    then show "key_of (nodes st5) x = key_of (nodes st) x"
      unfolding k4 using n3(1)[of x] by (simp add: key_of_def)
  qed
  have eq: "st5 = st\<lparr>nodes := nodes st5,
                      hp := (hp st)(t := cleared (nat (max_hps st)) f), used := Suc (used st)\<rparr>"
    by (simp add: st5_def st4_def st3_def st2_def st1_def)
  show ?thesis
    apply (rule exI[where x="nodes st5"], rule exI[where x="cleared (nat (max_hps st)) f"])
    using run wf5 al5 k5 unfolding eq[symmetric] a_def[symmetric] by simp
qed


lemma delete_arr_present:
  assumes hp: "hp_ok st t" and wf: "list_wf st as" and rr: "retire_ready_arr st t"
    and as: "as = pre @ c # rest" and pre: "pre \<noteq> []"
    and lt: "\<forall>x\<in>set (tl pre). key_of (nodes st) x < k"
    and kc: "key_of (nodes st) c = k" and fuel: "length as + 4 \<le> fuel"
  shows "\<exists>N f L.
           list_delete_once fuel list_node_delete_arr t k st
             = Inr (True, st\<lparr>nodes := N, hp := (hp st)(t := f), rl_list := L\<rparr>)
         \<and> list_wf (st\<lparr>nodes := N, hp := (hp st)(t := f), rl_list := L\<rparr>) (pre @ rest)
         \<and> retire_ready_arr (st\<lparr>nodes := N, hp := (hp st)(t := f), rl_list := L\<rparr>) t
         \<and> N c = None \<and> dom N \<subseteq> dom (nodes st)
         \<and> (\<forall>x\<in>dom N. key_of N x = key_of (nodes st) x)
         \<and> (\<forall>j<nat (max_hps st). f j = 0)"
proof -
  obtain n where fuel_eq: "fuel = Suc (Suc n)" and n: "length as + 3 \<le> Suc n"
    using fuel by (cases fuel; cases "fuel - 1") auto
  have t: "t < HP_MAX_THREADS" using hp by (simp add: hp_ok_def)
  define d where "d = hd (rest @ [l_tail st])"
  have "\<exists>f nx. list_find_ordered (Suc n) t k LHead st =
           Inr (key_of (nodes st) (hd ((c # rest) @ [l_tail st])) = k,
                (after LHead pre, hd ((c # rest) @ [l_tail st]), nx),
                st\<lparr>hp := (hp st)(t := f)\<rparr>)
           \<and> nx = hd (tl ((c # rest) @ [l_tail st]) @ [l_tail st])"
    by (rule find_ordered_at[OF t wf as pre lt _ n]) (use kc in simp)
  then obtain f nx where f0: "list_find_ordered (Suc n) t k LHead st =
           Inr (key_of (nodes st) (hd ((c # rest) @ [l_tail st])) = k,
                (after LHead pre, hd ((c # rest) @ [l_tail st]), nx),
                st\<lparr>hp := (hp st)(t := f)\<rparr>)"
    and nx: "nx = hd (tl ((c # rest) @ [l_tail st]) @ [l_tail st])" by blast
  have nxd: "nx = d" unfolding nx d_def by (cases rest) simp_all
  have f: "list_find_ordered (Suc n) t k LHead st =
           Inr (True, (after LHead pre, c, d), st\<lparr>hp := (hp st)(t := f)\<rparr>)"
    unfolding f0 using kc nxd by simp
  define st2 where "st2 = st\<lparr>hp := (hp st)(t := f)\<rparr>"
  have ch: "chain (nodes st) (l_head st) (pre @ c # rest) (l_tail st)"
    using list_wfD(2)[OF wf] as by simp
  obtain mid where c1: "chain (nodes st) (l_head st) pre mid"
    and c2: "chain (nodes st) mid (c # rest) (l_tail st)"
    using ch chain_append[of "nodes st" "l_head st" pre "c # rest" "l_tail st"] by auto
  have midc: "mid = c" using c2 by simp
  obtain nc where nc: "nodes st c = Some nc" and cr: "chain (nodes st) (nxt nc) rest (l_tail st)"
    using c2 by (auto split: option.splits)
  have nd: "nxt nc = d" using cr by (cases rest) (auto simp: d_def)
  have mc: "magic nc = LIST_MAGIC" using list_wfD(8)[OF wf, of c] nc as by auto
  have din: "d \<in> set as \<or> d = l_tail st" using as by (cases rest) (auto simp: d_def)
  have pl: "plain c" "plain d" using list_wfD(5,7)[OF wf] as din by auto
  have dis: "distinct (pre @ c # rest)" using list_wfD(3)[OF wf] as by simp
  define st3 where "st3 = st2\<lparr>nodes := (nodes st2)(c \<mapsto> nc\<lparr>nxt := d OR 1\<rparr>)\<rparr>"
  have fo: "fetch_or (LNext c) 1 st2 = Inr (d, st3)"
    using nc nd by (simp add: fetch_or_def st2_def st3_def)
  have c1': "chain (nodes st3) (l_head st3) pre c"
  proof -
    have "\<And>x. x \<in> set pre \<Longrightarrow> nodes st3 x = nodes st x"
    proof -
      fix x assume "x \<in> set pre"
      then have "x \<noteq> c" using dis by auto
      then show "nodes st3 x = nodes st x" by (simp add: st3_def st2_def)
    qed
    then have "chain (nodes st3) (l_head st) pre mid" using c1 by (rule chain_cong)
    then show ?thesis using midc by (simp add: st3_def st2_def)
  qed
  have pc3: "chain (nodes st3) (l_head st3) (pre @ c # []) (d OR 1)"
    using c1' chain_append[of "nodes st3" "l_head st3" pre "[c]" "d OR 1"]
    by (auto simp: st3_def)
  define st4 where "st4 = st3\<lparr>nodes := relink_nodes (nodes st3) pre d\<rparr>"
  have rh: "relink_head (l_head st3) pre d = l_head st3" using pre by (simp add: relink_head_def)
  have cas2: "cas (after LHead pre) (get_unmarked c) (get_unmarked d) st3 = Inr (True, st4)"
    using cas_after_ok[OF pc3, of d] pl rh by (simp add: st4_def plain_def)
  have hp4: "hp_ok st4 t" using hp by (simp add: hp_ok_def st4_def st3_def st2_def)
  define st5 where "st5 = st4\<lparr>hp := (hp st4)(t := cleared (nat (max_hps st4)) (hp st4 t))\<rparr>"
  have clr: "list_hp_clear t st4 = Inr st5"
    using list_hp_clear_ok[OF hp4] by (simp add: st5_def)
  \<comment> \<open>the new chain, still with c allocated\<close>
  have suf3: "chain (nodes st3) d rest (l_tail st)"
  proof -
    have "\<And>x. x \<in> set rest \<Longrightarrow> nodes st3 x = nodes st x"
    proof -
      fix x assume "x \<in> set rest"
      then have "x \<noteq> c" using dis by auto
      then show "nodes st3 x = nodes st x" by (simp add: st3_def st2_def)
    qed
    then show ?thesis using cr nd by (auto intro: chain_cong)
  qed
  have dp: "distinct pre" "set rest \<inter> set pre = {}" using dis by auto
  have ch4: "chain (nodes st4) (l_head st4) (pre @ rest) (l_tail st)"
    using chain_relink2[OF pc3 dp(1) suf3 dp(2)] rh by (simp add: st4_def)
  have c_pre: "c \<notin> set pre" "c \<notin> set rest" using dis by auto
  have n4c: "nodes st4 c = Some (nc\<lparr>nxt := d OR 1\<rparr>)"
    using relink_nodes_other[OF c_pre(1), of "nodes st3" d] by (simp add: st4_def st3_def)
  have dom4: "dom (nodes st4) = dom (nodes st)"
    using nc by (auto simp: st4_def relink_nodes_dom st3_def st2_def)
  have k3: "\<And>x. key_of (nodes st3) x = key_of (nodes st) x"
    using nc by (auto simp: st3_def st2_def key_of_def)
  have k4: "\<And>x. key_of (nodes st4) x = key_of (nodes st) x"
    unfolding k3[symmetric] by (simp add: st4_def relink_nodes_key)
  have mg4: "\<And>x. x \<in> set as \<Longrightarrow> \<exists>m. nodes st4 x = Some m \<and> magic m = LIST_MAGIC"
  proof -
    fix x assume "x \<in> set as"
    from list_wfD(8)[OF wf this] obtain m where m: "nodes st x = Some m" "magic m = LIST_MAGIC"
      by auto
    then obtain m3 where m3: "nodes st3 x = Some m3" "magic m3 = LIST_MAGIC"
      using nc mc by (cases "x = c") (auto simp: st3_def st2_def)
    from relink_nodes_magic[of "nodes st3" x m3 pre d] m3
    show "\<exists>m. nodes st4 x = Some m \<and> magic m = LIST_MAGIC" by (auto simp: st4_def)
  qed
  \<comment> \<open>the retire\<close>
  have f5: "nodes st5 = nodes st4" "l_head st5 = l_head st" "l_tail st5 = l_tail st"
    "max_hps st5 = max_hps st" "rl_size st5 = rl_size st"
    "\<And>i. i \<noteq> t \<Longrightarrow> hp st5 i = hp st i"
    "hp st5 t = cleared (nat (max_hps st)) f"
    by (simp_all add: st5_def st4_def st3_def st2_def)
  have hp5: "hp_ok st5 t" using hp f5 by (simp add: hp_ok_def)
  have rr5: "retire_ready_arr st5 t"
    using rr f5 by (auto simp: retire_ready_arr_def)
  have v5: "nodes st5 c = Some (nc\<lparr>nxt := d OR 1\<rparr>)" using n4c f5 by simp
  have c0: "c \<noteq> 0" using pl by (simp add: plain_def)
  have own: "\<forall>j<nat (max_hps st5). hp st5 t j \<noteq> c" using c0 f5 by auto
  have "magic (nc\<lparr>nxt := d OR 1\<rparr>) = LIST_MAGIC" using mc by simp
  from retire_arr_ok[OF hp5 rr5 own v5 this c0]
  have "\<exists>L. list_hp_retire_arr list_node_delete_arr t c st5
               = Inr (st5\<lparr>nodes := (nodes st5)(c := None), rl_list := L\<rparr>)"
    by blast
  then obtain L where ret: "list_hp_retire_arr list_node_delete_arr t c st5
               = Inr (st5\<lparr>nodes := (nodes st5)(c := None), rl_list := L\<rparr>)" by blast
  define st6 where "st6 = st5\<lparr>nodes := (nodes st5)(c := None), rl_list := L\<rparr>"
  have run: "list_delete_once fuel list_node_delete_arr t k st = Inr (True, st6)"
    using f fo cas2 clr ret pl
    by (simp add: list_delete_once_def fuel_eq st2_def[symmetric] st6_def plain_def)
  have f6: "nodes st6 = (nodes st4)(c := None)" "l_head st6 = l_head st" "l_tail st6 = l_tail st"
    by (simp_all add: st6_def f5)
  have h4: "l_head st4 = l_head st" by (simp add: st4_def st3_def st2_def)
  have wf6: "list_wf st6 (pre @ rest)"
  proof (rule list_wfI)
    show "pre @ rest \<noteq> []" using pre by simp
    have "chain ((nodes st4)(c := None)) (l_head st4) (pre @ rest) (l_tail st)"
      by (rule chain_cong[OF _ ch4]) (use c_pre in auto)
    then show "chain (nodes st6) (l_head st6) (pre @ rest) (l_tail st6)" by (simp add: f6 h4)
    show "distinct (pre @ rest)" using dis by auto
    show "l_tail st6 \<notin> set (pre @ rest)" using list_wfD(4)[OF wf] as f6 by auto
    show "plain (l_tail st6)" using list_wfD(5)[OF wf] f6 by simp
    have "l_tail st \<noteq> c" using list_wfD(4)[OF wf] as by auto
    then show "l_tail st6 \<in> dom (nodes st6)" using list_wfD(6)[OF wf] dom4 f6 by auto
    show "\<And>x. x \<in> set (pre @ rest) \<Longrightarrow> plain x" using list_wfD(7)[OF wf] as by auto
    show "\<And>x. x \<in> set (pre @ rest) \<Longrightarrow> \<exists>n. nodes st6 x = Some n \<and> magic n = LIST_MAGIC"
    proof -
      fix x assume x: "x \<in> set (pre @ rest)"
      then have "x \<in> set as" "x \<noteq> c" using as dis by auto
      then show "\<exists>n. nodes st6 x = Some n \<and> magic n = LIST_MAGIC" using mg4[of x] f6 by auto
    qed
  qed
  have rr6: "retire_ready_arr st6 t" using rr5 by (simp add: retire_ready_arr_def st6_def)
  have k6: "\<And>x. x \<in> dom (nodes st6) \<Longrightarrow> key_of (nodes st6) x = key_of (nodes st) x"
  proof -
    fix x assume "x \<in> dom (nodes st6)"
    then have "x \<noteq> c" by (auto simp: f6)
    then show "key_of (nodes st6) x = key_of (nodes st) x"
      using k4[of x] by (simp add: f6 key_of_def)
  qed
  have eq: "st6 = st\<lparr>nodes := nodes st6,
                      hp := (hp st)(t := cleared (nat (max_hps st)) f), rl_list := L\<rparr>"
    by (simp add: st6_def st5_def st4_def st3_def st2_def)
  have d6: "nodes st6 c = None" "dom (nodes st6) \<subseteq> dom (nodes st)"
    using dom4 by (auto simp: f6)
  show ?thesis
    apply (rule exI[where x="nodes st6"],
           rule exI[where x="cleared (nat (max_hps st)) f"], rule exI[where x=L])
    using run wf6 rr6 k6 d6 unfolding eq[symmetric] by simp
qed


section \<open>The node a find reports is unmarked\<close>


lemma hp_store_frame:
  assumes "hp_store t j v st = Inr st'"
  shows "nodes st' = nodes st" "l_head st' = l_head st" "l_tail st' = l_tail st"
  using assms by (auto simp: hp_store_def split: if_splits)

lemma hp_store_load:
  assumes "hp_store t j v st = Inr st'"
  shows "load l st' = load l st"
  using hp_store_frame[OF assms] by (cases l) (simp_all add: node_read_def)

lemma find_do_cur_ex:
  "find_do n t k prev cur nx st = Inr ((p, c, x), st') \<Longrightarrow> \<exists>y. c = get_unmarked y"
proof (induction n arbitrary: prev cur nx st)
  case 0
  then show ?case by simp
next
  case (Suc n)
  from Suc.prems obtain p1 s1 s2 where
    r: "(let cur = get_unmarked nx in
      if get_unmarked cur = l_tail s2 then Inr ((p1, cur, nx), s2)
      else
        bindE (load (LNext (get_unmarked cur)) s2) (\<lambda>nx.
        bindE (list_hp_protect_ptr t HP_NEXT (get_unmarked nx) s2) (\<lambda>st.
        if is_marked nx then find_do n t k p1 cur nx st
        else
          bindE (node_key (get_unmarked cur) st) (\<lambda>ck.
          if ck < k then find_do n t k p1 cur nx st
          else Inr ((p1, cur, nx), st))))) = Inr ((p, c, x), st')"
    by (auto simp: bindE_eq_Inr split: prod.splits)
  show ?case
  proof (cases "get_unmarked (get_unmarked nx) = l_tail s2")
    case True
    have nm: "\<not> is_marked (l_tail s2)" by (metis True is_marked_get_unmarked)
    then have "c = get_unmarked nx" using r True by (auto simp: Let_def)
    then show ?thesis by blast
  next
    case False
    then obtain nx' s3 where
      r2: "(if is_marked nx' then find_do n t k p1 (get_unmarked nx) nx' s3
        else
          bindE (node_key (get_unmarked (get_unmarked nx)) s3) (\<lambda>ck.
          if ck < k then find_do n t k p1 (get_unmarked nx) nx' s3
          else Inr ((p1, get_unmarked nx, nx'), s3))) = Inr ((p, c, x), st')"
      using r by (auto simp: Let_def bindE_eq_Inr)
    show ?thesis
    proof (cases "is_marked nx'")
      case True
      then show ?thesis using r2 Suc.IH by simp
    next
      case False
      then obtain ck where
        r3: "(if ck < k then find_do n t k p1 (get_unmarked nx) nx' s3
          else Inr ((p1, get_unmarked nx, nx'), s3)) = Inr ((p, c, x), st')"
        using r2 by (auto simp: bindE_eq_Inr)
      show ?thesis
      proof (cases "ck < k")
        case True
        then show ?thesis using r3 Suc.IH by simp
      next
        case False
        then have "c = get_unmarked nx" using r3 by simp
        then show ?thesis by blast
      qed
    qed
  qed
qed

lemma find_do_cur:
  "find_do n t k prev cur nx st = Inr ((p, c, x), st') \<Longrightarrow> \<not> is_marked c"
  using find_do_cur_ex[of n t k prev cur nx st p c x st'] by auto







section \<open>The key of the node a find reports\<close>

text \<open>
  In every state, well formed or not: the ordered find, when it returns, returns true
  exactly if the node it reports has the key looked for; the conservative find returns
  true only at a node with that key whose \<^verbatim>\<open>next\<close> word it has seen unmarked.
\<close>

lemma find_ordered_result_key:
  assumes "find_ordered_result k (p, c, x) st = Inr (Some b, ou', st')" "\<not> is_marked c"
  shows "st' = st \<and> ou' = (p, c, x) \<and> (b \<longleftrightarrow> key_of (nodes st) c = k)"
  using assms
  by (auto simp: find_ordered_result_def bindE_eq_Inr node_key_def node_read_def key_of_def
        split: if_splits option.splits)

lemma find_ordered_found:
  "(list_find_ordered n t k start st = Inr (b, (p, c, x), st') \<longrightarrow> (b \<longleftrightarrow> key_of (nodes st') c = k))
   \<and> (find_ordered_loop n t k start prev cur st = Inr (b, (p, c, x), st')
         \<longrightarrow> (b \<longleftrightarrow> key_of (nodes st') c = k))"
proof (induction n arbitrary: prev cur st)
  case 0
  then show ?case by simp
next
  case (Suc n)
  have a: "\<And>st. list_find_ordered n t k start st = Inr (b, (p, c, x), st')
             \<Longrightarrow> (b \<longleftrightarrow> key_of (nodes st') c = k)"
    and l: "\<And>prev cur st. find_ordered_loop n t k start prev cur st = Inr (b, (p, c, x), st')
             \<Longrightarrow> (b \<longleftrightarrow> key_of (nodes st') c = k)"
    using Suc.IH by blast+
  have loop: "b \<longleftrightarrow> key_of (nodes st') c = k"
    if r: "find_ordered_loop (Suc n) t k start prev cur st = Inr (b, (p, c, x), st')" for prev cur st
  proof -
    from r obtain nx s1 p1 c1 x1 s2 v where
      d: "find_do n t k prev cur nx s1 = Inr ((p1, c1, x1), s2)"
      and rest: "(if v = get_unmarked c1 then
       bindE (find_ordered_result k (p1, c1, x1) s2) (\<lambda>(r, ou, st).
       case r of None \<Rightarrow> list_find_ordered n t k start st
               | Some b \<Rightarrow> Inr (b, ou, st))
     else
       bindE (cas p1 (get_unmarked c1) (get_unmarked c1) s2) (\<lambda>(ok, st).
       if ok then
         bindE (find_ordered_result k (p1, c1, x1) st) (\<lambda>(r, ou, st).
         case r of None \<Rightarrow> list_find_ordered n t k start st
                 | Some b \<Rightarrow> Inr (b, ou, st))
       else
         bindE (load p1 st) (\<lambda>cur.
         bindE (list_hp_protect_release t HP_CURR (get_unmarked cur) st) (\<lambda>st.
         bindE (load p1 st) (\<lambda>v.
         if v \<noteq> get_unmarked cur then list_find_ordered n t k start st
         else find_ordered_loop n t k start p1 cur st))))) = Inr (b, (p, c, x), st')"
      by (auto simp: bindE_eq_Inr simp del: find_do.simps split: prod.splits)
    have c1: "\<not> is_marked c1" using find_do_cur[OF d] .
    have res: "b \<longleftrightarrow> key_of (nodes st') c = k"
      if h: "bindE (find_ordered_result k (p1, c1, x1) s) (\<lambda>(r, ou, st).
         case r of None \<Rightarrow> list_find_ordered n t k start st
                 | Some b \<Rightarrow> Inr (b, ou, st)) = Inr (b, (p, c, x), st')" for s
    proof -
      from h obtain r ou s' where fr: "find_ordered_result k (p1, c1, x1) s = Inr (r, ou, s')"
        and k: "(case r of None \<Rightarrow> list_find_ordered n t k start s'
                 | Some b \<Rightarrow> Inr (b, ou, s')) = Inr (b, (p, c, x), st')"
        by (auto simp: bindE_eq_Inr split: prod.splits)
      show ?thesis
      proof (cases r)
        case None
        then show ?thesis using k a by simp
      next
        case (Some b')
        then have e: "b' = b" "ou = (p, c, x)" "s' = st'" using k by simp_all
        from find_ordered_result_key[OF fr[unfolded Some] c1] e
        show ?thesis by auto
      qed
    qed
    show ?thesis
    proof (cases "v = get_unmarked c1")
      case True
      then show ?thesis using rest res[of s2] by simp
    next
      case False
      then obtain ok s3 where
        rest2: "(if ok then
         bindE (find_ordered_result k (p1, c1, x1) s3) (\<lambda>(r, ou, st).
         case r of None \<Rightarrow> list_find_ordered n t k start st
                 | Some b \<Rightarrow> Inr (b, ou, st))
       else
         bindE (load p1 s3) (\<lambda>cur.
         bindE (list_hp_protect_release t HP_CURR (get_unmarked cur) s3) (\<lambda>st.
         bindE (load p1 st) (\<lambda>v.
         if v \<noteq> get_unmarked cur then list_find_ordered n t k start st
         else find_ordered_loop n t k start p1 cur st)))) = Inr (b, (p, c, x), st')"
        using rest by (auto simp: bindE_eq_Inr split: prod.splits)
      show ?thesis
      proof (cases ok)
        case True
        then show ?thesis using rest2 res[of s3] by simp
      next
        case False
        then obtain cur' s4 v' where
          "(if v' \<noteq> get_unmarked cur' then list_find_ordered n t k start s4
            else find_ordered_loop n t k start p1 cur' s4) = Inr (b, (p, c, x), st')"
          using rest2 by (auto simp: bindE_eq_Inr)
        then show ?thesis using a l by (cases "v' \<noteq> get_unmarked cur'") simp_all
      qed
    qed
  qed
  show ?case
  proof (intro conjI impI)
    assume "list_find_ordered (Suc n) t k start st = Inr (b, (p, c, x), st')"
    then obtain cur s1 where "find_ordered_loop n t k start start cur s1 = Inr (b, (p, c, x), st')"
      by (auto simp: bindE_eq_Inr)
    then show "b \<longleftrightarrow> key_of (nodes st') c = k" by (rule l)
  next
    assume "find_ordered_loop (Suc n) t k start prev cur st = Inr (b, (p, c, x), st')"
    then show "b \<longleftrightarrow> key_of (nodes st') c = k" by (rule loop)
  qed
qed

lemma find_rb_found:
  "(list_find n dfn t k o0 st = Inr (True, (p, c, x), st') \<longrightarrow> key_of (nodes st') c = k \<and> \<not> is_marked x)
   \<and> (list_find_loop n dfn t k o0 prev cur st = Inr (True, (p, c, x), st')
        \<longrightarrow> \<not> is_marked cur \<longrightarrow> key_of (nodes st') c = k \<and> \<not> is_marked x)"
proof (induction n arbitrary: prev cur st)
  case 0
  then show ?case by simp
next
  case (Suc n)
  have a: "\<And>st. list_find n dfn t k o0 st = Inr (True, (p, c, x), st')
              \<Longrightarrow> key_of (nodes st') c = k \<and> \<not> is_marked x"
    and l: "\<And>prev cur st. list_find_loop n dfn t k o0 prev cur st = Inr (True, (p, c, x), st') \<Longrightarrow>
              \<not> is_marked cur \<Longrightarrow> key_of (nodes st') c = k \<and> \<not> is_marked x"
    using Suc.IH by blast+
  have A: "key_of (nodes st') c = k \<and> \<not> is_marked x"
    if r: "list_find (Suc n) dfn t k o0 st = Inr (True, (p, c, x), st')"
  proof -
    from r obtain s1 where s1: "list_hp_protect_ptr t HP_CURR (l_head st) st = Inr s1"
      and r1: "(if l_head s1 \<noteq> get_unmarked (l_head st) then list_find n dfn t k o0 s1
               else list_find_loop n dfn t k o0 LHead (l_head st) s1) = Inr (True, (p, c, x), st')"
      by (auto simp: bindE_eq_Inr)
    have h1: "l_head s1 = l_head st"
      using s1 hp_store_frame(2)[of t HP_CURR "l_head st" st s1] by (simp add: list_hp_protect_ptr_def)
    show ?thesis
    proof (cases "l_head st = get_unmarked (l_head st)")
      case True
      then have "\<not> is_marked (l_head st)" by (metis is_marked_get_unmarked)
      then show ?thesis using r1 h1 True l by auto
    next
      case False
      then show ?thesis using r1 h1 a by auto
    qed
  qed
  have B: "key_of (nodes st') c = k \<and> \<not> is_marked x"
    if r: "list_find_loop (Suc n) dfn t k o0 prev cur st = Inr (True, (p, c, x), st')"
      and cu: "\<not> is_marked cur"
  proof -
    show ?thesis
    proof (cases "get_unmarked cur = 0")
      case True
      then show ?thesis using r by simp
    next
      case False
      then obtain nx s1 v where nx: "load (LNext (get_unmarked cur)) st = Inr nx"
        and s1: "list_hp_protect_ptr t HP_NEXT (get_unmarked nx) st = Inr s1"
        and v: "load (LNext (get_unmarked cur)) s1 = Inr v"
        and r1: "(if v \<noteq> get_unmarked nx then Inr (False, (prev, cur, nx), s1)
        else if get_unmarked nx = l_tail s1 then Inr (False, (prev, cur, nx), s1)
        else
          bindE (load prev s1) (\<lambda>v.
          if v \<noteq> get_unmarked cur then list_find n dfn t k o0 s1
          else if get_unmarked nx = nx then
            bindE (node_key (get_unmarked cur) s1) (\<lambda>ck.
            if \<not> ck < k then Inr (ck = k, (prev, cur, nx), s1)
            else
              bindE (list_hp_protect_release t HP_PREV (get_unmarked cur) s1) (\<lambda>st.
              bindE (list_hp_protect_release t HP_CURR (get_unmarked nx) st) (\<lambda>st.
              list_find_loop n dfn t k o0 (LNext (get_unmarked cur)) nx st)))
          else
            bindE (cas prev (get_unmarked cur) (get_unmarked nx) s1) (\<lambda>(ok, st).
            if \<not> ok then list_find n dfn t k o0 st
            else
              bindE (list_hp_retire_rb n dfn t (get_unmarked cur) st) (\<lambda>st.
              bindE (list_hp_protect_release t HP_CURR (get_unmarked nx) st) (\<lambda>st.
              list_find_loop n dfn t k o0 prev nx st))))) = Inr (True, (p, c, x), st')"
        using r by (auto simp: bindE_eq_Inr)
      have um: "\<And>w. get_unmarked w = w \<Longrightarrow> \<not> is_marked w"
        using get_unmarked_eq_iff by blast
      have kk: "\<And>a ck s. node_key a (s :: bstate) = Inr ck \<Longrightarrow> key_of (nodes s) a = ck"
        by (auto simp: node_key_def node_read_def key_of_def bindE_eq_Inr split: option.splits)
      have "load (LNext (get_unmarked cur)) s1 = load (LNext (get_unmarked cur)) st"
        using s1 hp_store_load[of t HP_NEXT "get_unmarked nx" st s1] by (simp add: list_hp_protect_ptr_def)
      then have vn: "v = nx" using nx v by simp
      show ?thesis
        using r1 vn cu
        by (auto simp: bindE_eq_Inr split: if_splits prod.splits dest: a l um kk)
    qed
  qed
  show ?case using A B by blast
qed

section \<open>Operations on a list between two calls\<close>

lemma split_absent:
  fixes kf :: "ptr \<Rightarrow> ptr"
  assumes "k \<notin> kf ` set xs"
  shows "\<exists>pre rest. xs = pre @ rest \<and> (\<forall>x\<in>set pre. kf x < k) \<and> (rest = [] \<or> k < kf (hd rest))"
proof -
  let ?P = "\<lambda>x. kf x < k"
  have a: "xs = takeWhile ?P xs @ dropWhile ?P xs" by simp
  have b: "\<forall>x\<in>set (takeWhile ?P xs). kf x < k" by (auto dest: set_takeWhileD)
  have c: "dropWhile ?P xs = [] \<or> k < kf (hd (dropWhile ?P xs))"
  proof (cases "dropWhile ?P xs = []")
    case True
    then show ?thesis by simp
  next
    case False
    then have "\<not> kf (hd (dropWhile ?P xs)) < k" by (rule hd_dropWhile)
    moreover have "hd (dropWhile ?P xs) \<in> set xs"
      using False by (metis hd_in_set set_dropWhileD)
    then have "kf (hd (dropWhile ?P xs)) \<noteq> k" using assms by (metis imageI)
    ultimately show ?thesis by auto
  qed
  show ?thesis using a b c by blast
qed

lemma split_present:
  fixes kf :: "ptr \<Rightarrow> ptr"
  assumes "sorted_wrt (<) (map kf xs)" "k \<in> kf ` set xs"
  shows "\<exists>pre c rest. xs = pre @ c # rest \<and> (\<forall>x\<in>set pre. kf x < k) \<and> kf c = k"
proof -
  from assms(2) obtain c where c: "c \<in> set xs" "kf c = k" by auto
  then obtain pre rest where xs: "xs = pre @ c # rest" by (meson split_list)
  have "\<forall>x\<in>set pre. kf x < kf c"
    using assms(1) unfolding xs by (auto simp: sorted_wrt_append)
  then show ?thesis using xs c by blast
qed

lemma rb_split_absent:
  assumes "as \<noteq> []" "k \<notin> key_of h ` set (butlast as)"
  shows "\<exists>pre c post. as = pre @ c # post \<and> (\<forall>x\<in>set pre. key_of h x < k)
           \<and> (post = [] \<or> k < key_of h c)"
proof -
  obtain pre rest where s: "butlast as = pre @ rest" "\<forall>x\<in>set pre. key_of h x < k"
    "rest = [] \<or> k < key_of h (hd rest)"
    using split_absent[OF assms(2)] by blast
  have as: "as = pre @ rest @ [last as]" using assms(1) s(1) by (metis append_assoc append_butlast_last_id)
  show ?thesis
  proof (cases rest)
    case Nil
    then have "as = pre @ last as # []" using as by simp
    then show ?thesis using s(2) by blast
  next
    case (Cons c r)
    then have "as = pre @ c # (r @ [last as])" "k < key_of h c" using as s(3) by auto
    then show ?thesis using s(2) by blast
  qed
qed

lemma rb_split_present:
  assumes "sorted_wrt (<) (map (key_of h) (butlast as))" "k \<in> key_of h ` set (butlast as)"
  shows "\<exists>pre c post. as = pre @ c # post \<and> (\<forall>x\<in>set pre. key_of h x < k)
           \<and> post \<noteq> [] \<and> key_of h c = k"
proof -
  obtain pre c rest where s: "butlast as = pre @ c # rest" "\<forall>x\<in>set pre. key_of h x < k"
    "key_of h c = k"
    using split_present[OF assms] by blast
  have "as \<noteq> []" using s(1) by auto
  then have "as = pre @ c # (rest @ [last as])"
    using s(1) by (metis append_Cons append_assoc append_butlast_last_id)
  then show ?thesis using s(2,3) by blast
qed

lemma arr_split_absent:
  assumes "as \<noteq> []" "k \<notin> key_of h ` set (tl as)" "k < key_of h tp"
  shows "\<exists>pre rest. as = pre @ rest \<and> pre \<noteq> [] \<and> (\<forall>x\<in>set (tl pre). key_of h x < k)
           \<and> k < key_of h (hd (rest @ [tp]))"
proof -
  obtain pre rest where s: "tl as = pre @ rest" "\<forall>x\<in>set pre. key_of h x < k"
    "rest = [] \<or> k < key_of h (hd rest)"
    using split_absent[OF assms(2)] by blast
  have "as = (hd as # pre) @ rest" using assms(1) s(1) by (cases as) auto
  moreover have "k < key_of h (hd (rest @ [tp]))" using s(3) assms(3) by (cases rest) auto
  ultimately show ?thesis using s(2) by (intro exI[where x="hd as # pre"] exI[where x=rest]) simp
qed

lemma arr_split_present:
  assumes "as \<noteq> []" "sorted_wrt (<) (map (key_of h) (tl as))" "k \<in> key_of h ` set (tl as)"
  shows "\<exists>pre c rest. as = pre @ c # rest \<and> pre \<noteq> [] \<and> (\<forall>x\<in>set (tl pre). key_of h x < k)
           \<and> key_of h c = k"
proof -
  obtain pre c rest where s: "tl as = pre @ c # rest" "\<forall>x\<in>set pre. key_of h x < k"
    "key_of h c = k"
    using split_present[OF assms(2,3)] by blast
  have "as = (hd as # pre) @ c # rest" using assms(1) s(1) by (cases as) auto
  then show ?thesis using s(2,3) by (intro exI[where x="hd as # pre"] exI[where x=c] exI[where x=rest]) simp
qed

lemma retire_ready_rb_frame:
  assumes "retire_ready_rb b st t" "rl st' = rl st" "roots st' = roots st" "rbs st' = rbs st"
    "avail st' = avail st" "used st \<le> used st'" "used st' + b' \<le> used st + b"
    "\<And>i. i \<noteq> t \<Longrightarrow> hp st' i = hp st i"
  shows "retire_ready_rb b' st' t"
proof -
  have w: "\<And>k. window st' b' k \<Longrightarrow> window st b k" using assms(6,7) by (simp add: window_def)
  show ?thesis
    using assms(1) w unfolding retire_ready_rb_def root_empty_def
    by (simp add: assms(2,3,4,5,8))
qed

lemma rb_insert_absent:
  assumes rd: "ready_rb (Suc b) st t as"
    and absent: "k \<notin> key_of (nodes st) ` set (butlast as)"
    and fuel: "length as + 3 \<le> fuel"
  shows "\<exists>s1 pre a post. list_insert fuel dfn t k st = Inr (True, s1)
           \<and> as = pre @ post \<and> post \<noteq> [] \<and> ready_rb b s1 t (pre @ a # post)
           \<and> (\<forall>x\<in>set pre. key_of (nodes s1) x < k) \<and> key_of (nodes s1) a = k
           \<and> (\<forall>x\<in>set as. key_of (nodes s1) x = key_of (nodes st) x)
           \<and> a = avail st (used st) \<and> used s1 = Suc (used st) \<and> avail s1 = avail st
           \<and> dom (nodes s1) = insert a (dom (nodes st))"
proof -
  have hp: "hp_ok st t" and wf: "list_wf st as" and al: "alloc_ok (Suc b) st"
    and rr: "retire_ready_rb (Suc b) st t"
    using rd by (auto simp: ready_rb_def)
  obtain pre c post where as: "as = pre @ c # post" and lt: "\<forall>x\<in>set pre. key_of (nodes st) x < k"
    and stop: "post = [] \<or> k < key_of (nodes st) c"
    using rb_split_absent[OF list_wfD(1)[OF wf] absent] by blast
  from insert_rb_new[OF hp wf al as lt stop fuel, of dfn]
  obtain N H f where run: "list_insert fuel dfn t k st
               = Inr (True, st\<lparr>nodes := N, l_head := H, hp := (hp st)(t := f), used := Suc (used st)\<rparr>)"
    and wf1: "list_wf (st\<lparr>nodes := N, l_head := H, hp := (hp st)(t := f), used := Suc (used st)\<rparr>)
                  (pre @ avail st (used st) # c # post)"
    and al1: "alloc_ok b (st\<lparr>nodes := N, l_head := H, hp := (hp st)(t := f), used := Suc (used st)\<rparr>)"
    and ka: "key_of N (avail st (used st)) = k"
    and ks: "\<forall>x\<in>set as. key_of N x = key_of (nodes st) x"
    and dn: "dom N = insert (avail st (used st)) (dom (nodes st))"
    by blast
  define s1 where "s1 = st\<lparr>nodes := N, l_head := H, hp := (hp st)(t := f), used := Suc (used st)\<rparr>"
  have hp1: "hp_ok s1 t" using hp by (simp add: hp_ok_def s1_def)
  have rr1: "retire_ready_rb b s1 t"
    by (rule retire_ready_rb_frame[OF rr]) (simp_all add: s1_def)
  have rd1: "ready_rb b s1 t (pre @ avail st (used st) # c # post)"
    using hp1 wf1 al1 rr1 by (simp add: ready_rb_def s1_def)
  have lt1: "\<forall>x\<in>set pre. key_of (nodes s1) x < k"
    using lt ks as by (simp add: s1_def)
  have "list_insert fuel dfn t k st = Inr (True, s1)
           \<and> as = pre @ (c # post) \<and> c # post \<noteq> [] \<and> ready_rb b s1 t (pre @ avail st (used st) # (c # post))
           \<and> (\<forall>x\<in>set pre. key_of (nodes s1) x < k) \<and> key_of (nodes s1) (avail st (used st)) = k
           \<and> (\<forall>x\<in>set as. key_of (nodes s1) x = key_of (nodes st) x)
           \<and> avail st (used st) = avail st (used st) \<and> used s1 = Suc (used st) \<and> avail s1 = avail st
           \<and> dom (nodes s1) = insert (avail st (used st)) (dom (nodes st))"
    using run as rd1 lt1 ka ks dn by (simp add: s1_def)
  then show ?thesis by blast
qed

lemma rb_insert_present_at:
  assumes rd: "ready_rb (Suc b) st t (pre @ a # post)" and post: "post \<noteq> []"
    and lt: "\<forall>x\<in>set pre. key_of (nodes st) x < k" and ka: "key_of (nodes st) a = k"
    and fuel: "length (pre @ a # post) + 3 \<le> fuel"
  shows "\<exists>f. list_insert fuel dfn t k st
               = Inr (False, st\<lparr>hp := (hp st)(t := f), used := Suc (used st)\<rparr>)
             \<and> (\<forall>j<nat (max_hps st). f j = 0)"
proof -
  have hp: "hp_ok st t" and wf: "list_wf st (pre @ a # post)" and al: "alloc_ok (Suc b) st"
    using rd by (auto simp: ready_rb_def)
  show ?thesis by (rule insert_rb_found[OF hp wf al refl lt post ka fuel])
qed

lemma rb_insert_present:
  assumes rd: "ready_rb (Suc b) st t as"
    and sorted: "sorted_wrt (<) (map (key_of (nodes st)) (butlast as))"
    and present: "k \<in> key_of (nodes st) ` set (butlast as)"
    and fuel: "length as + 3 \<le> fuel"
  shows "\<exists>f. list_insert fuel dfn t k st
               = Inr (False, st\<lparr>hp := (hp st)(t := f), used := Suc (used st)\<rparr>)
             \<and> (\<forall>j<nat (max_hps st). f j = 0)"
proof -
  obtain pre c post where as: "as = pre @ c # post" and lt: "\<forall>x\<in>set pre. key_of (nodes st) x < k"
    and post: "post \<noteq> []" and kc: "key_of (nodes st) c = k"
    using rb_split_present[OF sorted present] by blast
  show ?thesis
    using rb_insert_present_at[OF rd[unfolded as] post lt kc fuel[unfolded as]] .
qed


lemma rb_delete_present_at:
  assumes rd: "ready_rb (Suc (Suc b)) st t (pre @ a # post)" and post: "post \<noteq> []"
    and lt: "\<forall>x\<in>set pre. key_of (nodes st) x < k" and ka: "key_of (nodes st) a = k"
    and fuel: "length (pre @ a # post) + 3 \<le> fuel"
  shows "\<exists>s2. list_delete fuel list_node_delete_rb t k st = Inr (True, s2)
           \<and> ready_rb b s2 t (pre @ post) \<and> nodes s2 a = None
           \<and> (\<forall>x\<in>set (pre @ post). key_of (nodes s2) x = key_of (nodes st) x)
           \<and> (\<forall>j<nat (max_hps s2). hp s2 t j = 0)
           \<and> used s2 = Suc (Suc (used st)) \<and> avail s2 = avail st
           \<and> dom (nodes s2) \<subseteq> dom (nodes st) \<and> rl s2 t = avail st (Suc (used st))"
proof -
  have hp: "hp_ok st t" and wf: "list_wf st (pre @ a # post)" and al: "alloc_ok (Suc (Suc b)) st"
    and rr: "retire_ready_rb (Suc (Suc b)) st t"
    using rd by (auto simp: ready_rb_def)
  obtain d ds where dd: "post = d # ds" using post by (cases post) auto
  from delete_rb_present[OF hp wf al rr _ lt ka fuel, of d ds] dd
  obtain N H f R B C where
    run: "list_delete fuel list_node_delete_rb t k st
             = Inr (True, st\<lparr>nodes := N, l_head := H, hp := (hp st)(t := f),
                              used := Suc (Suc (used st)),
                              rl := (rl st)(t := avail st (Suc (used st))),
                              roots := R, rbs := B, recs := C\<rparr>)"
    and wf2: "list_wf (st\<lparr>nodes := N, l_head := H, hp := (hp st)(t := f),
                              used := Suc (Suc (used st)),
                              rl := (rl st)(t := avail st (Suc (used st))),
                              roots := R, rbs := B, recs := C\<rparr>) (pre @ post)"
    and al2: "alloc_ok b (st\<lparr>nodes := N, l_head := H, hp := (hp st)(t := f),
                              used := Suc (Suc (used st)),
                              rl := (rl st)(t := avail st (Suc (used st))),
                              roots := R, rbs := B, recs := C\<rparr>)"
    and rr2: "retire_ready_rb b (st\<lparr>nodes := N, l_head := H, hp := (hp st)(t := f),
                              used := Suc (Suc (used st)),
                              rl := (rl st)(t := avail st (Suc (used st))),
                              roots := R, rbs := B, recs := C\<rparr>) t"
    and na: "N a = None" and dn: "dom N \<subseteq> dom (nodes st)"
    and ks: "\<forall>x\<in>set (pre @ post). key_of N x = key_of (nodes st) x"
    and fz: "\<forall>j<nat (max_hps st). f j = 0"
    by auto
  define s2 where "s2 = st\<lparr>nodes := N, l_head := H, hp := (hp st)(t := f),
                              used := Suc (Suc (used st)),
                              rl := (rl st)(t := avail st (Suc (used st))),
                              roots := R, rbs := B, recs := C\<rparr>"
  have hp2: "hp_ok s2 t" using hp by (simp add: hp_ok_def s2_def)
  have "list_delete fuel list_node_delete_rb t k st = Inr (True, s2)
           \<and> ready_rb b s2 t (pre @ post) \<and> nodes s2 a = None
           \<and> (\<forall>x\<in>set (pre @ post). key_of (nodes s2) x = key_of (nodes st) x)
           \<and> (\<forall>j<nat (max_hps s2). hp s2 t j = 0)
           \<and> used s2 = Suc (Suc (used st)) \<and> avail s2 = avail st
           \<and> dom (nodes s2) \<subseteq> dom (nodes st) \<and> rl s2 t = avail st (Suc (used st))"
    using run wf2 al2 rr2 na ks fz hp2 dn by (simp add: ready_rb_def s2_def)
  then show ?thesis by blast
qed

lemma arr_insert_absent:
  assumes rd: "ready_arr (Suc b) st t as"
    and absent: "k \<notin> key_of (nodes st) ` set (tl as)"
    and kt: "k < key_of (nodes st) (l_tail st)"
    and fuel: "length as + 4 \<le> fuel"
  shows "\<exists>s1 pre a rest. list_insert_conti fuel t k st = Inr (True, s1)
           \<and> as = pre @ rest \<and> pre \<noteq> [] \<and> ready_arr b s1 t (pre @ a # rest)
           \<and> (\<forall>x\<in>set (tl pre). key_of (nodes s1) x < k) \<and> key_of (nodes s1) a = k
           \<and> (\<forall>x\<in>set as. key_of (nodes s1) x = key_of (nodes st) x)
           \<and> l_tail s1 = l_tail st
           \<and> key_of (nodes s1) (l_tail s1) = key_of (nodes st) (l_tail st)
           \<and> a = avail st (used st)"
proof -
  have hp: "hp_ok st t" and wf: "list_wf st as" and al: "alloc_ok (Suc b) st"
    and rr: "retire_ready_arr st t"
    using rd by (auto simp: ready_arr_def)
  obtain pre rest where as: "as = pre @ rest" and pre: "pre \<noteq> []"
    and lt: "\<forall>x\<in>set (tl pre). key_of (nodes st) x < k"
    and stop: "k < key_of (nodes st) (hd (rest @ [l_tail st]))"
    using arr_split_absent[OF list_wfD(1)[OF wf] absent kt] by blast
  from insert_arr_new[OF hp wf al as pre lt stop fuel]
  obtain N f where run: "list_insert_conti fuel t k st
               = Inr (True, st\<lparr>nodes := N, hp := (hp st)(t := f), used := Suc (used st)\<rparr>)"
    and wf1: "list_wf (st\<lparr>nodes := N, hp := (hp st)(t := f), used := Suc (used st)\<rparr>)
                  (pre @ avail st (used st) # rest)"
    and al1: "alloc_ok b (st\<lparr>nodes := N, hp := (hp st)(t := f), used := Suc (used st)\<rparr>)"
    and ka: "key_of N (avail st (used st)) = k"
    and ks: "\<forall>x\<in>dom (nodes st). key_of N x = key_of (nodes st) x"
    by blast
  define s1 where "s1 = st\<lparr>nodes := N, hp := (hp st)(t := f), used := Suc (used st)\<rparr>"
  have hp1: "hp_ok s1 t" using hp by (simp add: hp_ok_def s1_def)
  have rr1: "retire_ready_arr s1 t" using rr by (simp add: retire_ready_arr_def s1_def)
  have rd1: "ready_arr b s1 t (pre @ avail st (used st) # rest)"
    using hp1 wf1 al1 rr1 by (simp add: ready_arr_def s1_def)
  have ks': "\<forall>x\<in>set as. key_of (nodes s1) x = key_of (nodes st) x"
    using ks list_wf_set_dom[OF wf] by (auto simp: s1_def)
  have lt1: "\<forall>x\<in>set (tl pre). key_of (nodes s1) x < k"
  proof
    fix x assume x: "x \<in> set (tl pre)"
    then have "x \<in> set as" using as pre by (cases pre) auto
    then show "key_of (nodes s1) x < k" using ks' lt x by simp
  qed
  have kt1: "key_of (nodes s1) (l_tail s1) = key_of (nodes st) (l_tail st)"
    using ks list_wfD(6)[OF wf] by (simp add: s1_def)
  have "list_insert_conti fuel t k st = Inr (True, s1)
           \<and> as = pre @ rest \<and> pre \<noteq> [] \<and> ready_arr b s1 t (pre @ avail st (used st) # rest)
           \<and> (\<forall>x\<in>set (tl pre). key_of (nodes s1) x < k) \<and> key_of (nodes s1) (avail st (used st)) = k
           \<and> (\<forall>x\<in>set as. key_of (nodes s1) x = key_of (nodes st) x)
           \<and> l_tail s1 = l_tail st
           \<and> key_of (nodes s1) (l_tail s1) = key_of (nodes st) (l_tail st)
           \<and> avail st (used st) = avail st (used st)"
    using run as pre rd1 lt1 ka ks' kt1 by (simp add: s1_def)
  then show ?thesis by blast
qed

lemma arr_insert_present_at:
  assumes rd: "ready_arr (Suc b) st t (pre @ rest)" and pre: "pre \<noteq> []"
    and lt: "\<forall>x\<in>set (tl pre). key_of (nodes st) x < k"
    and ka: "key_of (nodes st) (hd (rest @ [l_tail st])) = k"
    and fuel: "length (pre @ rest) + 4 \<le> fuel"
  shows "\<exists>f. list_insert_conti fuel t k st
               = Inr (False, st\<lparr>hp := (hp st)(t := f), used := Suc (used st)\<rparr>)
             \<and> (\<forall>j<nat (max_hps st). f j = 0)"
proof -
  have hp: "hp_ok st t" and wf: "list_wf st (pre @ rest)" and al: "alloc_ok (Suc b) st"
    using rd by (auto simp: ready_arr_def)
  show ?thesis by (rule insert_arr_found[OF hp wf al refl pre lt ka fuel])
qed

lemma arr_insert_present:
  assumes rd: "ready_arr (Suc b) st t as"
    and sorted: "sorted_wrt (<) (map (key_of (nodes st)) (tl as))"
    and present: "k \<in> key_of (nodes st) ` set (tl as)"
    and fuel: "length as + 4 \<le> fuel"
  shows "\<exists>f. list_insert_conti fuel t k st
               = Inr (False, st\<lparr>hp := (hp st)(t := f), used := Suc (used st)\<rparr>)
             \<and> (\<forall>j<nat (max_hps st). f j = 0)"
proof -
  have wf: "list_wf st as" using rd by (auto simp: ready_arr_def)
  obtain pre c rest where as: "as = pre @ c # rest" and pre: "pre \<noteq> []"
    and lt: "\<forall>x\<in>set (tl pre). key_of (nodes st) x < k"
    and kc: "key_of (nodes st) c = k"
    using arr_split_present[OF list_wfD(1)[OF wf] sorted present] by blast
  have kc': "key_of (nodes st) (hd ((c # rest) @ [l_tail st])) = k" using kc by simp
  show ?thesis
    using arr_insert_present_at[OF rd[unfolded as] pre lt kc' fuel[unfolded as]] .
qed


lemma arr_delete_present_at:
  assumes rd: "ready_arr b st t (pre @ a # rest)" and pre: "pre \<noteq> []"
    and lt: "\<forall>x\<in>set (tl pre). key_of (nodes st) x < k" and ka: "key_of (nodes st) a = k"
    and fuel: "length (pre @ a # rest) + 4 \<le> fuel"
  shows "\<exists>s2. list_delete_once fuel list_node_delete_arr t k st = Inr (True, s2)
           \<and> ready_arr b s2 t (pre @ rest) \<and> nodes s2 a = None
           \<and> (\<forall>x\<in>set (pre @ rest). key_of (nodes s2) x = key_of (nodes st) x)
           \<and> l_tail s2 = l_tail st
           \<and> key_of (nodes s2) (l_tail s2) = key_of (nodes st) (l_tail st)
           \<and> (\<forall>j<nat (max_hps s2). hp s2 t j = 0)"
proof -
  have hp: "hp_ok st t" and wf: "list_wf st (pre @ a # rest)" and al: "alloc_ok b st"
    and rr: "retire_ready_arr st t"
    using rd by (auto simp: ready_arr_def)
  from delete_arr_present[OF hp wf rr refl pre lt ka fuel]
  obtain N f L where
    run: "list_delete_once fuel list_node_delete_arr t k st
             = Inr (True, st\<lparr>nodes := N, hp := (hp st)(t := f), rl_list := L\<rparr>)"
    and wf2: "list_wf (st\<lparr>nodes := N, hp := (hp st)(t := f), rl_list := L\<rparr>) (pre @ rest)"
    and rr2: "retire_ready_arr (st\<lparr>nodes := N, hp := (hp st)(t := f), rl_list := L\<rparr>) t"
    and na: "N a = None" and dm: "dom N \<subseteq> dom (nodes st)"
    and ks: "\<forall>x\<in>dom N. key_of N x = key_of (nodes st) x"
    and fz: "\<forall>j<nat (max_hps st). f j = 0"
    by blast
  define s2 where "s2 = st\<lparr>nodes := N, hp := (hp st)(t := f), rl_list := L\<rparr>"
  have hp2: "hp_ok s2 t" using hp by (simp add: hp_ok_def s2_def)
  have al2: "alloc_ok b s2"
    by (rule alloc_ok_mono[OF al]) (use dm in \<open>auto simp: s2_def\<close>)
  have wf2': "list_wf s2 (pre @ rest)" using wf2 by (simp add: s2_def)
  have ks2: "\<forall>x\<in>set (pre @ rest). key_of (nodes s2) x = key_of (nodes st) x"
    using ks list_wf_set_dom[OF wf2'] by (auto simp: s2_def)
  have kt2: "key_of (nodes s2) (l_tail s2) = key_of (nodes st) (l_tail st)"
    using ks list_wfD(6)[OF wf2'] by (auto simp: s2_def)
  have "list_delete_once fuel list_node_delete_arr t k st = Inr (True, s2)
           \<and> ready_arr b s2 t (pre @ rest) \<and> nodes s2 a = None
           \<and> (\<forall>x\<in>set (pre @ rest). key_of (nodes s2) x = key_of (nodes st) x)
           \<and> l_tail s2 = l_tail st
           \<and> key_of (nodes s2) (l_tail s2) = key_of (nodes st) (l_tail st)
           \<and> (\<forall>j<nat (max_hps s2). hp s2 t j = 0)"
    using run wf2' al2 rr2 na ks2 kt2 fz hp2 by (simp add: ready_arr_def s2_def)
  then show ?thesis by blast
qed

section \<open>Sequences of operations\<close>

lemma below_max: "(k :: ptr) \<noteq> - 1 \<Longrightarrow> k < - 1"
  by (simp add: word_order.not_eq_extremum)

lemma rb_insert_twice:
  assumes rd: "ready_rb (Suc (Suc b)) st t as"
    and absent: "k \<notin> key_of (nodes st) ` set (butlast as)"
    and fuel: "length as + 4 \<le> fuel"
  shows "\<exists>s1 s2. list_insert fuel dfn t k st = Inr (True, s1)
           \<and> list_insert fuel dfn t k s1 = Inr (False, s2) \<and> nodes s2 = nodes s1"
proof -
  have fuel3: "length as + 3 \<le> fuel" using fuel by simp
  from rb_insert_absent[OF rd absent fuel3, of dfn]
  obtain s1 pre a post where run1: "list_insert fuel dfn t k st = Inr (True, s1)"
    and as: "as = pre @ post" and post: "post \<noteq> []"
    and rd1: "ready_rb (Suc b) s1 t (pre @ a # post)"
    and lt1: "\<forall>x\<in>set pre. key_of (nodes s1) x < k" and ka: "key_of (nodes s1) a = k"
    by blast
  have fuel1: "length (pre @ a # post) + 3 \<le> fuel" using fuel as by simp
  from rb_insert_present_at[OF rd1 post lt1 ka fuel1, of dfn]
  obtain f where run2: "list_insert fuel dfn t k s1
               = Inr (False, s1\<lparr>hp := (hp s1)(t := f), used := Suc (used s1)\<rparr>)" by blast
  have "list_insert fuel dfn t k st = Inr (True, s1)
           \<and> list_insert fuel dfn t k s1 = Inr (False, s1\<lparr>hp := (hp s1)(t := f), used := Suc (used s1)\<rparr>)
           \<and> nodes (s1\<lparr>hp := (hp s1)(t := f), used := Suc (used s1)\<rparr>) = nodes s1"
    using run1 run2 by simp
  then show ?thesis by blast
qed

lemma rb_insert_delete:
  assumes rd: "ready_rb (Suc (Suc (Suc b))) st t as"
    and absent: "k \<notin> key_of (nodes st) ` set (butlast as)"
    and fuel: "length as + 4 \<le> fuel"
  shows "\<exists>s1 s2. list_insert fuel dfn t k st = Inr (True, s1)
           \<and> list_delete fuel list_node_delete_rb t k s1 = Inr (True, s2)
           \<and> ready_rb b s2 t as
           \<and> (\<forall>x\<in>set as. key_of (nodes s2) x = key_of (nodes st) x)
           \<and> used s2 = Suc (Suc (Suc (used st))) \<and> avail s2 = avail st
           \<and> dom (nodes s2) \<subseteq> dom (nodes st) \<and> rl s2 t = avail st (Suc (Suc (used st)))"
proof -
  have fuel3: "length as + 3 \<le> fuel" using fuel by simp
  from rb_insert_absent[OF rd absent fuel3, of dfn]
  obtain s1 pre a post where run1: "list_insert fuel dfn t k st = Inr (True, s1)"
    and as: "as = pre @ post" and post: "post \<noteq> []"
    and rd1: "ready_rb (Suc (Suc b)) s1 t (pre @ a # post)"
    and lt1: "\<forall>x\<in>set pre. key_of (nodes s1) x < k" and ka: "key_of (nodes s1) a = k"
    and ks1: "\<forall>x\<in>set as. key_of (nodes s1) x = key_of (nodes st) x"
    and f1: "used s1 = Suc (used st)" "avail s1 = avail st"
      "dom (nodes s1) = insert a (dom (nodes st))"
    by blast
  have fuel1: "length (pre @ a # post) + 3 \<le> fuel" using fuel as by simp
  from rb_delete_present_at[OF rd1 post lt1 ka fuel1]
  obtain s2 where run2: "list_delete fuel list_node_delete_rb t k s1 = Inr (True, s2)"
    and rd2: "ready_rb b s2 t (pre @ post)" and na: "nodes s2 a = None"
    and ks2: "\<forall>x\<in>set (pre @ post). key_of (nodes s2) x = key_of (nodes s1) x"
    and f2: "used s2 = Suc (Suc (used s1))" "avail s2 = avail s1"
      "dom (nodes s2) \<subseteq> dom (nodes s1)" "rl s2 t = avail s1 (Suc (used s1))"
    by blast
  have ks: "\<forall>x\<in>set as. key_of (nodes s2) x = key_of (nodes st) x"
    using ks1 ks2 as by simp
  have dm: "dom (nodes s2) \<subseteq> dom (nodes st)"
    using f2(3) f1(3) na by auto
  have "list_insert fuel dfn t k st = Inr (True, s1)
           \<and> list_delete fuel list_node_delete_rb t k s1 = Inr (True, s2)
           \<and> ready_rb b s2 t as
           \<and> (\<forall>x\<in>set as. key_of (nodes s2) x = key_of (nodes st) x)
           \<and> used s2 = Suc (Suc (Suc (used st))) \<and> avail s2 = avail st
           \<and> dom (nodes s2) \<subseteq> dom (nodes st) \<and> rl s2 t = avail st (Suc (Suc (used st)))"
    using run1 run2 rd2 as ks dm f1 f2 by simp
  then show ?thesis by blast
qed

lemma keys_absent_cong:
  assumes "k \<notin> key_of h ` set xs" "\<forall>x\<in>set xs. key_of h' x = key_of h x"
  shows "k \<notin> key_of h' ` set xs"
  using assms by (auto simp: image_iff)


lemma rb_round_trip:
  assumes rd: "ready_rb (Suc (Suc (Suc (Suc b)))) st t as"
    and absent: "k \<notin> key_of (nodes st) ` set (butlast as)"
    and fuel: "length as + 4 \<le> fuel"
  shows "\<exists>s1 s2 s3. list_insert fuel dfn t k st = Inr (True, s1)
           \<and> list_delete fuel list_node_delete_rb t k s1 = Inr (True, s2)
           \<and> list_insert fuel dfn t k s2 = Inr (True, s3)"
proof -
  from rb_insert_delete[OF rd absent fuel, of dfn]
  obtain s1 s2 where run: "list_insert fuel dfn t k st = Inr (True, s1)"
    "list_delete fuel list_node_delete_rb t k s1 = Inr (True, s2)"
    and rd2: "ready_rb (Suc b) s2 t as"
    and ks: "\<forall>x\<in>set as. key_of (nodes s2) x = key_of (nodes st) x"
    by blast
  have "\<forall>x\<in>set (butlast as). key_of (nodes s2) x = key_of (nodes st) x"
    using ks by (auto dest: in_set_butlastD)
  then have absent2: "k \<notin> key_of (nodes s2) ` set (butlast as)"
    using keys_absent_cong[OF absent] by blast
  have fuel3: "length as + 3 \<le> fuel" using fuel by simp
  from rb_insert_absent[OF rd2 absent2 fuel3, of dfn]
  obtain s3 where "list_insert fuel dfn t k s2 = Inr (True, s3)" by blast
  then show ?thesis using run by blast
qed



lemma arr_insert_delete:
  assumes rd: "ready_arr (Suc b) st t as"
    and absent: "k \<notin> key_of (nodes st) ` set (tl as)"
    and kt: "k < key_of (nodes st) (l_tail st)"
    and fuel: "length as + 5 \<le> fuel"
  shows "\<exists>s1 s2. list_insert_conti fuel t k st = Inr (True, s1)
           \<and> list_delete_once fuel list_node_delete_arr t k s1 = Inr (True, s2)
           \<and> ready_arr b s2 t as
           \<and> (\<forall>x\<in>set as. key_of (nodes s2) x = key_of (nodes st) x)
           \<and> key_of (nodes s2) (l_tail s2) = key_of (nodes st) (l_tail st)"
proof -
  have fuel4: "length as + 4 \<le> fuel" using fuel by simp
  from arr_insert_absent[OF rd absent kt fuel4]
  obtain s1 pre a rest where run1: "list_insert_conti fuel t k st = Inr (True, s1)"
    and as: "as = pre @ rest" and pre: "pre \<noteq> []"
    and rd1: "ready_arr b s1 t (pre @ a # rest)"
    and lt1: "\<forall>x\<in>set (tl pre). key_of (nodes s1) x < k" and ka: "key_of (nodes s1) a = k"
    and ks1: "\<forall>x\<in>set as. key_of (nodes s1) x = key_of (nodes st) x"
    and kt1: "key_of (nodes s1) (l_tail s1) = key_of (nodes st) (l_tail st)"
    by blast
  have fuel1: "length (pre @ a # rest) + 4 \<le> fuel" using fuel as by simp
  from arr_delete_present_at[OF rd1 pre lt1 ka fuel1]
  obtain s2 where run2: "list_delete_once fuel list_node_delete_arr t k s1 = Inr (True, s2)"
    and rd2: "ready_arr b s2 t (pre @ rest)"
    and ks2: "\<forall>x\<in>set (pre @ rest). key_of (nodes s2) x = key_of (nodes s1) x"
    and kt2: "key_of (nodes s2) (l_tail s2) = key_of (nodes s1) (l_tail s1)"
    by blast
  have "\<forall>x\<in>set as. key_of (nodes s2) x = key_of (nodes st) x"
    using ks1 ks2 as by simp
  then show ?thesis using run1 run2 rd2 as kt1 kt2 by auto
qed


lemma arr_round_trip:
  assumes rd: "ready_arr (Suc (Suc b)) st t as"
    and absent: "k \<notin> key_of (nodes st) ` set (tl as)"
    and kt: "k < key_of (nodes st) (l_tail st)"
    and fuel: "length as + 5 \<le> fuel"
  shows "\<exists>s1 s2 s3. list_insert_conti fuel t k st = Inr (True, s1)
           \<and> list_delete_once fuel list_node_delete_arr t k s1 = Inr (True, s2)
           \<and> list_insert_conti fuel t k s2 = Inr (True, s3)"
proof -
  from arr_insert_delete[OF rd absent kt fuel]
  obtain s1 s2 where run: "list_insert_conti fuel t k st = Inr (True, s1)"
    "list_delete_once fuel list_node_delete_arr t k s1 = Inr (True, s2)"
    and rd2: "ready_arr (Suc b) s2 t as"
    and ks: "\<forall>x\<in>set as. key_of (nodes s2) x = key_of (nodes st) x"
    and kt2: "key_of (nodes s2) (l_tail s2) = key_of (nodes st) (l_tail st)"
    by blast
  have "\<forall>x\<in>set (tl as). key_of (nodes s2) x = key_of (nodes st) x"
    using ks by (metis list.sel(2) list.set_sel(2))
  then have absent2: "k \<notin> key_of (nodes s2) ` set (tl as)"
    using keys_absent_cong[OF absent] by blast
  have kt': "k < key_of (nodes s2) (l_tail s2)" using kt kt2 by simp
  have fuel4: "length as + 4 \<le> fuel" using fuel by simp
  from arr_insert_absent[OF rd2 absent2 kt' fuel4]
  obtain s3 where "list_insert_conti fuel t k s2 = Inr (True, s3)" by blast
  then show ?thesis using run by blast
qed

lemma ready_arr_after_fail:
  assumes rd: "ready_arr (Suc b) st t as"
  shows "ready_arr b (st\<lparr>hp := (hp st)(t := f), used := Suc (used st)\<rparr>) t as"
proof -
  have hp: "hp_ok st t" and wf: "list_wf st as" and al: "alloc_ok (Suc b) st"
    and rr: "retire_ready_arr st t"
    using rd by (auto simp: ready_arr_def)
  have "list_wf (st\<lparr>hp := (hp st)(t := f), used := Suc (used st)\<rparr>) as"
    by (rule list_wf_cong[OF wf]) simp_all
  moreover have "alloc_ok b (st\<lparr>hp := (hp st)(t := f), used := Suc (used st)\<rparr>)"
    by (rule alloc_ok_step[OF al]) auto
  ultimately show ?thesis
    using hp rr by (simp add: ready_arr_def hp_ok_def retire_ready_arr_def)
qed

lemma arr_insert_twice:
  assumes rd: "ready_arr (Suc (Suc b)) st t as"
    and absent: "k \<notin> key_of (nodes st) ` set (tl as)"
    and kt: "key_of (nodes st) (l_tail st) = - 1"
    and fuel: "length as + 5 \<le> fuel"
  shows "\<exists>s1 s2. list_insert_conti fuel t k st = Inr (k \<noteq> - 1, s1)
           \<and> list_insert_conti fuel t k s1 = Inr (False, s2) \<and> nodes s2 = nodes s1"
proof (cases "k = - 1")
  case False
  then have kt': "k < key_of (nodes st) (l_tail st)" using kt below_max by simp
  have fuel4: "length as + 4 \<le> fuel" using fuel by simp
  from arr_insert_absent[OF rd absent kt' fuel4]
  obtain s1 pre a rest where run1: "list_insert_conti fuel t k st = Inr (True, s1)"
    and as: "as = pre @ rest" and pre: "pre \<noteq> []"
    and rd1: "ready_arr (Suc b) s1 t (pre @ a # rest)"
    and lt1: "\<forall>x\<in>set (tl pre). key_of (nodes s1) x < k" and ka: "key_of (nodes s1) a = k"
    by blast
  have ka': "key_of (nodes s1) (hd ((a # rest) @ [l_tail s1])) = k" using ka by simp
  have fuel1: "length (pre @ a # rest) + 4 \<le> fuel" using fuel as by simp
  from arr_insert_present_at[OF rd1 pre lt1 ka' fuel1]
  obtain f where run2: "list_insert_conti fuel t k s1
               = Inr (False, s1\<lparr>hp := (hp s1)(t := f), used := Suc (used s1)\<rparr>)" by blast
  have "list_insert_conti fuel t k st = Inr (k \<noteq> - 1, s1)
           \<and> list_insert_conti fuel t k s1 = Inr (False, s1\<lparr>hp := (hp s1)(t := f), used := Suc (used s1)\<rparr>)
           \<and> nodes (s1\<lparr>hp := (hp s1)(t := f), used := Suc (used s1)\<rparr>) = nodes s1"
    using run1 run2 False by simp
  then show ?thesis by blast
next
  case True
  have wf: "list_wf st as" using rd by (auto simp: ready_arr_def)
  have ne: "as \<noteq> []" by (rule list_wfD(1)[OF wf])
  have lt: "\<forall>x\<in>set (tl as). key_of (nodes st) x < k"
  proof
    fix x assume "x \<in> set (tl as)"
    then have "key_of (nodes st) x \<noteq> - 1" using absent True by (metis imageI)
    then show "key_of (nodes st) x < k" using below_max True by simp
  qed
  have ka: "key_of (nodes st) (hd ([] @ [l_tail st])) = k" using kt True by simp
  have fuel0: "length (as @ []) + 4 \<le> fuel" using fuel by simp
  have rd0: "ready_arr (Suc (Suc b)) st t (as @ [])" using rd by simp
  from arr_insert_present_at[OF rd0 ne lt ka fuel0]
  obtain f where run1: "list_insert_conti fuel t k st
               = Inr (False, st\<lparr>hp := (hp st)(t := f), used := Suc (used st)\<rparr>)" by blast
  define s1 where "s1 = st\<lparr>hp := (hp st)(t := f), used := Suc (used st)\<rparr>"
  have rd1: "ready_arr (Suc b) s1 t (as @ [])"
    using ready_arr_after_fail[OF rd, of f] by (simp add: s1_def)
  have lt1: "\<forall>x\<in>set (tl as). key_of (nodes s1) x < k" using lt by (simp add: s1_def)
  have ka1: "key_of (nodes s1) (hd ([] @ [l_tail s1])) = k" using ka by (simp add: s1_def)
  from arr_insert_present_at[OF rd1 ne lt1 ka1 fuel0]
  obtain g where run2: "list_insert_conti fuel t k s1
               = Inr (False, s1\<lparr>hp := (hp s1)(t := g), used := Suc (used s1)\<rparr>)" by blast
  have "list_insert_conti fuel t k st = Inr (k \<noteq> - 1, s1)
           \<and> list_insert_conti fuel t k s1 = Inr (False, s1\<lparr>hp := (hp s1)(t := g), used := Suc (used s1)\<rparr>)
           \<and> nodes (s1\<lparr>hp := (hp s1)(t := g), used := Suc (used s1)\<rparr>) = nodes s1"
    using run1 run2 True by (simp add: s1_def)
  then show ?thesis by blast
qed

section \<open>The insertions store the unmarked address\<close>






section \<open>What a find reports\<close>

lemma find_rb_reports:
  assumes t: "t < HP_MAX_THREADS" and wf: "list_wf sb bs" and fuel: "length bs + 2 \<le> fuel"
  shows "\<exists>found prev cur nx f pre post.
            list_find fuel dfn t k o0 sb
              = Inr (found, (prev, cur, nx), sb\<lparr>hp := (hp sb)(t := f)\<rparr>)
          \<and> bs = pre @ cur # post
          \<and> (\<forall>x\<in>set pre. key_of (nodes sb) x < k)
          \<and> (post = [] \<or> \<not> key_of (nodes sb) cur < k)
          \<and> prev = after LHead pre \<and> nx = hd (post @ [l_tail sb])
          \<and> cur \<in> set bs \<and> cur \<noteq> l_tail sb
          \<and> (found \<longleftrightarrow> key_of (nodes sb) cur = k \<and> cur \<noteq> last bs)
          \<and> ((\<forall>x\<in>set (butlast bs). key_of (nodes sb) x < k) \<longrightarrow> \<not> found \<and> cur = last bs)"
proof -
  obtain pre c post where bs: "bs = pre @ c # post"
    and lt: "\<forall>x\<in>set pre. key_of (nodes sb) x < k"
    and stop: "post = [] \<or> \<not> key_of (nodes sb) c < k"
    using split_at[OF list_wfD(1)[OF wf], of "\<lambda>x. key_of (nodes sb) x < k"] by blast
  from find_rb_spec[OF t wf bs lt stop fuel, of dfn o0]
  obtain f where run: "list_find fuel dfn t k o0 sb =
           Inr (post \<noteq> [] \<and> key_of (nodes sb) c = k,
                (after LHead pre, c, if post = [] then l_tail sb else hd post),
                sb\<lparr>hp := (hp sb)(t := f)\<rparr>)" by blast
  have nx: "(if post = [] then l_tail sb else hd post) = hd (post @ [l_tail sb])"
    by (cases post) simp_all
  have c: "c \<in> set bs" "c \<noteq> l_tail sb" using bs list_wfD(4)[OF wf] by auto
  have last: "(\<forall>x\<in>set (butlast bs). key_of (nodes sb) x < k) \<longrightarrow> post = [] \<and> c = last bs"
  proof
    assume a: "\<forall>x\<in>set (butlast bs). key_of (nodes sb) x < k"
    have "post = []"
    proof (rule ccontr)
      assume p: "post \<noteq> []"
      then have "c \<in> set (butlast bs)" using bs by (simp add: butlast_append)
      then show False using a stop p by blast
    qed
    then show "post = [] \<and> c = last bs" using bs by simp
  qed
  have d: "distinct bs" by (rule list_wfD(3)[OF wf])
  have lst: "post \<noteq> [] \<longleftrightarrow> c \<noteq> last bs"
  proof (cases "post = []")
    case True
    then show ?thesis using bs by simp
  next
    case False
    then have "last bs \<in> set post" using bs by simp
    moreover have "c \<notin> set post" using d bs by simp
    ultimately show ?thesis using False by auto
  qed
  have "list_find fuel dfn t k o0 sb =
           Inr (post \<noteq> [] \<and> key_of (nodes sb) c = k,
                (after LHead pre, c, hd (post @ [l_tail sb])),
                sb\<lparr>hp := (hp sb)(t := f)\<rparr>)
          \<and> bs = pre @ c # post
          \<and> (\<forall>x\<in>set pre. key_of (nodes sb) x < k)
          \<and> (post = [] \<or> \<not> key_of (nodes sb) c < k)
          \<and> after LHead pre = after LHead pre \<and> hd (post @ [l_tail sb]) = hd (post @ [l_tail sb])
          \<and> c \<in> set bs \<and> c \<noteq> l_tail sb
          \<and> ((post \<noteq> [] \<and> key_of (nodes sb) c = k) \<longleftrightarrow> key_of (nodes sb) c = k \<and> c \<noteq> last bs)
          \<and> ((\<forall>x\<in>set (butlast bs). key_of (nodes sb) x < k)
                \<longrightarrow> \<not> (post \<noteq> [] \<and> key_of (nodes sb) c = k) \<and> c = last bs)"
    using run[unfolded nx] bs lt stop c last lst by blast
  then show ?thesis by blast
qed

lemma find_arr_reports:
  assumes t: "t < HP_MAX_THREADS" and wf: "list_wf sa as" and fuel: "length as + 3 \<le> fuel"
  shows "\<exists>found prev cur nx f pre post.
            list_find_ordered fuel t k LHead sa
              = Inr (found, (prev, cur, nx), sa\<lparr>hp := (hp sa)(t := f)\<rparr>)
          \<and> as @ [l_tail sa] = pre @ cur # post \<and> pre \<noteq> []
          \<and> (\<forall>x\<in>set (tl pre). key_of (nodes sa) x < k)
          \<and> (post = [] \<or> \<not> key_of (nodes sa) cur < k)
          \<and> prev = after LHead pre
          \<and> (cur \<in> set (tl as) \<or> cur = l_tail sa)
          \<and> (found \<longleftrightarrow> key_of (nodes sa) cur = k)
          \<and> ((\<forall>x\<in>set (tl as). key_of (nodes sa) x < k) \<longrightarrow> cur = l_tail sa)"
proof -
  have ne: "tl as @ [l_tail sa] \<noteq> []" by simp
  obtain p c post where sp: "tl as @ [l_tail sa] = p @ c # post"
    and lt: "\<forall>x\<in>set p. key_of (nodes sa) x < k"
    and stop: "post = [] \<or> \<not> key_of (nodes sa) c < k"
    using split_at[OF ne, of "\<lambda>x. key_of (nodes sa) x < k"] by blast
  have as: "as \<noteq> []" by (rule list_wfD(1)[OF wf])
  have ext: "as @ [l_tail sa] = (hd as # p) @ c # post" using sp as by (cases as) auto
  have lt': "\<forall>x\<in>set (tl (hd as # p)). key_of (nodes sa) x < k" using lt by simp
  from find_ordered_spec[OF t wf ext _ lt' stop fuel]
  obtain f where run: "list_find_ordered fuel t k LHead sa =
           Inr (key_of (nodes sa) c = k,
                (after LHead (hd as # p), c, if post = [] then c else hd post),
                sa\<lparr>hp := (hp sa)(t := f)\<rparr>)" by blast
  have "c \<in> set (tl as @ [l_tail sa])" unfolding sp by simp
  then have c: "c \<in> set (tl as) \<or> c = l_tail sa" by auto
  have last: "(\<forall>x\<in>set (tl as). key_of (nodes sa) x < k) \<longrightarrow> c = l_tail sa"
  proof
    assume a: "\<forall>x\<in>set (tl as). key_of (nodes sa) x < k"
    have "post = []"
    proof (rule ccontr)
      assume pn: "post \<noteq> []"
      have "butlast (tl as @ [l_tail sa]) = butlast (p @ c # post)" using sp by simp
      then have "tl as = p @ c # butlast post" using pn by (simp add: butlast_append)
      then have "c \<in> set (tl as)" by simp
      then show False using a stop pn by blast
    qed
    then have "last (tl as @ [l_tail sa]) = c" using sp by simp
    then show "c = l_tail sa" by simp
  qed
  have ne': "hd as # p \<noteq> []" by simp
  have "list_find_ordered fuel t k LHead sa =
           Inr (key_of (nodes sa) c = k,
                (after LHead (hd as # p), c, if post = [] then c else hd post),
                sa\<lparr>hp := (hp sa)(t := f)\<rparr>)
          \<and> as @ [l_tail sa] = (hd as # p) @ c # post \<and> hd as # p \<noteq> []
          \<and> (\<forall>x\<in>set (tl (hd as # p)). key_of (nodes sa) x < k)
          \<and> (post = [] \<or> \<not> key_of (nodes sa) c < k)
          \<and> after LHead (hd as # p) = after LHead (hd as # p)
          \<and> (c \<in> set (tl as) \<or> c = l_tail sa)
          \<and> ((key_of (nodes sa) c = k) \<longleftrightarrow> key_of (nodes sa) c = k)
          \<and> ((\<forall>x\<in>set (tl as). key_of (nodes sa) x < k) \<longrightarrow> c = l_tail sa)"
    using run ext ne' lt' stop c last by blast
  then show ?thesis by blast
qed

lemma insert_store_unmarked:
  "insert_store nd w s = Inr s' \<Longrightarrow> \<not> is_marked w \<Longrightarrow>
     \<exists>m. nodes s' nd = Some m \<and> nxt m = get_unmarked w \<and> \<not> is_marked (nxt m)"
  by (auto simp: insert_store_def bindE_eq_Inr)

section \<open>The concrete lists are ready\<close>

lemma window_small: "window st b k \<Longrightarrow> used st = 0 \<Longrightarrow> b \<le> 8 \<Longrightarrow> k \<in> {0,1,2,3,4,5,6,7}"
  by (auto simp: window_def)

lemma avail0_small:
  assumes "k \<in> {0,1,2,3,4,5,6,7::nat}"
  shows "avail0 k \<noteq> 0" "aligned (avail0 k)" "avail0 k \<notin> {0x100, 0x180, 0x200, 0x300}"
  using assms by (auto simp: avail0_def aligned_def)

lemma avail0_inj:
  assumes "k \<in> {0,1,2,3,4,5,6,7::nat}" "k' \<in> {0,1,2,3,4,5,6,7::nat}" "avail0 k' = avail0 k"
  shows "k' = k"
  using assms avail0_unat[of k] avail0_unat[of k'] by auto

lemma alloc_ok_small:
  assumes "used st = 0" "b \<le> 8" "avail st = avail0" "dom (nodes st) \<subseteq> {0x100, 0x180, 0x200, 0x300}"
  shows "alloc_ok b st"
  unfolding alloc_ok_def
proof (intro allI impI conjI)
  fix k assume "window st b k"
  then have k: "k \<in> {0,1,2,3,4,5,6,7}" using window_small assms by blast
  show "avail st k \<noteq> 0" "aligned (avail st k)" using avail0_small[OF k] assms by auto
  show "avail st k \<notin> dom (nodes st)" using avail0_small(3)[OF k] assms by auto
  fix k' assume "window st b k'" "avail st k' = avail st k"
  then show "k' = k" using avail0_inj[OF k, of k'] window_small[of st b k'] assms by auto
qed

lemma retire_ready_rb_small:
  assumes "b \<le> 8" "st = st_rb0 \<or> st = st_rb1"
  shows "retire_ready_rb b st 0"
  unfolding retire_ready_rb_def
proof (intro conjI allI impI)
  show "root_empty st (rl st 0)" using assms(2) by (auto simp: root_empty_def st_rb0_def st_rb1_def nil_of_def)
  show "aligned (rl st 0)" using assms(2) by (auto simp: aligned_def st_rb0_def st_rb1_def)
  show "case rbs st (nil_of (rl st 0)) of None \<Rightarrow> False | Some n \<Rightarrow> parent_color n AND 1 = 1"
    using assms(2) by (auto simp: st_rb0_def st_rb1_def nil_of_def)
  fix k assume "window st b k"
  then have "k \<in> {0,1,2,3,4,5,6,7}" using window_small[of st b k] assms by (auto simp: st_rb0_def st_rb1_def)
  from avail0_small(3)[OF this] show "avail st k \<noteq> rl st 0"
    using assms(2) by (auto simp: st_rb0_def st_rb1_def)
next
  fix i j :: nat
  show "hp st i j = 0" using assms(2) by (auto simp: st_rb0_def st_rb1_def)
qed

lemma hp_ok_small: "hp_ok st_rb0 0" "hp_ok st_rb1 0" "hp_ok st_arr0 0" "hp_ok st_arr1 0"
  by (simp_all add: hp_ok_def st_rb0_def st_rb1_def st_arr0_def st_arr1_def HP_MAX_THREADS_def CLPAD_def)

lemma list_wf_small:
  "list_wf st_rb0 [0x100]" "list_wf st_rb1 [0x180, 0x100]"
  "list_wf st_arr0 [0x100]" "list_wf st_arr1 [0x100, 0x180]"
  by (simp_all add: list_wf_def st_rb0_def st_rb1_def st_arr0_def st_arr1_def plain_def is_marked_def)


lemma ready_rb1: "b \<le> 8 \<Longrightarrow> ready_rb b st_rb1 0 [0x180, 0x100]"
  unfolding ready_rb_def
  using hp_ok_small list_wf_small retire_ready_rb_small[of b st_rb1]
    alloc_ok_small[of st_rb1 b]
  by (simp add: st_rb0_def st_rb1_def)


lemma ready_arr1: "b \<le> 8 \<Longrightarrow> ready_arr b st_arr1 0 [0x100, 0x180]"
  unfolding ready_arr_def
  using hp_ok_small list_wf_small alloc_ok_small[of st_arr1 b]
  by (simp add: st_arr0_def st_arr1_def retire_ready_arr_def)

lemma keys_small:
  "key_of (nodes st_rb1) 0x180 = 5" "key_of (nodes st_rb1) 0x100 = 0"
  "key_of (nodes st_arr1) 0x180 = 5" "key_of (nodes st_arr1) 0x100 = 0"
  "key_of (nodes st_arr1) 0x200 = - 1" "key_of (nodes st_arr0) 0x200 = - 1"
  "key_of (nodes st_rb0) 0x100 = 0" "key_of (nodes st_arr0) 0x100 = 0"
  "l_tail st_arr1 = 0x200" "l_tail st_arr0 = 0x200" "l_tail st_rb0 = 0x200" "l_tail st_rb1 = 0x200"
  by (simp_all add: key_of_def st_rb0_def st_rb1_def st_arr0_def st_arr1_def)

section \<open>Runs on the concrete lists\<close>




lemma find_zero_rb0:
  "list_find 3 list_node_delete_rb 0 0 (LNull, 0, 0) st_rb0
     = Inr (False, (LHead, 0x100, 0x200),
            st_rb0\<lparr>hp := (hp st_rb0)(0 := (hp st_rb0 0)(HP_CURR := 0x100, HP_NEXT := 0x200))\<rparr>)"
proof -
  have e3: "(3 :: nat) = Suc (Suc (Suc 0))" by simp
  show ?thesis
    unfolding e3
    by (simp add: list_hp_protect_ptr_def hp_store_def st_rb0_def HP_MAX_THREADS_def CLPAD_def
          HP_CURR_def HP_NEXT_def get_unmarked_def)
qed

lemma find_five_arr1:
  "list_find_ordered (Suc (Suc (Suc (Suc m)))) 0 5 LHead st_arr1
     = Inr (True, (LNext 0x100, 0x180, 0x200),
            st_arr1\<lparr>hp := (hp st_arr1)(0 := (hp st_arr1 0)(HP_CURR := 0x100, HP_NEXT := 0x180,
                                                      HP_PREV := 0x100, HP_CURR := 0x180,
                                                      HP_NEXT := 0x200))\<rparr>)"
  by (simp add: list_hp_protect_ptr_def list_hp_protect_release_def hp_store_def
        find_ordered_result_def st_arr1_def st_arr0_def HP_MAX_THREADS_def CLPAD_def
        HP_CURR_def HP_NEXT_def HP_PREV_def get_unmarked_def is_marked_def Let_def)

lemma find_five_rb1:
  "list_find 5 list_node_delete_rb 0 5 (LNull, 0, 0) st_rb1
     = Inr (True, (LHead, 0x180, 0x100),
            st_rb1\<lparr>hp := (hp st_rb1)(0 := (hp st_rb1 0)(HP_CURR := 0x180, HP_NEXT := 0x100))\<rparr>)"
proof -
  have e5: "(5 :: nat) = Suc (Suc (Suc (Suc (Suc 0))))" by simp
  show ?thesis
    unfolding e5
    by (simp add: list_hp_protect_ptr_def hp_store_def st_rb1_def st_rb0_def HP_MAX_THREADS_def
          CLPAD_def HP_CURR_def HP_NEXT_def get_unmarked_def)
qed

section \<open>An allocator that hands out a freed block again\<close>




section \<open>A marked node that stays linked\<close>

lemma list_delete_loop_found:
  "list_delete_loop (Suc n) dfn t k o0 st =
     bindE (list_find n dfn t k o0 st) (\<lambda>(found, ou, st).
       list_delete_found n dfn t k found ou st)"
  by (simp add: list_delete_found_def split_def)

lemma four_fuel: "(4 :: nat) = Suc (Suc (Suc (Suc 0)))" by simp

lemma find_five_rb2:
  "list_find 4 list_node_delete_rb 0 5 (LNull, 0, 0) st_rb2
     = Inr (True, (LHead, 0x140, 0x1C0),
            st_rb2\<lparr>hp := (hp st_rb2)(0 := (hp st_rb2 0)(HP_CURR := 0x140, HP_NEXT := 0x1C0))\<rparr>)"
  unfolding four_fuel
  by (simp add: list_hp_protect_ptr_def hp_store_def st_rb2_def st_rb0_def HP_MAX_THREADS_def
        CLPAD_def HP_CURR_def HP_NEXT_def get_unmarked_def)

lemma insert_four_rb2:
  "list_insert 4 list_node_delete_rb 1 4
       (st_rb2\<lparr>hp := (hp st_rb2)(0 := (hp st_rb2 0)(HP_CURR := 0x140, HP_NEXT := 0x1C0))\<rparr>)
     = Inr (True, st_rb2\<lparr>nodes := (nodes st_rb2)
                             (0x1000 \<mapsto> \<lparr>magic = LIST_MAGIC, nxt = 0x140, key = 4\<rparr>),
                          l_head := 0x1000, used := 1,
                          hp := (hp st_rb2)(0 := (hp st_rb2 0)(HP_CURR := 0x140, HP_NEXT := 0x1C0))\<rparr>)"
  unfolding four_fuel list_insert_def
  apply (simp add: list_node_new_def avail0_def list_hp_protect_ptr_def hp_store_def st_rb2_def st_rb0_def HP_MAX_THREADS_def
        CLPAD_def HP_CURR_def HP_NEXT_def get_unmarked_def insert_store_def cas_def list_hp_clear_eq
        fun_eq_iff)
  done

lemma delete_found_rb2:
  "list_delete_found 4 list_node_delete_rb 0 5 True (LHead, 0x140, 0x1C0)
       (st_rb2\<lparr>nodes := (nodes st_rb2)
                             (0x1000 \<mapsto> \<lparr>magic = LIST_MAGIC, nxt = 0x140, key = 4\<rparr>),
                          l_head := 0x1000, used := 1,
                          hp := (hp st_rb2)(0 := (hp st_rb2 0)(HP_CURR := 0x140, HP_NEXT := 0x1C0))\<rparr>)
     = Inr (True, st_rb_marked)"
  unfolding list_delete_found_def st_rb_marked_def
  by (simp add: st_rb2_def st_rb0_def HP_MAX_THREADS_def get_marked_def
        CLPAD_def HP_CURR_def HP_NEXT_def get_unmarked_def cas_def list_hp_clear_eq
        fun_eq_iff)

lemma c6_run_marked: "c6_run = Inr (True, st_rb_marked)"
  unfolding c6_run_def find_five_rb2
  by (simp only: bindE_Inr prod.case insert_four_rb2 delete_found_rb2)

lemma insert_eight_marked:
  "list_insert 4 list_node_delete_rb 0 8 st_rb_marked
     = Inr (True, st_rb_marked\<lparr>nodes := (nodes st_rb_marked)
                             (0x1080 \<mapsto> \<lparr>magic = LIST_MAGIC, nxt = 0x140, key = 8\<rparr>,
                              0x1000 \<mapsto> \<lparr>magic = LIST_MAGIC, nxt = 0x1080, key = 4\<rparr>),
                          used := 2\<rparr>)"
  unfolding four_fuel list_insert_def
  apply (simp add: list_node_new_def avail0_def list_hp_protect_ptr_def list_hp_protect_release_def
        hp_store_def st_rb_marked_def st_rb2_def st_rb0_def HP_MAX_THREADS_def
        CLPAD_def HP_CURR_def HP_NEXT_def HP_PREV_def get_unmarked_def insert_store_def cas_def
        list_hp_clear_eq cong: if_cong)
  apply (simp add: fun_eq_iff)
  done

lemma marked_list_facts:
  "l_head st_rb_marked = 0x1000"
  "nodes st_rb_marked 0x1000 = Some \<lparr>magic = LIST_MAGIC, nxt = 0x140, key = 4\<rparr>"
  "nodes st_rb_marked 0x140 = Some \<lparr>magic = LIST_MAGIC, nxt = 0x1C1, key = 5\<rparr>"
  "nodes st_rb_marked 0x1C0 = Some \<lparr>magic = LIST_MAGIC, nxt = 0x100, key = 8\<rparr>"
  "nodes st_rb_marked 0x100 = Some \<lparr>magic = LIST_MAGIC, nxt = 0x200, key = 0\<rparr>"
  "l_tail st_rb_marked = 0x200" "get_unmarked 0x1C1 = 0x1C0" "is_marked 0x1C1" "\<not> is_marked 0x100"
  "hp st_rb_marked = (\<lambda>i j. 0)"
  by (simp_all add: st_rb_marked_def st_rb2_def st_rb0_def get_unmarked_def is_marked_def)

lemma find_five_marked:
  "bindE (list_find 4 list_node_delete_rb 0 5 (LNull, 0, 0) st_rb_marked)
         (\<lambda>(found, (prev, cur, nx), s). Inr (found, prev, cur, nx, key_of (nodes s) cur))
     = Inr (False, LNext 0x1000, 0x140, 0x1C1, 5)"
  unfolding four_fuel
  by (simp add: list_hp_protect_ptr_def list_hp_protect_release_def
        hp_store_def st_rb_marked_def st_rb2_def st_rb0_def HP_MAX_THREADS_def
        CLPAD_def HP_CURR_def HP_NEXT_def HP_PREV_def get_unmarked_def key_of_def)

section \<open>The claims\<close>

text \<open>
  C4.  The threshold \<open>HP_THRESHOLD_R\<close> is 0, so the early return of
  \<^verbatim>\<open>list_hp_retire\<close> is never taken: in both programs a retire is the insertion into
  the retire list, the capacity assertion, and then always the scan.
\<close>

theorem retire_always_scans:
  "list_hp_retire_arr da t p sa =
     bindE (rl_append_arr t p sa)
       (\<lambda>st1. if \<not> rl_size st1 t < HP_MAX_RETIRED then Inl AssertFailed
              else scan_arr da t 0 st1)
   \<and> list_hp_retire_rb fuel db t p sb =
     bindE (rl_insert_rb fuel t p sb) (\<lambda>st1.
     bindE (root_read (rl sb t) st1) (\<lambda>r.
     if \<not> cnt r < word_of_int HP_MAX_RETIRED then Inl AssertFailed
     else scan_rb fuel db t (rl sb t) st1))"
  by (simp only: retire_arr_scans retire_rb_scans)

text \<open>
  C10.  When \<^verbatim>\<open>list_hp_new\<close> returns, each of the \<open>max_hps\<close> hazard slots of each
  of the \<open>HP_MAX_THREADS\<close> threads holds 0 and each thread's retire list is empty: its
  size is 0 in the array form, its root counts 0 and points at its own \<^verbatim>\<open>nil\<close> in
  the indexed form.
\<close>

theorem hp_new_all_clear:
  "(list_hp_new_arr Ka sa = Inr sa' \<longrightarrow>
      (\<forall>i<HP_MAX_THREADS. (\<forall>j. int j < max_hps sa' \<longrightarrow> hp sa' i j = 0) \<and> rl_size sa' i = 0))
   \<and> (list_hp_new_rb Kb sb = Inr sb' \<longrightarrow>
      (\<forall>i<HP_MAX_THREADS. (\<forall>j. int j < max_hps sb' \<longrightarrow> hp sb' i j = 0)
                           \<and> root_empty sb' (rl sb' i)))"
  using list_hp_new_arr_zero[of Ka sa sa'] list_hp_new_rb_zero[of Kb sb sb'] by blast

theorem hp_new_all_clear_witness:
  "\<exists>sa' sb'. list_hp_new_arr 4 st0_arr = Inr sa' \<and> list_hp_new_rb 3 st0_rb = Inr sb'
     \<and> max_hps sa' = 4 \<and> max_hps sb' = 3
     \<and> (\<forall>i<HP_MAX_THREADS. (\<forall>j. int j < max_hps sa' \<longrightarrow> hp sa' i j = 0) \<and> rl_size sa' i = 0)
     \<and> (\<forall>i<HP_MAX_THREADS. (\<forall>j. int j < max_hps sb' \<longrightarrow> hp sb' i j = 0)
                           \<and> root_empty sb' (rl sb' i))"
proof -
  obtain sa' where a: "list_hp_new_arr 4 st0_arr = Inr sa'" "max_hps sa' = 4"
    using hp_new_arr_loop_total[of HP_MAX_THREADS "st0_arr\<lparr>max_hps := 4\<rparr>"]
    by (auto simp: list_hp_new_arr_def CLPAD_def)
  have "\<forall>k<HP_MAX_THREADS. avail0 k \<noteq> 0"
    using avail0_nz by (auto simp: HP_MAX_THREADS_def)
  then obtain sb' where b: "list_hp_new_rb 3 st0_rb = Inr sb'" "max_hps sb' = 3"
    using hp_new_rb_loop_total[of HP_MAX_THREADS "st0_rb\<lparr>max_hps := 3, rl := (\<lambda>i. 0)\<rparr>"]
    by (auto simp: list_hp_new_rb_def CLPAD_def st0_rb_def)
  from hp_new_all_clear[of 4 st0_arr sa' 3 st0_rb sb'] a b show ?thesis by blast
qed

text \<open>
  C9.  On a retire index that is a tree of distinct nodes, \<^verbatim>\<open>rbtree_clean\<close> applies the
  deleter to the nodes in preorder: to each node of the tree once, and to nothing else.
  The deleter may free the node it is given and must leave the other nodes alone.
\<close>

theorem rbtree_clean_each_once:
  assumes "deleter_frame f" and "roots st root = Some x"
    and "rb_tree_at (rbs st) (nil_of root) (head x) t"
    and "distinct (preorder t)" and "height t < fuel"
  shows "rbtree_clean fuel root f st = foldE f (preorder t) st
         \<and> (\<forall>a. count_list (preorder t) a = (if a \<in> set_tree t then 1 else 0))"
  using rbtree_clean_rec_preorder[OF assms(1,3,4,5)] assms(2) count_list_distinct[OF assms(4)]
  by (simp add: rbtree_clean_def root_read_def)

theorem rbtree_clean_each_once_witness:
  "rbtree_clean 3 0x100 list_node_delete_rb st_tree
     = foldE list_node_delete_rb [0x208, 0x308, 0x408] st_tree
   \<and> (\<exists>s. foldE list_node_delete_rb [0x208, 0x308, 0x408] st_tree = Inr s
          \<and> nodes s = Map.empty \<and> recs s = Map.empty)"
proof -
  have r: "roots st_tree 0x100 = Some \<lparr>head = 0x208, cnt = 3\<rparr>"
    by (simp add: st_tree_def)
  have t: "rb_tree_at (rbs st_tree) (nil_of 0x100) (head \<lparr>head = 0x208, cnt = 3\<rparr>)
             (Node (Node Leaf 0x308 Leaf) 0x208 (Node Leaf 0x408 Leaf))"
    by (simp add: st_tree_def nil_of_def)
  have d: "distinct (preorder (Node (Node Leaf (0x308::ptr) Leaf) 0x208 (Node Leaf 0x408 Leaf)))"
    by simp
  have h: "height (Node (Node Leaf (0x308::ptr) Leaf) 0x208 (Node Leaf 0x408 Leaf)) < 3"
    by simp
  have e: "\<exists>s. foldE list_node_delete_rb [0x208, 0x308, 0x408] st_tree = Inr s
          \<and> nodes s = Map.empty \<and> recs s = Map.empty"
    by (simp add: st_tree_def list_node_delete_rb_def rec_ptr_def container_of_def
          list_node_destroy_def LIST_MAGIC_def free_rec_def rbnode_of_def fun_eq_iff)
  from rbtree_clean_each_once[OF list_node_delete_rb_frame r t d h] e show ?thesis
    by simp
qed

text \<open>
  C1 fails on the code.  In the array form the scan removes a retired pointer by moving
  the rest of the array down and then still advances its index, so the pointer that
  follows a removed one is not examined.  In the run \<open>c1_run\<close> the second retire finds
  the list \<open>[0x1000, 0x2000]\<close> with no slot holding either; it deletes \<open>0x1000\<close> and
  leaves \<open>0x2000\<close> retired and allocated, although the scan's own test lets it go.
\<close>

theorem scan_arr_skips_after_removal:
  "bindE c1_run (\<lambda>s. Inr (retired_of s 0, nodes s 0x1000 = None, nodes s 0x2000 = None,
                          can_delete_tids 0x2000 [0..<HP_MAX_THREADS] s))
     = Inr ([0x2000], True, False, Inr True)"
proof -
  define s1 where "s1 = st_c1\<lparr>rl_list := (rl_list st_c1)(0 := (rl_list st_c1 0)(0 := 0x1000)),
                  rl_size := (rl_size st_c1)(0 := 1)\<rparr>"
  define s2 where "s2 = s1\<lparr>hp := (hp s1)(1 := (\<lambda>j. if j < 4 then 0 else hp s1 1 j))\<rparr>"
  define s3 where "s3 = s2\<lparr>rl_list := (rl_list s2)(0 := (rl_list s2 0)(1 := 0x2000)),
                  rl_size := (rl_size s2)(0 := 2)\<rparr>"
  define s4 where "s4 = s3\<lparr>rl_list := (rl_list s3)(0 := (\<lambda>k. if k < 2 then rl_list s3 0 (Suc k) else rl_list s3 0 k)),
                  rl_size := (rl_size s3)(0 := 1)\<rparr>"
  define s5 where "s5 = s4\<lparr>nodes := (nodes s4)(0x1000 := None)\<rparr>"
  have f1: "max_hps s1 = 4" "rl_size s1 0 = 1" "rl_list s1 0 0 = 0x1000"
    "hp s1 = (\<lambda>i j. if i = 1 \<and> j = HP_CURR then 0x1000 else 0)"
    "nodes s1 = nodes st_c1"
    by (simp_all add: s1_def st_c1_def)
  have f2: "max_hps s2 = 4" "rl_size s2 0 = 1" "rl_list s2 0 0 = 0x1000" "hp s2 = (\<lambda>i j. 0)"
    "nodes s2 = nodes st_c1"
    using f1 by (auto simp: s2_def fun_eq_iff HP_CURR_def)
  have f3: "max_hps s3 = 4" "rl_size s3 0 = 2" "rl_list s3 0 0 = 0x1000" "rl_list s3 0 1 = 0x2000"
    "hp s3 = (\<lambda>i j. 0)" "nodes s3 = nodes st_c1"
    using f2 by (simp_all add: s3_def)
  have f4: "max_hps s4 = 4" "rl_size s4 0 = 1" "rl_list s4 0 0 = 0x2000"
    "hp s4 = (\<lambda>i j. 0)" "nodes s4 = nodes st_c1"
    using f3 by (simp_all add: s4_def)
  have f5: "max_hps s5 = 4" "rl_size s5 0 = 1" "rl_list s5 0 0 = 0x2000"
    "hp s5 = (\<lambda>i j. 0)" "nodes s5 = (nodes st_c1)(0x1000 := None)"
    using f4 by (simp_all add: s5_def)
  have clr: "list_hp_clear 1 s1 = Inr s2"
    by (simp add: list_hp_clear_eq s2_def f1(1) HP_MAX_THREADS_def CLPAD_def cong: if_cong)
  have app: "rl_append_arr 0 0x2000 s2 = Inr s3"
    by (simp add: rl_append_arr_def f2 s3_def HP_MAX_RETIRED_def HP_MAX_THREADS_def HP_MAX_HPS_def)
  have cd3: "can_delete_tids 0x1000 [0..<HP_MAX_THREADS] s3 = Inr True"
    by (subst can_delete_all) (simp_all add: f3 CLPAD_def)
  have cd5: "can_delete_tids 0x2000 [0..<HP_MAX_THREADS] s5 = Inr True"
    by (subst can_delete_all) (simp_all add: f5 CLPAD_def)
  have rm: "rl_remove 0 0 s3 = Inr s4"
    by (simp add: rl_remove_def f3 s4_def HP_MAX_RETIRED_def HP_MAX_THREADS_def HP_MAX_HPS_def
          cong: if_cong)
  have del: "list_node_delete_arr 0x1000 (nodes s4) = Inr (nodes s5)"
    by (simp add: list_node_delete_arr_def list_node_destroy_def f4 f5 st_c1_def)
  have sc1: "scan_arr list_node_delete_arr 0 1 s5 = Inr s5"
    by (subst scan_arr.simps) (simp add: f5)
  have sc0: "scan_arr list_node_delete_arr 0 0 s3 = Inr s5"
    apply (subst scan_arr.simps)
    using cd3 rm del sc1
    by (simp add: f3 s5_def HP_MAX_RETIRED_def HP_MAX_THREADS_def HP_MAX_HPS_def)
  have run: "c1_run = Inr s5"
    unfolding c1_run_def c1_step1 s1_def[symmetric]
    using clr app sc0
    by (simp add: retire_arr_scans f3 HP_MAX_RETIRED_def HP_MAX_THREADS_def HP_MAX_HPS_def)
  have obs: "retired_of s5 0 = [0x2000]" "nodes s5 0x1000 = None" "nodes s5 0x2000 \<noteq> None"
    by (simp_all add: retired_of_def f5 st_c1_def)
  show ?thesis unfolding run using obs cd5 by auto
qed



text \<open>
  On a list with no marked node an insertion of a key that the list holds returns
  false, and the node it allocated is free again at the return: the heap of nodes is the
  one before the call and the address handed out is not allocated.  Of two insertions
  of a key that the list does not hold, the second returns false and leaves the heap of
  nodes as the first left it.  This holds of \<^verbatim>\<open>list_insert\<close> on a list of nodes \<open>bs\<close>
  (the keys it holds are those of \<open>butlast bs\<close>, increasing) and of
  \<^verbatim>\<open>list_insert_conti\<close> on a list of nodes \<open>as\<close> (the keys it holds are those of
  \<open>tl as\<close>, increasing, and the tail node has the key \<^verbatim>\<open>UINTPTR_MAX\<close>).  With the
  ordered find the first of the two insertions returns false as well when the key is
  \<^verbatim>\<open>UINTPTR_MAX\<close>.
\<close>

lemma insert_present_plain:
  assumes "ready_rb (Suc (Suc b)) sb t bs"
    and "sorted_wrt (<) (map (key_of (nodes sb)) (butlast bs))"
    and "length bs + 4 \<le> fuel"
    and "ready_arr (Suc (Suc b')) sa t' as"
    and "sorted_wrt (<) (map (key_of (nodes sa)) (tl as))"
    and "key_of (nodes sa) (l_tail sa) = - 1"
    and "length as + 5 \<le> fuel'"
  shows "(k \<in> key_of (nodes sb) ` set (butlast bs) \<longrightarrow>
            (\<exists>s1. list_insert fuel dfn t k sb = Inr (False, s1) \<and> nodes s1 = nodes sb
                  \<and> used s1 = Suc (used sb) \<and> nodes s1 (avail sb (used sb)) = None))
       \<and> (k \<notin> key_of (nodes sb) ` set (butlast bs) \<longrightarrow>
            (\<exists>s1 s2. list_insert fuel dfn t k sb = Inr (True, s1)
                  \<and> list_insert fuel dfn t k s1 = Inr (False, s2) \<and> nodes s2 = nodes s1))
       \<and> (k' \<in> key_of (nodes sa) ` set (tl as) \<longrightarrow>
            (\<exists>s1. list_insert_conti fuel' t' k' sa = Inr (False, s1) \<and> nodes s1 = nodes sa
                  \<and> used s1 = Suc (used sa) \<and> nodes s1 (avail sa (used sa)) = None))
       \<and> (k' \<notin> key_of (nodes sa) ` set (tl as) \<longrightarrow>
            (\<exists>s1 s2. list_insert_conti fuel' t' k' sa = Inr (k' \<noteq> - 1, s1)
                  \<and> list_insert_conti fuel' t' k' s1 = Inr (False, s2) \<and> nodes s2 = nodes s1))"
proof (intro conjI impI)
  have fb: "length bs + 3 \<le> fuel" and fa: "length as + 4 \<le> fuel'" using assms(3,7) by simp_all
  have frb: "avail sb (used sb) \<notin> dom (nodes sb)"
    using assms(1) alloc_okD(3)[of "Suc (Suc b)" sb "used sb"] by (simp add: ready_rb_def window_def)
  have fra: "avail sa (used sa) \<notin> dom (nodes sa)"
    using assms(4) alloc_okD(3)[of "Suc (Suc b')" sa "used sa"] by (simp add: ready_arr_def window_def)
  {
    assume "k \<in> key_of (nodes sb) ` set (butlast bs)"
    from rb_insert_present[OF assms(1,2) this fb, of dfn]
    obtain f where "list_insert fuel dfn t k sb
               = Inr (False, sb\<lparr>hp := (hp sb)(t := f), used := Suc (used sb)\<rparr>)" by blast
    then have "list_insert fuel dfn t k sb
               = Inr (False, sb\<lparr>hp := (hp sb)(t := f), used := Suc (used sb)\<rparr>)
         \<and> nodes (sb\<lparr>hp := (hp sb)(t := f), used := Suc (used sb)\<rparr>) = nodes sb
         \<and> used (sb\<lparr>hp := (hp sb)(t := f), used := Suc (used sb)\<rparr>) = Suc (used sb)
         \<and> nodes (sb\<lparr>hp := (hp sb)(t := f), used := Suc (used sb)\<rparr>) (avail sb (used sb)) = None"
      using frb by auto
    then show "\<exists>s1. list_insert fuel dfn t k sb = Inr (False, s1) \<and> nodes s1 = nodes sb
                  \<and> used s1 = Suc (used sb) \<and> nodes s1 (avail sb (used sb)) = None" by blast
  }
  {
    assume "k \<notin> key_of (nodes sb) ` set (butlast bs)"
    from rb_insert_twice[OF assms(1) this assms(3), of dfn]
    show "\<exists>s1 s2. list_insert fuel dfn t k sb = Inr (True, s1)
                  \<and> list_insert fuel dfn t k s1 = Inr (False, s2) \<and> nodes s2 = nodes s1" .
  }
  {
    assume "k' \<in> key_of (nodes sa) ` set (tl as)"
    from arr_insert_present[OF assms(4,5) this fa]
    obtain f where "list_insert_conti fuel' t' k' sa
               = Inr (False, sa\<lparr>hp := (hp sa)(t' := f), used := Suc (used sa)\<rparr>)" by blast
    then have "list_insert_conti fuel' t' k' sa
               = Inr (False, sa\<lparr>hp := (hp sa)(t' := f), used := Suc (used sa)\<rparr>)
         \<and> nodes (sa\<lparr>hp := (hp sa)(t' := f), used := Suc (used sa)\<rparr>) = nodes sa
         \<and> used (sa\<lparr>hp := (hp sa)(t' := f), used := Suc (used sa)\<rparr>) = Suc (used sa)
         \<and> nodes (sa\<lparr>hp := (hp sa)(t' := f), used := Suc (used sa)\<rparr>) (avail sa (used sa)) = None"
      using fra by auto
    then show "\<exists>s1. list_insert_conti fuel' t' k' sa = Inr (False, s1) \<and> nodes s1 = nodes sa
                  \<and> used s1 = Suc (used sa) \<and> nodes s1 (avail sa (used sa)) = None" by blast
  }
  {
    assume "k' \<notin> key_of (nodes sa) ` set (tl as)"
    from arr_insert_twice[OF assms(4) this assms(6,7)]
    show "\<exists>s1 s2. list_insert_conti fuel' t' k' sa = Inr (k' \<noteq> - 1, s1)
                  \<and> list_insert_conti fuel' t' k' s1 = Inr (False, s2) \<and> nodes s2 = nodes s1" .
  }
qed

lemma insert_present_plain_example:
  "ready_rb 2 st_rb1 0 [0x180, 0x100]
   \<and> sorted_wrt (<) (map (key_of (nodes st_rb1)) (butlast [0x180, 0x100]))
   \<and> length [0x180, 0x100 :: ptr] + 4 \<le> (8 :: nat)
   \<and> ready_arr 2 st_arr1 0 [0x100, 0x180]
   \<and> sorted_wrt (<) (map (key_of (nodes st_arr1)) (tl [0x100, 0x180]))
   \<and> key_of (nodes st_arr1) (l_tail st_arr1) = - 1
   \<and> length [0x100, 0x180 :: ptr] + 5 \<le> (8 :: nat)
   \<and> 5 \<in> key_of (nodes st_rb1) ` set (butlast [0x180, 0x100])
   \<and> (\<exists>s1. list_insert 8 list_node_delete_rb 0 5 st_rb1 = Inr (False, s1) \<and> nodes s1 = nodes st_rb1
            \<and> used s1 = Suc (used st_rb1) \<and> nodes s1 (avail st_rb1 (used st_rb1)) = None)
   \<and> 7 \<notin> key_of (nodes st_rb1) ` set (butlast [0x180, 0x100])
   \<and> (\<exists>s1 s2. list_insert 8 list_node_delete_rb 0 7 st_rb1 = Inr (True, s1)
            \<and> list_insert 8 list_node_delete_rb 0 7 s1 = Inr (False, s2) \<and> nodes s2 = nodes s1)
   \<and> 5 \<in> key_of (nodes st_arr1) ` set (tl [0x100, 0x180])
   \<and> (\<exists>s1. list_insert_conti 8 0 5 st_arr1 = Inr (False, s1) \<and> nodes s1 = nodes st_arr1
            \<and> used s1 = Suc (used st_arr1) \<and> nodes s1 (avail st_arr1 (used st_arr1)) = None)
   \<and> 7 \<notin> key_of (nodes st_arr1) ` set (tl [0x100, 0x180])
   \<and> (\<exists>s1 s2. list_insert_conti 8 0 7 st_arr1 = Inr (True, s1)
            \<and> list_insert_conti 8 0 7 s1 = Inr (False, s2) \<and> nodes s2 = nodes s1)"
  using insert_present_plain[of 0 st_rb1 0 "[0x180, 0x100]" 8 0 st_arr1 0 "[0x100, 0x180]" 8
          5 list_node_delete_rb 5]
        insert_present_plain[of 0 st_rb1 0 "[0x180, 0x100]" 8 0 st_arr1 0 "[0x100, 0x180]" 8
          7 list_node_delete_rb 7]
        ready_rb1[of 2] ready_rb1[of "Suc (Suc 0)"] ready_arr1[of 2] ready_arr1[of "Suc (Suc 0)"]
        keys_small
  by simp

text \<open>
  C6 fails on the code of \<^verbatim>\<open>list_insert\<close>, on a list in which a marked node is still
  linked.  Such a list is left behind, with no thread in a call, by a \<^verbatim>\<open>list_delete\<close>
  whose second compare-and-swap fails: in \<open>c6_run\<close>, which is the \<^verbatim>\<open>list_delete\<close> of
  thread 0 for the key 5 with a \<^verbatim>\<open>list_insert\<close> of thread 1 for the key 4 after its
  find, the deletion marks the node of the key 5, fails to unlink it and returns true.
  In the list \<open>st_rb_marked\<close> that it leaves, the node at 0x1C0 has the key 8 and is
  not marked.  The find of \<^verbatim>\<open>list_insert\<close> for the key 8 leaves its loop at the marked
  node before it, since the word it loads there differs from the unmarked word it
  compares it with, and returns false; the insertion links a second node of the key 8
  before the marked node and returns true.
\<close>

theorem insert_present_marked_returns_true:
  "list_delete 5 list_node_delete_rb 0 5 st_rb2
     = bindE (list_find 4 list_node_delete_rb 0 5 (LNull, 0, 0) st_rb2) (\<lambda>(found, ou, s).
         list_delete_found 4 list_node_delete_rb 0 5 found ou s)
   \<and> c6_run = Inr (True, st_rb_marked)
   \<and> l_head st_rb_marked = 0x1000
   \<and> nodes st_rb_marked 0x1000 = Some \<lparr>magic = LIST_MAGIC, nxt = 0x140, key = 4\<rparr>
   \<and> nodes st_rb_marked 0x140 = Some \<lparr>magic = LIST_MAGIC, nxt = 0x1C1, key = 5\<rparr>
   \<and> nodes st_rb_marked 0x1C0 = Some \<lparr>magic = LIST_MAGIC, nxt = 0x100, key = 8\<rparr>
   \<and> get_unmarked 0x1C1 = 0x1C0 \<and> hp st_rb_marked = (\<lambda>i j. 0)
   \<and> list_insert 4 list_node_delete_rb 0 8 st_rb_marked
     = Inr (True, st_rb_marked\<lparr>nodes := (nodes st_rb_marked)
                             (0x1080 \<mapsto> \<lparr>magic = LIST_MAGIC, nxt = 0x140, key = 8\<rparr>,
                              0x1000 \<mapsto> \<lparr>magic = LIST_MAGIC, nxt = 0x1080, key = 4\<rparr>),
                          used := 2\<rparr>)"
proof -
  have e5: "(5 :: nat) = Suc 4" by simp
  have d: "list_delete 5 list_node_delete_rb 0 5 st_rb2
     = bindE (list_find 4 list_node_delete_rb 0 5 (LNull, 0, 0) st_rb2) (\<lambda>(found, ou, s).
         list_delete_found 4 list_node_delete_rb 0 5 found ou s)"
    unfolding list_delete_def e5 by (rule list_delete_loop_found)
  note f = d c6_run_marked marked_list_facts(1,2,3,4,7,10) insert_eight_marked
  show ?thesis by (intro conjI) (rule f)+
qed



text \<open>
  C2, as amended.  For every key \<open>k\<close>, on a list in which no linked node is marked and
  with no other thread: \<^verbatim>\<open>__list_find\<close> reports the first node whose key is not smaller
  than \<open>k\<close> if there is one before the last node, and the last node before the tail if
  there is none, whatever the key of that node; so it never reports the tail node.  It
  returns true exactly if the reported node has the key \<open>k\<close> and is not the last node
  before the tail.  \<^verbatim>\<open>__list_find_ordered\<close>, started at \<^verbatim>\<open>list->head\<close>, reports the
  first node after the first whose key is not smaller than \<open>k\<close>, and the tail node if
  there is none; it returns true exactly if the reported node has the key \<open>k\<close>.  Both
  report as \<^verbatim>\<open>prev\<close> the word that points at the reported node, and change nothing but
  the hazard slots of the caller.
  In every state, whatever the list: when \<^verbatim>\<open>__list_find\<close> returns true the reported
  node has the key \<open>k\<close>, and \<^verbatim>\<open>__list_find_ordered\<close>, from any start, returns true
  exactly if the node it reports has the key \<open>k\<close>.
\<close>

theorem find_reports:
  "(t < HP_MAX_THREADS \<and> list_wf sb bs \<and> length bs + 2 \<le> fuel \<longrightarrow>
      (\<exists>found prev cur nx f pre post.
            list_find fuel dfn t k o0 sb
              = Inr (found, (prev, cur, nx), sb\<lparr>hp := (hp sb)(t := f)\<rparr>)
          \<and> bs = pre @ cur # post
          \<and> (\<forall>x\<in>set pre. key_of (nodes sb) x < k)
          \<and> (post = [] \<or> \<not> key_of (nodes sb) cur < k)
          \<and> prev = after LHead pre \<and> nx = hd (post @ [l_tail sb])
          \<and> cur \<in> set bs \<and> cur \<noteq> l_tail sb
          \<and> (found \<longleftrightarrow> key_of (nodes sb) cur = k \<and> cur \<noteq> last bs)
          \<and> ((\<forall>x\<in>set (butlast bs). key_of (nodes sb) x < k) \<longrightarrow> \<not> found \<and> cur = last bs)))
   \<and> (t' < HP_MAX_THREADS \<and> list_wf sa as \<and> length as + 3 \<le> fuel' \<longrightarrow>
      (\<exists>found prev cur nx f pre post.
            list_find_ordered fuel' t' k' LHead sa
              = Inr (found, (prev, cur, nx), sa\<lparr>hp := (hp sa)(t' := f)\<rparr>)
          \<and> as @ [l_tail sa] = pre @ cur # post \<and> pre \<noteq> []
          \<and> (\<forall>x\<in>set (tl pre). key_of (nodes sa) x < k')
          \<and> (post = [] \<or> \<not> key_of (nodes sa) cur < k')
          \<and> prev = after LHead pre
          \<and> (cur \<in> set (tl as) \<or> cur = l_tail sa)
          \<and> (found \<longleftrightarrow> key_of (nodes sa) cur = k')
          \<and> ((\<forall>x\<in>set (tl as). key_of (nodes sa) x < k') \<longrightarrow> cur = l_tail sa)))
   \<and> (list_find n dfn u x o1 s = Inr (True, (p, c, y), s1) \<longrightarrow> key_of (nodes s1) c = x)
   \<and> (list_find_ordered n' u' x' start s' = Inr (fnd, (p', c', y'), s1')
         \<longrightarrow> (fnd \<longleftrightarrow> key_of (nodes s1') c' = x'))"
proof (intro conjI impI)
  assume "t < HP_MAX_THREADS \<and> list_wf sb bs \<and> length bs + 2 \<le> fuel"
  then show "\<exists>found prev cur nx f pre post.
            list_find fuel dfn t k o0 sb
              = Inr (found, (prev, cur, nx), sb\<lparr>hp := (hp sb)(t := f)\<rparr>)
          \<and> bs = pre @ cur # post
          \<and> (\<forall>x\<in>set pre. key_of (nodes sb) x < k)
          \<and> (post = [] \<or> \<not> key_of (nodes sb) cur < k)
          \<and> prev = after LHead pre \<and> nx = hd (post @ [l_tail sb])
          \<and> cur \<in> set bs \<and> cur \<noteq> l_tail sb
          \<and> (found \<longleftrightarrow> key_of (nodes sb) cur = k \<and> cur \<noteq> last bs)
          \<and> ((\<forall>x\<in>set (butlast bs). key_of (nodes sb) x < k) \<longrightarrow> \<not> found \<and> cur = last bs)"
    using find_rb_reports[of t sb bs fuel dfn k o0] by blast
next
  assume "t' < HP_MAX_THREADS \<and> list_wf sa as \<and> length as + 3 \<le> fuel'"
  then show "\<exists>found prev cur nx f pre post.
            list_find_ordered fuel' t' k' LHead sa
              = Inr (found, (prev, cur, nx), sa\<lparr>hp := (hp sa)(t' := f)\<rparr>)
          \<and> as @ [l_tail sa] = pre @ cur # post \<and> pre \<noteq> []
          \<and> (\<forall>x\<in>set (tl pre). key_of (nodes sa) x < k')
          \<and> (post = [] \<or> \<not> key_of (nodes sa) cur < k')
          \<and> prev = after LHead pre
          \<and> (cur \<in> set (tl as) \<or> cur = l_tail sa)
          \<and> (found \<longleftrightarrow> key_of (nodes sa) cur = k')
          \<and> ((\<forall>x\<in>set (tl as). key_of (nodes sa) x < k') \<longrightarrow> cur = l_tail sa)"
    using find_arr_reports[of t' sa as fuel' k'] by blast
next
  assume "list_find n dfn u x o1 s = Inr (True, (p, c, y), s1)"
  then show "key_of (nodes s1) c = x" using find_rb_found by blast
next
  assume "list_find_ordered n' u' x' start s' = Inr (fnd, (p', c', y'), s1')"
  then show "fnd \<longleftrightarrow> key_of (nodes s1') c' = x'" using find_ordered_found by blast
qed

theorem find_reports_witness:
  "(0 :: nat) < HP_MAX_THREADS \<and> list_wf st_rb1 [0x180, 0x100] \<and> length [0x180, 0x100 :: ptr] + 2 \<le> (5 :: nat)
   \<and> list_wf st_arr1 [0x100, 0x180] \<and> length [0x100, 0x180 :: ptr] + 3 \<le> (5 :: nat)
   \<and> (\<exists>found prev cur nx s'.
            list_find 5 list_node_delete_rb 0 5 (LNull, 0, 0) st_rb1 = Inr (found, (prev, cur, nx), s')
          \<and> (found \<longleftrightarrow> key_of (nodes st_rb1) cur = 5 \<and> cur \<noteq> last [0x180, 0x100])
          \<and> key_of (nodes s') cur = 5 \<and> found \<and> cur = 0x180)
   \<and> (\<exists>found prev cur nx s'.
            list_find 5 list_node_delete_rb 0 7 (LNull, 0, 0) st_rb1 = Inr (found, (prev, cur, nx), s')
          \<and> cur \<in> set [0x180, 0x100] \<and> cur \<noteq> l_tail st_rb1
          \<and> (found \<longleftrightarrow> key_of (nodes st_rb1) cur = 7 \<and> cur \<noteq> last [0x180, 0x100])
          \<and> \<not> found \<and> cur = 0x100)
   \<and> (\<exists>found prev cur nx s'.
            list_find_ordered 5 0 5 LHead st_arr1 = Inr (found, (prev, cur, nx), s')
          \<and> (found \<longleftrightarrow> key_of (nodes st_arr1) cur = 5)
          \<and> (found \<longleftrightarrow> key_of (nodes s') cur = 5)
          \<and> found \<and> cur = 0x180)
   \<and> (\<exists>found prev cur nx s'.
            list_find_ordered 5 0 7 LHead st_arr1 = Inr (found, (prev, cur, nx), s')
          \<and> (found \<longleftrightarrow> key_of (nodes st_arr1) cur = 7)
          \<and> \<not> found \<and> cur = l_tail st_arr1)"
proof -
  have a: "\<forall>x\<in>set (butlast [0x180, 0x100]). key_of (nodes st_rb1) x < 7"
    "\<forall>x\<in>set (tl [0x100, 0x180]). key_of (nodes st_arr1) x < 7"
    using keys_small by simp_all
  have h: "(0 :: nat) < HP_MAX_THREADS" by (simp add: HP_MAX_THREADS_def)
  have l: "length [0x180, 0x100 :: ptr] + 2 \<le> (5 :: nat)" "length [0x100, 0x180 :: ptr] + 3 \<le> (5 :: nat)"
    by simp_all
  have w: "list_wf st_rb1 [0x180, 0x100]" "list_wf st_arr1 [0x100, 0x180]"
    using list_wf_small by simp_all
  have k: "key_of (nodes st_rb1) 0x180 = 5" "key_of (nodes st_arr1) 0x180 = 5"
    "key_of (nodes st_arr1) (l_tail st_arr1) \<noteq> 7" "last [0x180, 0x100 :: ptr] = 0x100"
    "(0x180 :: ptr) \<noteq> 0x100"
    using keys_small by simp_all
  note five_all = find_reports[where t=0 and sb=st_rb1 and bs="[0x180, 0x100]" and fuel=5
          and t'=0 and sa=st_arr1 and as="[0x100, 0x180]" and fuel'=5
          and dfn=list_node_delete_rb and k=5 and ?o0.0="(LNull, 0, 0)" and k'=5
          and n=5 and u=0 and x=5 and ?o1.0="(LNull, 0, 0)" and s=st_rb1
          and n'=5 and u'=0 and x'=5 and start=LHead and s'=st_arr1]
  note seven_all = find_reports[where t=0 and sb=st_rb1 and bs="[0x180, 0x100]" and fuel=5
          and t'=0 and sa=st_arr1 and as="[0x100, 0x180]" and fuel'=5
          and dfn=list_node_delete_rb and k=7 and ?o0.0="(LNull, 0, 0)" and k'=7]
  have hb: "0 < HP_MAX_THREADS \<and> list_wf st_rb1 [0x180, 0x100] \<and> length [0x180, 0x100 :: ptr] + 2 \<le> (5 :: nat)"
    using h w l by blast
  have ha: "0 < HP_MAX_THREADS \<and> list_wf st_arr1 [0x100, 0x180] \<and> length [0x100, 0x180 :: ptr] + 3 \<le> (5 :: nat)"
    using h w l by blast
  from five_all[THEN conjunct1, THEN mp, OF hb]
  obtain fb pb cb nb sb' where
    fiveb: "list_find 5 list_node_delete_rb 0 5 (LNull, 0, 0) st_rb1 = Inr (fb, (pb, cb, nb), sb')"
      "fb \<longleftrightarrow> key_of (nodes st_rb1) cb = 5 \<and> cb \<noteq> last [0x180, 0x100]"
    by blast
  from five_all[THEN conjunct2, THEN conjunct1, THEN mp, OF ha]
  obtain fa pa ca na sa' where
    fivea: "list_find_ordered 5 0 5 LHead st_arr1 = Inr (fa, (pa, ca, na), sa')"
      "fa \<longleftrightarrow> key_of (nodes st_arr1) ca = 5"
    by blast
  have cb: "cb = 0x180" using fiveb(1) find_five_rb1 by simp
  have e5: "(5 :: nat) = Suc (Suc (Suc (Suc 1)))" by simp
  have ca: "ca = 0x180" using fivea(1) find_five_arr1[of 1] unfolding e5 by simp
  have fb: "fb" using fiveb(2) cb k by simp
  have fa: "fa" using fivea(2) ca k by simp
  have kb: "key_of (nodes sb') cb = 5"
    by (rule five_all[THEN conjunct2, THEN conjunct2, THEN conjunct1, THEN mp])
       (use fiveb(1) fb in simp)
  have ka: "fa \<longleftrightarrow> key_of (nodes sa') ca = 5"
    by (rule five_all[THEN conjunct2, THEN conjunct2, THEN conjunct2, THEN mp]) (rule fivea(1))
  from seven_all[THEN conjunct1, THEN mp, OF hb] a(1)
  obtain fb' pb' cb' nb' sb'' where
    sevenb: "list_find 5 list_node_delete_rb 0 7 (LNull, 0, 0) st_rb1 = Inr (fb', (pb', cb', nb'), sb'')"
      "cb' \<in> set [0x180, 0x100]" "cb' \<noteq> l_tail st_rb1"
      "fb' \<longleftrightarrow> key_of (nodes st_rb1) cb' = 7 \<and> cb' \<noteq> last [0x180, 0x100]"
      "\<not> fb'" "cb' = last [0x180, 0x100]"
    by blast
  from seven_all[THEN conjunct2, THEN conjunct1, THEN mp, OF ha] a(2)
  obtain fa' pa' ca' na' sa'' where
    sevena: "list_find_ordered 5 0 7 LHead st_arr1 = Inr (fa', (pa', ca', na'), sa'')"
      "fa' \<longleftrightarrow> key_of (nodes st_arr1) ca' = 7" "ca' = l_tail st_arr1"
    by blast
  have fa': "\<not> fa'" using sevena(2,3) k(3) by simp
  have c0: "cb' = 0x100" using sevenb(6) k(4) by simp
  have B5: "\<exists>found prev cur nx s'.
            list_find 5 list_node_delete_rb 0 5 (LNull, 0, 0) st_rb1 = Inr (found, (prev, cur, nx), s')
          \<and> (found \<longleftrightarrow> key_of (nodes st_rb1) cur = 5 \<and> cur \<noteq> last [0x180, 0x100])
          \<and> key_of (nodes s') cur = 5 \<and> found \<and> cur = 0x180"
    using fiveb kb fb cb by blast
  have B7: "\<exists>found prev cur nx s'.
            list_find 5 list_node_delete_rb 0 7 (LNull, 0, 0) st_rb1 = Inr (found, (prev, cur, nx), s')
          \<and> cur \<in> set [0x180, 0x100] \<and> cur \<noteq> l_tail st_rb1
          \<and> (found \<longleftrightarrow> key_of (nodes st_rb1) cur = 7 \<and> cur \<noteq> last [0x180, 0x100])
          \<and> \<not> found \<and> cur = 0x100"
    using sevenb(1,2,3,4,5) c0 by blast
  have A5: "\<exists>found prev cur nx s'.
            list_find_ordered 5 0 5 LHead st_arr1 = Inr (found, (prev, cur, nx), s')
          \<and> (found \<longleftrightarrow> key_of (nodes st_arr1) cur = 5)
          \<and> (found \<longleftrightarrow> key_of (nodes s') cur = 5)
          \<and> found \<and> cur = 0x180"
    using fivea ka fa ca by blast
  have A7: "\<exists>found prev cur nx s'.
            list_find_ordered 5 0 7 LHead st_arr1 = Inr (found, (prev, cur, nx), s')
          \<and> (found \<longleftrightarrow> key_of (nodes st_arr1) cur = 7)
          \<and> \<not> found \<and> cur = l_tail st_arr1"
    using sevena fa' by blast
  show ?thesis
    by (intro conjI) (rule h w l B5 B7 A5 A7)+
qed

text \<open>
  C2 as stated fails for \<^verbatim>\<open>__list_find\<close>.  On the list that \<^verbatim>\<open>list_new\<close> makes and the
  key 0 the traversal arrives at the tail, the call returns false, and the node it
  reports is not the tail but the node before it, whose key is the key looked for.  On
  the list \<open>st_rb_marked\<close>, in which the node of the key 5 is marked and still linked,
  the call for the key 5 leaves its loop at that node, returns false and reports it.
\<close>

theorem find_rb_stops_before_tail:
  "list_find 3 list_node_delete_rb 0 0 (LNull, 0, 0) st_rb0
     = Inr (False, (LHead, 0x100, 0x200),
            st_rb0\<lparr>hp := (hp st_rb0)(0 := (hp st_rb0 0)(HP_CURR := 0x100, HP_NEXT := 0x200))\<rparr>)
   \<and> key_of (nodes st_rb0) 0x100 = 0 \<and> l_tail st_rb0 = 0x200 \<and> list_wf st_rb0 [0x100]
   \<and> bindE (list_find 4 list_node_delete_rb 0 5 (LNull, 0, 0) st_rb_marked)
         (\<lambda>(found, (prev, cur, nx), s). Inr (found, prev, cur, nx, key_of (nodes s) cur))
     = Inr (False, LNext 0x1000, 0x140, 0x1C1, 5)"
  using find_zero_rb0 keys_small list_wf_small find_five_marked by simp




text \<open>
  C5 fails for \<^verbatim>\<open>list_delete_once\<close>.  In \<open>c5_run\<close> thread 0 deletes the key 5 and,
  between its find and its \<^verbatim>\<open>atomic_fetch_or\<close>, another thread marks the node: the call
  returns true with the three hazard slots it has set still holding the first node,
  the marked node and the tail.
\<close>

theorem delete_once_marked_keeps_slots:
  "bindE c5_run (\<lambda>(b, s). Inr (b, hp s 0 HP_PREV, hp s 0 HP_CURR, hp s 0 HP_NEXT))
     = Inr (True, 0x100, 0x180, 0x200)"
proof -
  have e: "(7 :: nat) = Suc (Suc (Suc (Suc (Suc (Suc (Suc 0))))))"
    "(6 :: nat) = Suc (Suc (Suc (Suc (Suc (Suc 0)))))" by simp_all
  show ?thesis
    unfolding c5_run_def e find_five_arr1
    by (simp add: fetch_or_def st_arr1_def st_arr0_def is_marked_def
          HP_CURR_def HP_NEXT_def HP_PREV_def)
qed

end
